(* ===== verification/Ubbd_Prelude.thy ===== *)
theory Ubbd_Prelude
  imports Main "HOL-Library.Word" "HOL-Library.Monad_Syntax"
begin

text \<open>
  Shared vocabulary of the development: the C integer types of the driver, the
  errno values it returns, the kernel's rounding macro, and the lemmas on words,
  lists and options the component theories rely on.

  Conventions.
  \<^item> \<open>u32\<close> and \<open>u64\<close> are machine words, their arithmetic wraps as in C.
  \<^item> An \<open>int\<close> return value of the driver is an \<^typ>\<open>int\<close>: 0 or a negated errno.
  \<^item> A function that may oops (NULL dereference, \<open>BUG_ON\<close>, access outside an
    object) or fail to return yields an \<open>option\<close>: \<open>None\<close> is the oops or the endless
    loop, so \<open>f s = Some t\<close> states that the code returns normally.
\<close>

unbundle bit_operations_syntax

type_synonym u8 = "8 word"
type_synonym u32 = "32 word"
type_synonym u64 = "64 word"

text \<open>The errno values the driver uses (\<open>uapi/asm-generic/errno*.h\<close>).\<close>

abbreviation EPERM :: int where "EPERM \<equiv> 1"
abbreviation ENOENT :: int where "ENOENT \<equiv> 2"
abbreviation EIO :: int where "EIO \<equiv> 5"
abbreviation EAGAIN :: int where "EAGAIN \<equiv> 11"
abbreviation ENOMEM :: int where "ENOMEM \<equiv> 12"
abbreviation EFAULT :: int where "EFAULT \<equiv> 14"
abbreviation EBUSY :: int where "EBUSY \<equiv> 16"
abbreviation ENODEV :: int where "ENODEV \<equiv> 19"
abbreviation EINVAL :: int where "EINVAL \<equiv> 22"
abbreviation ENOSPC :: int where "ENOSPC \<equiv> 28"
abbreviation EMSGSIZE :: int where "EMSGSIZE \<equiv> 90"
abbreviation ESTALE :: int where "ESTALE \<equiv> 116"
abbreviation ERESTARTSYS :: int where "ERESTARTSYS \<equiv> 512"
abbreviation EPROBE_DEFER :: int where "EPROBE_DEFER \<equiv> 517"

text \<open>4 KiB pages: \<open>PAGE_SIZE\<close> and \<open>PAGE_SHIFT\<close>, and \<open>sizeof(struct iovec)\<close> on a 64-bit kernel.\<close>

abbreviation PAGE_SHIFT :: nat where "PAGE_SHIFT \<equiv> 12"
abbreviation PAGE_SIZE :: u64 where "PAGE_SIZE \<equiv> 4096"
abbreviation sizeof_iovec :: u32 where "sizeof_iovec \<equiv> 16"

text \<open>\<open>round_up(x, y)\<close> of \<open>linux/math.h\<close>, for a power of two \<open>y\<close>, at the width of its arguments.\<close>

definition round_up :: "'a::len word \<Rightarrow> 'a word \<Rightarrow> 'a word" where
  "round_up x y = ((x - 1) OR (y - 1)) + 1"

named_theorems unat_simps \<open>facts that move u32 arithmetic to nat\<close>

section \<open>Words\<close>

lemma unat_lt_2_32 [simp]: "unat (x :: u32) < 4294967296"
  using unsigned_less [of x] by simp

lemma unat_minus_u32 [unat_simps]:
  "unat y \<le> unat x \<Longrightarrow> unat (x - y :: u32) = unat x - unat y"
  by (rule unat_sub) (simp add: word_le_nat_alt)

lemma unat_plus_u32 [unat_simps]:
  "unat x + unat y < 4294967296 \<Longrightarrow> unat (x + y :: u32) = unat x + unat y"
  using unat_add_lem [of x y] by simp

lemma uint_numeral:
  "uint x < numeral n \<longleftrightarrow> unat x < numeral n"
  "numeral n \<le> uint x \<longleftrightarrow> numeral n \<le> unat x"
  using of_nat_less_iff [of "unat x" "numeral n", where 'a = int]
    of_nat_le_iff [of "numeral n" "unat x", where 'a = int] by simp_all

lemmas word_order_nat [unat_simps] = word_less_nat_alt word_le_nat_alt

lemma round_up_pow2:
  fixes x :: "'a::len word"
  assumes "unat x > 0" and "unat x + 2 ^ k \<le> 2 ^ LENGTH('a)" and "k < LENGTH('a)"
  shows "unat (round_up x (2 ^ k)) = (unat x + 2 ^ k - 1) div 2 ^ k * 2 ^ k"
proof -
  define a where "a = unat x - 1"
  have x1: "unat (x - 1) = a"
    using assms(1) unat_sub [of 1 x] by (simp add: a_def word_le_nat_alt)
  have m: "(2 ^ k - 1 :: 'a word) = mask k"
    by (simp add: mask_eq_exp_minus_1)
  have um: "unat (mask k :: 'a word) = mask k"
    using assms(3) by (intro bit_eqI) (auto simp: bit_simps bit_unsigned_iff)
  have "(a OR mask k) = push_bit k (drop_bit k a) + mask k"
  proof -
    have "a OR mask k = push_bit k (drop_bit k a) OR mask k"
      by (rule bit_eqI) (auto simp: bit_simps)
    also have "\<dots> = push_bit k (drop_bit k a) + mask k"
      by (rule disjunctive_add_eq_or [symmetric]) (rule bit_eqI, auto simp: bit_simps)
    finally show ?thesis .
  qed
  then have or_eq: "(a OR mask k) + 1 = (a div 2 ^ k + 1) * 2 ^ k"
    by (simp add: push_bit_eq_mult drop_bit_eq_div mask_eq_exp_minus_1 algebra_simps)
  have "(a div 2 ^ k + 1) * 2 ^ k \<le> a + 2 ^ k"
    by (simp add: algebra_simps)
  also have "\<dots> < 2 ^ LENGTH('a)"
    using assms(1,2) by (simp add: a_def)
  finally have bound: "(a OR mask k) + 1 < 2 ^ LENGTH('a)"
    by (simp only: or_eq)
  have "unat (round_up x (2 ^ k)) = (a OR mask k) + 1"
    using bound unat_add_lem [of "(x - 1) OR mask k" 1] unfolding round_up_def m
    by (simp add: unsigned_or_eq x1 um)
  then have "unat (round_up x (2 ^ k)) = (a div 2 ^ k + 1) * 2 ^ k"
    by (simp only: or_eq)
  moreover have "unat x + 2 ^ k - 1 = a + 2 ^ k"
    using assms(1) by (simp add: a_def)
  moreover have "(a + 2 ^ k) div 2 ^ k = a div 2 ^ k + 1"
    by (rule div_add_self2) simp
  ultimately show ?thesis by (simp only:)
qed

section \<open>Lists\<close>

lemma nth_update_if: "xs[i := v] ! j = (if i = j \<and> j < length xs then v else xs ! j)"
  by (cases "i = j") (auto simp: list_update_beyond)

end
