(* ===== verification/Ubbd_H.thy ===== *)
theory Ubbd_H
  imports Ubbd_Prelude
begin

text \<open>
  The parameters of the model: what the driver takes from \<open>ubbd.h\<close>, the header of the
  \<open>ubbd-headers\<close> submodule, which is not part of this repository. Every definition
  that uses one of these values or accessors takes the record \<open>H\<close> as an argument, and
  what the driver relies on is the predicate \<open>ubbd_h_ok\<close>.
\<close>

text \<open>The operation codes of \<open>enum ubbd_op\<close> the driver names.\<close>

datatype ubbd_op = UBBD_OP_PAD | UBBD_OP_READ | UBBD_OP_WRITE | UBBD_OP_FLUSH
  | UBBD_OP_DISCARD | UBBD_OP_WRITE_ZEROS

record ubbd_h =
  CMDR_RESERVED :: u32
  op_align_shift :: nat          \<comment> \<open>\<open>UBBD_OP_ALIGN_SIZE\<close> is \<open>2 ^ op_align_shift\<close>\<close>
  sizeof_se :: u32               \<comment> \<open>\<open>sizeof(struct ubbd_se)\<close>, without the iov array\<close>
  sizeof_ce :: u32               \<comment> \<open>\<open>sizeof(struct ubbd_ce)\<close>\<close>
  CMDR_SIZE :: u32
  COMPR_SIZE :: u32
  RING_SIZE :: u64
  op_zero :: ubbd_op             \<comment> \<open>the operation whose code is 0, as \<open>memset\<close> leaves it\<close>
  hdr_set_op :: "ubbd_op \<Rightarrow> u32 \<Rightarrow> u32"    \<comment> \<open>\<open>ubbd_se_hdr_set_op\<close> on \<open>len_op\<close>\<close>
  hdr_get_op :: "u32 \<Rightarrow> ubbd_op"
  hdr_set_len :: "u32 \<Rightarrow> u32 \<Rightarrow> u32"       \<comment> \<open>\<open>ubbd_se_hdr_set_len\<close>: the length, then \<open>len_op\<close>\<close>
  hdr_get_len :: "u32 \<Rightarrow> u32"              \<comment> \<open>\<open>ubbd_se_hdr_get_len\<close>\<close>
  flags_set_done :: "u32 \<Rightarrow> u32"           \<comment> \<open>\<open>ubbd_se_hdr_flags_set(se, UBBD_SE_HDR_DONE)\<close>\<close>
  flags_test_done :: "u32 \<Rightarrow> bool"         \<comment> \<open>\<open>ubbd_se_hdr_flags_test(se, UBBD_SE_HDR_DONE)\<close>\<close>

abbreviation UBBD_OP_ALIGN_SIZE :: "ubbd_h \<Rightarrow> u32" where
  "UBBD_OP_ALIGN_SIZE H \<equiv> 2 ^ op_align_shift H"

abbreviation op_align :: "ubbd_h \<Rightarrow> nat" where
  "op_align H \<equiv> 2 ^ op_align_shift H"

text \<open>
  What the driver relies on. The length and the operation share one word, so the length
  accessor gives back what was stored for a multiple of the alignment; the operation
  accessor is independent of it; the \<open>DONE\<close> flag is clear in zeroed memory and set
  once it is set. The sizes of the rings are multiples of what is put into them.
\<close>

definition hdr_codec_ok :: "ubbd_h \<Rightarrow> bool" where
  "hdr_codec_ok H \<longleftrightarrow>
     (\<forall>w oc l. op_align H dvd unat l \<longrightarrow>
        hdr_get_len H (hdr_set_len H l (hdr_set_op H oc w)) = l \<and>
        hdr_get_op H (hdr_set_len H l (hdr_set_op H oc w)) = oc)"

definition flags_ok :: "ubbd_h \<Rightarrow> bool" where
  "flags_ok H \<longleftrightarrow> \<not> flags_test_done H 0 \<and> (\<forall>f. flags_test_done H (flags_set_done H f))"

definition ubbd_h_ok :: "ubbd_h \<Rightarrow> bool" where
  "ubbd_h_ok H \<longleftrightarrow>
     hdr_codec_ok H \<and> flags_ok H \<and>
     op_align_shift H < 16 \<and> 0 < unat (sizeof_se H) \<and> unat (sizeof_se H) < 2 ^ 16 \<and>
     op_align H dvd unat (CMDR_SIZE H) \<and>
     0 < unat (CMDR_RESERVED H) \<and> unat (CMDR_RESERVED H) \<le> unat (CMDR_SIZE H) \<and>
     unat (CMDR_SIZE H) \<le> 2 ^ 31 \<and>
     0 < unat (sizeof_ce H) \<and> unat (sizeof_ce H) dvd unat (COMPR_SIZE H) \<and>
     0 < unat (COMPR_SIZE H) \<and> unat (COMPR_SIZE H) \<le> 2 ^ 31"

lemma ubbd_h_codec [simp]:
  "ubbd_h_ok H \<Longrightarrow> op_align H dvd unat l \<Longrightarrow>
     hdr_get_len H (hdr_set_len H l (hdr_set_op H oc w)) = l"
  "ubbd_h_ok H \<Longrightarrow> op_align H dvd unat l \<Longrightarrow>
     hdr_get_op H (hdr_set_len H l (hdr_set_op H oc w)) = oc"
  by (auto simp: ubbd_h_ok_def hdr_codec_ok_def)

lemma ubbd_h_flags [simp]:
  "ubbd_h_ok H \<Longrightarrow> flags_test_done H (flags_set_done H f)"
  "ubbd_h_ok H \<Longrightarrow> \<not> flags_test_done H 0"
  by (auto simp: ubbd_h_ok_def flags_ok_def)

text \<open>
  A concrete instance for the witnesses: 8-byte alignment, the operation in the low
  three bits of \<open>len_op\<close>, the \<open>DONE\<close> flag in bit 0, small rings.
\<close>

fun op_code :: "ubbd_op \<Rightarrow> u32" where
  "op_code UBBD_OP_PAD = 0"
| "op_code UBBD_OP_READ = 1"
| "op_code UBBD_OP_WRITE = 2"
| "op_code UBBD_OP_FLUSH = 3"
| "op_code UBBD_OP_DISCARD = 4"
| "op_code UBBD_OP_WRITE_ZEROS = 5"

definition code_op :: "u32 \<Rightarrow> ubbd_op" where
  "code_op w = (if w = 0 then UBBD_OP_PAD else if w = 1 then UBBD_OP_READ
     else if w = 2 then UBBD_OP_WRITE else if w = 3 then UBBD_OP_FLUSH
     else if w = 4 then UBBD_OP_DISCARD else UBBD_OP_WRITE_ZEROS)"

definition H0 :: ubbd_h where
  "H0 = \<lparr>CMDR_RESERVED = 8, op_align_shift = 3, sizeof_se = 40, sizeof_ce = 16,
     CMDR_SIZE = 256, COMPR_SIZE = 64, RING_SIZE = 4096, op_zero = UBBD_OP_PAD,
     hdr_set_op = (\<lambda>oc w. (w AND NOT 7) OR op_code oc),
     hdr_get_op = (\<lambda>w. code_op (w AND 7)),
     hdr_set_len = (\<lambda>l w. (w AND 7) OR l),
     hdr_get_len = (\<lambda>w. w AND NOT 7),
     flags_set_done = (\<lambda>f. f OR 1),
     flags_test_done = (\<lambda>f. f AND 1 = 1)\<rparr>"

lemma H0_simps [simp]:
  "CMDR_RESERVED H0 = 8" "op_align_shift H0 = 3" "sizeof_se H0 = 40" "sizeof_ce H0 = 16"
  "CMDR_SIZE H0 = 256" "COMPR_SIZE H0 = 64" "RING_SIZE H0 = 4096" "op_zero H0 = UBBD_OP_PAD"
  "hdr_set_op H0 oc w = (w AND NOT 7) OR op_code oc"
  "hdr_get_op H0 w = code_op (w AND 7)"
  "hdr_set_len H0 l w = (w AND 7) OR l"
  "hdr_get_len H0 w = w AND NOT 7"
  "flags_set_done H0 f = f OR 1"
  "flags_test_done H0 f = (f AND 1 = 1)"
  by (simp_all add: H0_def)

lemma aligned8_and_7: "8 dvd unat (l :: u32) \<Longrightarrow> l AND 7 = 0"
  using and_mask_dvd_nat [of 3 l] by (simp add: mask_eq_exp_minus_1)

lemma masked_fields:
  fixes w l c m :: u32
  assumes l: "l AND m = 0" and c: "c AND NOT m = 0"
  shows "((w AND NOT m OR c) AND m OR l) AND NOT m = l"
    and "((w AND NOT m OR c) AND m OR l) AND m = c"
proof -
  have bl: "\<not> (bit l n \<and> bit m n)" for n
    using arg_cong [OF l, of "\<lambda>x. bit x n"] by (simp add: bit_and_iff)
  have bc: "bit c n \<Longrightarrow> bit m n" if "n < 32" for n
    using arg_cong [OF c, of "\<lambda>x. bit x n"] that by (simp add: bit_and_iff bit_not_iff)
  show "((w AND NOT m OR c) AND m OR l) AND NOT m = l"
    and "((w AND NOT m OR c) AND m OR l) AND m = c"
    using bl bc by (auto intro!: bit_word_eqI simp: bit_and_iff bit_or_iff bit_not_iff)
qed

lemma H0_codec: "hdr_codec_ok H0"
proof -
  have c: "op_code oc AND NOT 7 = 0" and d: "code_op (op_code oc) = oc" for oc
    by (cases oc; simp add: code_op_def)+
  show ?thesis
    using masked_fields [where m = 7, OF aligned8_and_7 c] d
    by (simp add: hdr_codec_ok_def)
qed

lemma H0_flags: "flags_ok H0"
proof -
  have "(f OR 1) AND 1 = 1" for f :: u32
    by (rule bit_word_eqI) (auto simp: bit_simps)
  then show ?thesis by (simp add: flags_ok_def)
qed

lemma H0_ok [simp]: "ubbd_h_ok H0"
  by (simp add: ubbd_h_ok_def H0_codec H0_flags)

end
