(* ===== verification/Cmd_Ring.thy ===== *)
theory Cmd_Ring
  imports Ubbd_H
begin

text \<open>
  The command ring of a queue (\<open>src/ubbd_req.c\<close>, the ring macros of
  \<open>src/ubbd_internal.h\<close>): the memory shared with the backend, in which the driver
  writes submit entries at \<open>cmd_head\<close> and retires finished ones at \<open>cmd_tail\<close>.

  Memory is the typed view of the ring: byte offset to the submit entry that starts
  there, zeroed memory being the zero entry. A write outside \<open>[0, cmdr_size)\<close> is \<open>None\<close>.
  Below the operations come the abstraction of a ring to the list of entries it holds
  (\<open>ring_inv\<close>), the refinement lemmas, and the contract \<open>submit_ring\<close> the request
  path uses.
\<close>

section \<open>Data\<close>

text \<open>\<open>struct ubbd_se\<close>, the fields the driver writes or reads.\<close>

record ubbd_se =
  se_len_op :: u32
  se_flags :: u32
  se_priv_data :: u64
  se_offset :: u64
  se_len :: u64
  se_iov_cnt :: u32
  se_iov :: "(u64 \<times> u64) list"      \<comment> \<open>\<open>iov_base\<close>, \<open>iov_len\<close>\<close>

definition zero_se :: ubbd_se where
  "zero_se = \<lparr>se_len_op = 0, se_flags = 0, se_priv_data = 0, se_offset = 0, se_len = 0,
     se_iov_cnt = 0, se_iov = []\<rparr>"

text \<open>The command ring part of \<open>struct ubbd_sb\<close> and the memory at \<open>ubbd_q->cmdr\<close>.\<close>

record cmd_ring =
  cmdr_size :: u32
  cmd_head :: u32
  cmd_tail :: u32
  cmdr_mem :: "nat \<Rightarrow> ubbd_se"

section \<open>Operations\<close>

definition UPDATE_CMDR_HEAD :: "u32 \<Rightarrow> u32 \<Rightarrow> u32 \<Rightarrow> u32" where
  "UPDATE_CMDR_HEAD head used sz = ((head mod sz) + used) mod sz"

definition UPDATE_CMDR_TAIL :: "u32 \<Rightarrow> u32 \<Rightarrow> u32 \<Rightarrow> u32" where
  "UPDATE_CMDR_TAIL tail used sz = ((tail mod sz) + used) mod sz"

text \<open>\<open>memset(cmdr + off, 0, n)\<close> and a store of an entry at \<open>cmdr + off\<close>.\<close>

definition cmdr_memset :: "nat \<Rightarrow> nat \<Rightarrow> 'a cmd_ring_scheme \<Rightarrow> 'a cmd_ring_scheme option" where
  "cmdr_memset off n rg =
     (if off + n \<le> unat (cmdr_size rg)
      then Some (rg\<lparr>cmdr_mem := (\<lambda>o1. if off \<le> o1 \<and> o1 < off + n then zero_se else cmdr_mem rg o1)\<rparr>)
      else None)"

definition cmdr_store :: "nat \<Rightarrow> ubbd_se \<Rightarrow> 'a cmd_ring_scheme \<Rightarrow> 'a cmd_ring_scheme" where
  "cmdr_store off se rg = rg\<lparr>cmdr_mem := (cmdr_mem rg)(off := se)\<rparr>"

definition get_submit_entry :: "'a cmd_ring_scheme \<Rightarrow> nat" where
  "get_submit_entry rg = unat (cmd_head rg)"

definition get_oldest_se :: "'a cmd_ring_scheme \<Rightarrow> nat option" where
  "get_oldest_se rg = (if cmd_tail rg = cmd_head rg then None else Some (unat (cmd_tail rg)))"

definition submit_ring_space_enough :: "ubbd_h \<Rightarrow> 'a cmd_ring_scheme \<Rightarrow> u32 \<Rightarrow> bool" where
  "submit_ring_space_enough H rg cmd_size =
     (let space_max = cmdr_size rg - CMDR_RESERVED H;
          space_used =
            (if cmd_head rg > cmd_tail rg then cmd_head rg - cmd_tail rg
             else if cmd_head rg < cmd_tail rg
                  then cmd_head rg + (cmdr_size rg - cmd_tail rg)
                  else 0);
          space_available = space_max - space_used;
          space_needed =
            (if cmdr_size rg - cmd_head rg > cmd_size then cmd_size
             else cmd_size + cmdr_size rg - cmd_head rg)
      in \<not> (space_available < space_needed))"

definition insert_padding ::
  "ubbd_h \<Rightarrow> u32 \<Rightarrow> 'a cmd_ring_scheme \<Rightarrow> 'a cmd_ring_scheme option" where
  "insert_padding H cmd_size rg =
     (if cmdr_size rg - cmd_head rg \<ge> cmd_size then Some rg
      else do {
        let pad_len = cmdr_size rg - cmd_head rg;
        let header = get_submit_entry rg;
        rg1 \<leftarrow> cmdr_memset header (unat pad_len) rg;
        let w1 = hdr_set_op H UBBD_OP_PAD (se_len_op (cmdr_mem rg1 header));
        let w2 = hdr_set_len H pad_len w1;
        let rg2 = cmdr_store header ((cmdr_mem rg1 header)\<lparr>se_len_op := w2\<rparr>) rg1;
        Some (rg2\<lparr>cmd_head := UPDATE_CMDR_HEAD (cmd_head rg2) pad_len (cmdr_size rg2)\<rparr>)
      })"

text \<open>
  \<open>advance_cmd_ring\<close>: the \<open>goto again\<close> loop. It trusts the lengths in shared memory, so
  whether it returns depends on them: \<open>None\<close> is the loop that never ends.
\<close>

partial_function (option) advance_cmd_ring ::
  "ubbd_h \<Rightarrow> 'a cmd_ring_scheme \<Rightarrow> 'a cmd_ring_scheme option" where
  "advance_cmd_ring H rg =
     (case get_oldest_se rg of
        None \<Rightarrow> Some rg
      | Some off \<Rightarrow>
          let se = cmdr_mem rg off in
          if flags_test_done H (se_flags se)
          then advance_cmd_ring H
                 (rg\<lparr>cmd_tail := UPDATE_CMDR_TAIL (cmd_tail rg)
                                   (hdr_get_len H (se_len_op se)) (cmdr_size rg)\<rparr>)
          else Some rg)"

section \<open>The ring as a list of entries\<close>

definition elen :: "ubbd_h \<Rightarrow> ubbd_se \<Rightarrow> nat" where
  "elen H e = unat (hdr_get_len H (se_len_op e))"

definition ring_bytes :: "ubbd_h \<Rightarrow> ubbd_se list \<Rightarrow> nat" where
  "ring_bytes H es = sum_list (map (elen H) es)"

abbreviation se_done :: "ubbd_h \<Rightarrow> ubbd_se \<Rightarrow> bool" where
  "se_done H e \<equiv> flags_test_done H (se_flags e)"

text \<open>
  \<open>chain H m s t es h\<close>: walking memory \<open>m\<close> of a ring of \<open>s\<close> bytes from offset \<open>t\<close> visits
  the entries \<open>es\<close> and ends at offset \<open>h\<close>; no entry crosses the end of the ring.
\<close>

fun chain :: "ubbd_h \<Rightarrow> (nat \<Rightarrow> ubbd_se) \<Rightarrow> nat \<Rightarrow> nat \<Rightarrow> ubbd_se list \<Rightarrow> nat \<Rightarrow> bool" where
  "chain H m s t [] h \<longleftrightarrow> t = h"
| "chain H m s t (e # es) h \<longleftrightarrow>
     m t = e \<and> 0 < elen H e \<and> op_align H dvd elen H e \<and> t + elen H e \<le> s \<and>
     chain H m s ((t + elen H e) mod s) es h"

text \<open>
  \<open>ring_inv H es rg\<close>: the ring holds the entries \<open>es\<close> between tail and head, and the
  reserved bytes are free, so that equal head and tail mean an empty ring.
\<close>

definition ring_inv :: "ubbd_h \<Rightarrow> ubbd_se list \<Rightarrow> 'a cmd_ring_scheme \<Rightarrow> bool" where
  "ring_inv H es rg \<longleftrightarrow>
     cmdr_size rg = CMDR_SIZE H \<and>
     unat (cmd_head rg) < unat (cmdr_size rg) \<and> unat (cmd_tail rg) < unat (cmdr_size rg) \<and>
     op_align H dvd unat (cmd_head rg) \<and>
     chain H (cmdr_mem rg) (unat (cmdr_size rg)) (unat (cmd_tail rg)) es (unat (cmd_head rg)) \<and>
     ring_bytes H es + unat (CMDR_RESERVED H) \<le> unat (cmdr_size rg)"

lemma ring_bytes_simps [simp]:
  "ring_bytes H [] = 0"
  "ring_bytes H (e # es) = elen H e + ring_bytes H es"
  "ring_bytes H (es @ fs) = ring_bytes H es + ring_bytes H fs"
  by (simp_all add: ring_bytes_def)

lemma chain_append [simp]:
  "chain H m s t (es @ fs) h \<longleftrightarrow> (\<exists>u. chain H m s t es u \<and> chain H m s u fs h)"
  by (induction es arbitrary: t) auto

lemma chain_end:
  "chain H m s t es h \<Longrightarrow> t < s \<Longrightarrow> h = (t + ring_bytes H es) mod s"
proof (induction es arbitrary: t)
  case (Cons e es)
  then have "h = ((t + elen H e) mod s + ring_bytes H es) mod s"
    by simp
  then show ?case by (simp add: mod_simps add.assoc)
qed simp

text \<open>The chain only depends on the memory between tail and head.\<close>

lemma chain_cong:
  assumes "chain H m s t es h" and "t < s"
    and "\<And>k. k < ring_bytes H es \<Longrightarrow> m' ((t + k) mod s) = m ((t + k) mod s)"
  shows "chain H m' s t es h"
  using assms
proof (induction es arbitrary: t)
  case (Cons e es)
  let ?u = "(t + elen H e) mod s"
  have "m' ((?u + k) mod s) = m ((?u + k) mod s)" if "k < ring_bytes H es" for k
    using Cons.prems(3) [of "elen H e + k"] that by (simp add: mod_simps add.assoc)
  moreover have "m' t = m t"
    using Cons.prems(1,2) Cons.prems(3) [of 0] by simp
  ultimately show ?case
    using Cons.prems(1,2) Cons.IH [of ?u] by simp
qed simp

lemma mod_shift_neq:
  fixes k j s t :: nat
  assumes "k < j" and "j < s"
  shows "(t + k) mod s \<noteq> (t + j) mod s"
proof
  assume "(t + k) mod s = (t + j) mod s"
  then have "s dvd (t + j) - (t + k)"
    by (metis add_le_cancel_left assms(1) less_imp_le_nat mod_eq_dvd_iff_nat)
  then show False
    using assms by (auto dest: dvd_imp_le)
qed

text \<open>Writing an entry into the free region at the head appends it to the list.\<close>

lemma chain_push:
  assumes ch: "chain H m s t es h" and t: "t < s" and h: "h < s"
    and free: "ring_bytes H es + n \<le> s" and fits: "h + n \<le> s"
    and n: "elen H e = n" "0 < n" "op_align H dvd n"
    and m': "m' = (\<lambda>p. if h \<le> p \<and> p < h + n then zero_se else m p)(h := e)"
  shows "chain H m' s t (es @ [e]) ((h + n) mod s)"
proof -
  have "m' ((t + k) mod s) = m ((t + k) mod s)" if k: "k < ring_bytes H es" for k
  proof -
    have "(t + k) mod s \<noteq> h + j" if j: "j < n" for j
    proof -
      have "h + j = (t + (ring_bytes H es + j)) mod s"
        using chain_end [OF ch t] h fits j by (metis add.assoc mod_add_left_eq mod_less less_le_trans add_less_cancel_left)
      then show ?thesis
        using mod_shift_neq [of k "ring_bytes H es + j" s t] k j free by simp
    qed
    then have "\<not> (h \<le> (t + k) mod s \<and> (t + k) mod s < h + n)"
      by (metis le_Suc_ex add_less_cancel_left)
    then show ?thesis
      using n(2) by (auto simp: m')
  qed
  then have "chain H m' s t es h"
    by (rule chain_cong [OF ch t])
  then show ?thesis
    using n fits by (auto simp: m')
qed

section \<open>The operations on the abstract ring\<close>

lemma unat_update_head:
  assumes "unat hd0 < unat sz" and "unat sz \<le> 2 ^ 31" and "unat used \<le> 2 ^ 31"
  shows "unat (UPDATE_CMDR_HEAD hd0 used sz) = (unat hd0 + unat used) mod unat sz"
    and "unat (UPDATE_CMDR_TAIL hd0 used sz) = (unat hd0 + unat used) mod unat sz"
proof -
  have "unat (hd0 mod sz + used) = unat hd0 + unat used"
    using assms by (subst unat_plus_u32) (simp_all add: unat_mod)
  then show "unat (UPDATE_CMDR_HEAD hd0 used sz) = (unat hd0 + unat used) mod unat sz"
    and "unat (UPDATE_CMDR_TAIL hd0 used sz) = (unat hd0 + unat used) mod unat sz"
    by (simp_all add: UPDATE_CMDR_HEAD_def UPDATE_CMDR_TAIL_def unat_mod)
qed

lemma ubbd_h_sizes:
  assumes "ubbd_h_ok H"
  shows "unat (CMDR_SIZE H) \<le> 2 ^ 31" "0 < unat (CMDR_RESERVED H)"
    "unat (CMDR_RESERVED H) \<le> unat (CMDR_SIZE H)" "op_align H dvd unat (CMDR_SIZE H)"
  using assms by (simp_all add: ubbd_h_ok_def)

text \<open>The word expression the driver computes for the used bytes is the length of the list.\<close>

lemma ring_used:
  assumes "ubbd_h_ok H" and inv: "ring_inv H es rg"
  shows "unat (if cmd_head rg > cmd_tail rg then cmd_head rg - cmd_tail rg
             else if cmd_head rg < cmd_tail rg then cmd_head rg + (cmdr_size rg - cmd_tail rg)
             else 0) = ring_bytes H es"
proof -
  let ?s = "unat (cmdr_size rg)" and ?h = "unat (cmd_head rg)" and ?t = "unat (cmd_tail rg)"
  have b: "ring_bytes H es < ?s" and t: "?t < ?s" and h: "?h < ?s" and s: "?s \<le> 2 ^ 31"
    using assms ubbd_h_sizes [OF assms(1)] by (auto simp: ring_inv_def)
  have h_eq: "?h = (?t + ring_bytes H es) mod ?s"
    using inv t by (auto simp: ring_inv_def dest: chain_end)
  show ?thesis
  proof (cases "?t + ring_bytes H es < ?s")
    case True
    then show ?thesis
      using h_eq by (auto simp: unat_simps)
  next
    case False
    then have "?h = ?t + ring_bytes H es - ?s"
      using h_eq b t by (simp add: mod_if)
    then show ?thesis
      using False b t h s by (simp add: unat_simps)
  qed
qed

lemma space_enough_iff:
  assumes "ubbd_h_ok H" and inv: "ring_inv H es rg" and n: "unat n < 2 ^ 31"
  shows "submit_ring_space_enough H rg n \<longleftrightarrow>
    ring_bytes H es + unat (CMDR_RESERVED H) +
      (if unat n < unat (cmdr_size rg) - unat (cmd_head rg) then unat n
       else unat n + (unat (cmdr_size rg) - unat (cmd_head rg))) \<le> unat (cmdr_size rg)"
proof -
  define used where "used = (if cmd_head rg > cmd_tail rg then cmd_head rg - cmd_tail rg
             else if cmd_head rg < cmd_tail rg then cmd_head rg + (cmdr_size rg - cmd_tail rg)
             else 0)"
  have u: "unat used = ring_bytes H es"
    unfolding used_def by (rule ring_used [OF assms(1,2)])
  have s: "unat (cmdr_size rg) \<le> 2 ^ 31" and r: "unat (CMDR_RESERVED H) \<le> unat (cmdr_size rg)"
    and h: "unat (cmd_head rg) < unat (cmdr_size rg)"
    and b: "ring_bytes H es + unat (CMDR_RESERVED H) \<le> unat (cmdr_size rg)"
    using assms ubbd_h_sizes [OF assms(1)] by (auto simp: ring_inv_def)
  have av: "unat (cmdr_size rg - CMDR_RESERVED H - used) =
      unat (cmdr_size rg) - unat (CMDR_RESERVED H) - ring_bytes H es"
    using r b u by (simp add: unat_simps)
  have nd: "unat (n + cmdr_size rg - cmd_head rg) = unat n + (unat (cmdr_size rg) - unat (cmd_head rg))"
    using n s h by (simp add: unat_simps)
  have dd: "unat (cmdr_size rg - cmd_head rg) = unat (cmdr_size rg) - unat (cmd_head rg)"
    using h by (simp add: unat_simps)
  show ?thesis
    unfolding submit_ring_space_enough_def Let_def used_def [symmetric]
    using b by (auto simp: word_order_nat av nd dd)
qed

text \<open>Publishing an entry at the head: zero its bytes, store it, move the head.\<close>

definition publish :: "ubbd_se \<Rightarrow> u32 \<Rightarrow> 'a cmd_ring_scheme \<Rightarrow> 'a cmd_ring_scheme option" where
  "publish e n rg = do {
     rg1 \<leftarrow> cmdr_memset (get_submit_entry rg) (unat n) rg;
     let rg2 = cmdr_store (get_submit_entry rg) e rg1;
     Some (rg2\<lparr>cmd_head := UPDATE_CMDR_HEAD (cmd_head rg2) n (cmdr_size rg2)\<rparr>)
   }"

lemma publish_ok:
  assumes H: "ubbd_h_ok H" and inv: "ring_inv H es rg"
    and fits: "unat (cmd_head rg) + unat n \<le> unat (cmdr_size rg)"
    and free: "ring_bytes H es + unat n + unat (CMDR_RESERVED H) \<le> unat (cmdr_size rg)"
    and e: "hdr_get_len H (se_len_op e) = n" "0 < unat n" "op_align H dvd unat n"
  shows "\<exists>rg'. publish e n rg = Some rg' \<and> ring_inv H (es @ [e]) rg'"
proof -
  let ?s = "unat (cmdr_size rg)" and ?h = "unat (cmd_head rg)"
  let ?m = "(\<lambda>p. if ?h \<le> p \<and> p < ?h + unat n then zero_se else cmdr_mem rg p)(?h := e)"
  let ?rg = "rg\<lparr>cmdr_mem := ?m, cmd_head := UPDATE_CMDR_HEAD (cmd_head rg) n (cmdr_size rg)\<rparr>"
  have s: "?s \<le> 2 ^ 31" "op_align H dvd ?s" and h: "?h < ?s" "op_align H dvd ?h"
    and t: "unat (cmd_tail rg) < ?s"
    using inv ubbd_h_sizes [OF H] by (auto simp: ring_inv_def)
  have hd': "unat (UPDATE_CMDR_HEAD (cmd_head rg) n (cmdr_size rg)) = (?h + unat n) mod ?s"
    using h s fits by (intro unat_update_head) auto
  have "publish e n rg = Some ?rg"
    using fits by (simp add: publish_def cmdr_memset_def cmdr_store_def get_submit_entry_def Let_def)
  moreover have "chain H ?m ?s (unat (cmd_tail rg)) (es @ [e]) ((?h + unat n) mod ?s)"
    by (rule chain_push [where h = ?h and m = "cmdr_mem rg" and n = "unat n"])
      (use inv h t fits free e in \<open>auto simp: ring_inv_def elen_def\<close>)
  moreover have "op_align H dvd (?h + unat n) mod ?s"
    using h s e by (simp add: dvd_mod)
  ultimately show ?thesis
    using inv hd' free e h t by (simp add: ring_inv_def elen_def del: chain_append)
qed

text \<open>Padding: one \<open>PAD\<close> entry up to the end of the ring when the command does not fit there.\<close>

definition is_pad :: "ubbd_h \<Rightarrow> ubbd_se \<Rightarrow> bool" where
  "is_pad H e \<longleftrightarrow> hdr_get_op H (se_len_op e) = UBBD_OP_PAD \<and> \<not> se_done H e"

lemma insert_padding_publish:
  assumes "\<not> n \<le> cmdr_size rg - cmd_head rg" and "unat (cmd_head rg) < unat (cmdr_size rg)"
  shows "insert_padding H n rg =
    publish (zero_se\<lparr>se_len_op := hdr_set_len H (cmdr_size rg - cmd_head rg)
                                    (hdr_set_op H UBBD_OP_PAD 0)\<rparr>)
      (cmdr_size rg - cmd_head rg) rg"
proof -
  have "0 < unat (cmdr_size rg - cmd_head rg)"
    using assms(2) by (simp add: unat_simps)
  then show ?thesis
    using assms(1)
    by (simp add: insert_padding_def publish_def cmdr_memset_def get_submit_entry_def
        cmdr_store_def zero_se_def Let_def)
qed

lemma insert_padding_ok:
  assumes H: "ubbd_h_ok H" and inv: "ring_inv H es rg"
    and room: "submit_ring_space_enough H rg n" and n: "unat n < 2 ^ 31"
  shows "\<exists>rg' pads. insert_padding H n rg = Some rg' \<and> ring_inv H (es @ pads) rg' \<and>
     length pads \<le> 1 \<and> list_all (is_pad H) pads \<and>
     unat (cmd_head rg') + unat n \<le> unat (cmdr_size rg') \<and>
     ring_bytes H (es @ pads) + unat n + unat (CMDR_RESERVED H) \<le> unat (cmdr_size rg')"
proof -
  let ?s = "unat (cmdr_size rg)" and ?h = "unat (cmd_head rg)"
  let ?pad = "cmdr_size rg - cmd_head rg"
  have h: "?h < ?s" "op_align H dvd ?h" and s: "cmdr_size rg = CMDR_SIZE H" "op_align H dvd ?s" "?s \<le> 2 ^ 31"
    using inv ubbd_h_sizes [OF H] by (auto simp: ring_inv_def)
  have pad: "unat ?pad = ?s - ?h"
    using h by (simp add: unat_simps)
  note sp = space_enough_iff [OF H inv n, THEN iffD1, OF room]
  show ?thesis
  proof (cases "n \<le> ?pad")
    case True
    then have "insert_padding H n rg = Some rg" by (simp add: insert_padding_def)
    moreover have "?h + unat n \<le> ?s" using True h pad by (simp add: word_order_nat)
    ultimately show ?thesis
      using inv sp by (intro exI [of _ rg] exI [of _ "[]"]) (auto split: if_splits)
  next
    case False
    define e where "e = zero_se\<lparr>se_len_op := hdr_set_len H ?pad (hdr_set_op H UBBD_OP_PAD 0)\<rparr>"
    have al: "op_align H dvd unat ?pad" using h s pad by (simp add: dvd_diff_nat)
    then have e: "hdr_get_len H (se_len_op e) = ?pad" "is_pad H e"
      using H by (simp_all add: e_def is_pad_def zero_se_def)
    have sp': "ring_bytes H es + unat ?pad + unat n + unat (CMDR_RESERVED H) \<le> ?s"
      using sp False pad by (simp add: word_order_nat)
    have "\<exists>rg'. publish e ?pad rg = Some rg' \<and> ring_inv H (es @ [e]) rg'"
      by (rule publish_ok [OF H inv]) (use e al h sp' pad in \<open>simp_all add: diff_le_mono\<close>)
    then obtain rg' where rg': "publish e ?pad rg = Some rg'" "ring_inv H (es @ [e]) rg'"
      by blast
    have "publish e ?pad rg = insert_padding H n rg"
      using insert_padding_publish [OF False h(1)] by (simp add: e_def)
    moreover have "unat (cmd_head rg') = 0"
    proof -
      have "cmd_head rg' = UPDATE_CMDR_HEAD (cmd_head rg) ?pad (cmdr_size rg)"
        using rg'(1) by (auto simp: publish_def cmdr_memset_def cmdr_store_def Let_def split: if_splits)
      then show ?thesis
        using unat_update_head(1) [of "cmd_head rg" "cmdr_size rg" ?pad] h s pad by simp
    qed
    moreover have "cmdr_size rg' = cmdr_size rg" using rg'(2) s by (simp add: ring_inv_def)
    ultimately show ?thesis
      using rg' e sp' by (intro exI [of _ rg'] exI [of _ "[e]"]) (auto simp: elen_def)
  qed
qed

section \<open>Retiring entries\<close>

lemma advance_step:
  assumes H: "ubbd_h_ok H" and inv: "ring_inv H (e # es) rg" and d: "se_done H e"
  defines "rg1 \<equiv> rg\<lparr>cmd_tail := UPDATE_CMDR_TAIL (cmd_tail rg) (hdr_get_len H (se_len_op e)) (cmdr_size rg)\<rparr>"
  shows "advance_cmd_ring H rg = advance_cmd_ring H rg1" and "ring_inv H es rg1"
proof -
  let ?s = "unat (cmdr_size rg)" and ?t = "unat (cmd_tail rg)"
  have s: "?s \<le> 2 ^ 31" and t: "?t < ?s" and m: "cmdr_mem rg ?t = e" and l: "0 < elen H e" "?t + elen H e \<le> ?s"
    and b: "elen H e + ring_bytes H es + unat (CMDR_RESERVED H) \<le> ?s" and r: "0 < unat (CMDR_RESERVED H)"
    and c: "chain H (cmdr_mem rg) ?s ((?t + elen H e) mod ?s) es (unat (cmd_head rg))"
    using inv ubbd_h_sizes [OF H] by (auto simp: ring_inv_def)
  have "chain H (cmdr_mem rg) ?s ?t (e # es) (unat (cmd_head rg))"
    using inv unfolding ring_inv_def by blast
  from chain_end [OF this t]
  have "unat (cmd_head rg) = (?t + (elen H e + ring_bytes H es)) mod ?s" by simp
  then have "cmd_tail rg \<noteq> cmd_head rg"
    using mod_shift_neq [of 0 "elen H e + ring_bytes H es" ?s ?t] l b r t by auto
  then show "advance_cmd_ring H rg = advance_cmd_ring H rg1"
    using m d by (subst advance_cmd_ring.simps) (simp add: get_oldest_se_def rg1_def)
  have "unat (cmd_tail rg1) = (?t + elen H e) mod ?s"
    using unat_update_head(2) [OF t s, of "hdr_get_len H (se_len_op e)"] l s by (simp add: rg1_def elen_def)
  then show "ring_inv H es rg1"
    using inv c b t by (auto simp: ring_inv_def rg1_def)
qed

lemma advance_cmd_ring_ok:
  assumes H: "ubbd_h_ok H" and inv: "ring_inv H es rg"
  shows "\<exists>tl. advance_cmd_ring H rg = Some (rg\<lparr>cmd_tail := tl\<rparr>) \<and>
    ring_inv H (dropWhile (se_done H) es) (rg\<lparr>cmd_tail := tl\<rparr>)"
  using inv
proof (induction es arbitrary: rg)
  case Nil
  then have "cmd_tail rg = cmd_head rg"
    by (simp add: ring_inv_def word_unat_eq_iff)
  then have "advance_cmd_ring H rg = Some rg"
    by (subst advance_cmd_ring.simps) (simp add: get_oldest_se_def)
  with Nil show ?case
    by (intro exI [of _ "cmd_tail rg"]) simp
next
  case (Cons e es)
  show ?case
  proof (cases "se_done H e")
    case True
    from advance_step [OF H Cons.prems True] Cons.IH show ?thesis
      using True by fastforce
  next
    case False
    have "cmdr_mem rg (unat (cmd_tail rg)) = e"
      using Cons.prems by (simp add: ring_inv_def)
    then have "advance_cmd_ring H rg = Some rg"
      using False by (subst advance_cmd_ring.simps) (simp add: get_oldest_se_def)
    with Cons.prems False show ?thesis
      by (intro exI [of _ "cmd_tail rg"]) simp
  qed
qed

section \<open>Marking an entry done\<close>

text \<open>
  \<open>complete_inflight_req\<close> sets \<open>UBBD_SE_HDR_DONE\<close> in the entry a request points to; the
  pointer is the offset of the entry after the entries \<open>es\<close> that precede it.
\<close>

definition mark_se_done :: "ubbd_h \<Rightarrow> nat \<Rightarrow> 'a cmd_ring_scheme \<Rightarrow> 'a cmd_ring_scheme" where
  "mark_se_done H off rg =
     cmdr_store off ((cmdr_mem rg off)\<lparr>se_flags := flags_set_done H (se_flags (cmdr_mem rg off))\<rparr>) rg"

definition se_loc :: "ubbd_h \<Rightarrow> 'a cmd_ring_scheme \<Rightarrow> ubbd_se list \<Rightarrow> nat" where
  "se_loc H rg es = (unat (cmd_tail rg) + ring_bytes H es) mod unat (cmdr_size rg)"

definition set_done :: "ubbd_h \<Rightarrow> ubbd_se \<Rightarrow> ubbd_se" where
  "set_done H e = e\<lparr>se_flags := flags_set_done H (se_flags e)\<rparr>"

lemma chain_replace:
  assumes ch: "chain H m s t (es @ e # fs) h" and t: "t < s"
    and b: "ring_bytes H (es @ e # fs) < s" and l: "elen H e' = elen H e"
  shows "chain H (m((t + ring_bytes H es) mod s := e')) s t (es @ e' # fs) h"
    and "m ((t + ring_bytes H es) mod s) = e"
proof -
  let ?off = "(t + ring_bytes H es) mod s"
  obtain u where c1: "chain H m s t es u" and c2: "chain H m s u (e # fs) h"
    using ch by auto
  have u: "u = ?off" using chain_end [OF c1 t] .
  show "m ?off = e" using c2 u by simp
  have "chain H (m(?off := e')) s t es u"
  proof (rule chain_cong [OF c1 t])
    show "(m(?off := e')) ((t + k) mod s) = m ((t + k) mod s)" if "k < ring_bytes H es" for k
      using mod_shift_neq [of k "ring_bytes H es" s t] that b by simp
  qed
  moreover have "chain H (m(?off := e')) s ((u + elen H e) mod s) fs h"
  proof (rule chain_cong [where m = m])
    show "chain H m s ((u + elen H e) mod s) fs h" using c2 by simp
    show "(u + elen H e) mod s < s" using t by simp
    show "(m(?off := e')) (((u + elen H e) mod s + k) mod s) = m (((u + elen H e) mod s + k) mod s)"
      if "k < ring_bytes H fs" for k
    proof -
      have "((u + elen H e) mod s + k) mod s = (t + (ring_bytes H es + elen H e + k)) mod s"
        by (simp add: u mod_simps ac_simps)
      moreover have "0 < elen H e" using c2 by simp
      ultimately show ?thesis
        using mod_shift_neq [of "ring_bytes H es" "ring_bytes H es + elen H e + k" s t] that b by simp
    qed
  qed
  ultimately show "chain H (m(?off := e')) s t (es @ e' # fs) h"
    using c2 u l by auto
qed

lemma mark_se_done_ok:
  assumes H: "ubbd_h_ok H" and inv: "ring_inv H (es @ e # fs) rg"
  shows "ring_inv H (es @ set_done H e # fs) (mark_se_done H (se_loc H rg es) rg)"
proof -
  have b: "ring_bytes H (es @ e # fs) < unat (cmdr_size rg)"
    using inv ubbd_h_sizes [OF H] unfolding ring_inv_def by linarith
  have l: "elen H (set_done H e) = elen H e" by (simp add: elen_def set_done_def)
  have c: "chain H (cmdr_mem rg) (unat (cmdr_size rg)) (unat (cmd_tail rg)) (es @ e # fs) (unat (cmd_head rg))"
    and t: "unat (cmd_tail rg) < unat (cmdr_size rg)"
    using inv unfolding ring_inv_def by blast+
  show ?thesis
    using inv chain_replace [OF c t b l] l
    by (auto simp: ring_inv_def mark_se_done_def cmdr_store_def se_loc_def set_done_def
        simp del: chain_append chain.simps)
qed

section \<open>The contract of the command ring\<close>

text \<open>The ring section of \<open>ubbd_queue_workfn\<close>: padding, then the entry itself.\<close>

definition ring_put ::
  "ubbd_h \<Rightarrow> ubbd_se \<Rightarrow> u32 \<Rightarrow> 'a cmd_ring_scheme \<Rightarrow> 'a cmd_ring_scheme option" where
  "ring_put H e n rg = do { rg1 \<leftarrow> insert_padding H n rg; publish e n rg1 }"

definition ring_rep :: "ubbd_h \<Rightarrow> ubbd_se list \<Rightarrow> 'a cmd_ring_scheme \<Rightarrow> bool" where
  "ring_rep H es rg \<longleftrightarrow> ubbd_h_ok H \<and> ring_inv H es rg"

definition se_fits :: "ubbd_h \<Rightarrow> ubbd_se \<Rightarrow> u32 \<Rightarrow> bool" where
  "se_fits H e n \<longleftrightarrow> hdr_get_len H (se_len_op e) = n \<and> 0 < unat n \<and>
     op_align H dvd unat n \<and> unat n < 2 ^ 31"

text \<open>
  The locations of the entries not yet finished, and a sequence of completions: each
  marks the entry at one location and then retires what is finished.
\<close>

definition unfinished_locs ::
  "('r \<Rightarrow> 'e list \<Rightarrow> nat) \<Rightarrow> ('e \<Rightarrow> bool) \<Rightarrow> 'r \<Rightarrow> 'e list \<Rightarrow> nat set" where
  "unfinished_locs loc fin r es = {loc r (take i es) | i. i < length es \<and> \<not> fin (es ! i)}"

lemma unfinished_locs_code:
  "unfinished_locs loc fin r es =
     set (map (\<lambda>i. loc r (take i es)) (filter (\<lambda>i. \<not> fin (es ! i)) [0..<length es]))"
  by (auto simp: unfinished_locs_def)

fun finish_all :: "(nat \<Rightarrow> 'r \<Rightarrow> 'r) \<Rightarrow> ('r \<Rightarrow> 'r option) \<Rightarrow> nat list \<Rightarrow> 'r \<Rightarrow> 'r option" where
  "finish_all mark retire [] r = Some r"
| "finish_all mark retire (off # offs) r = do {
     r1 \<leftarrow> retire (mark off r);
     finish_all mark retire offs r1
   }"

text \<open>
  What the request path relies on: a ring represents a list of entries; an entry for
  which there is room is appended, after padding at most; marking the entry behind the
  prefix \<open>es\<close> changes that entry only; retiring drops the finished prefix and leaves
  every other entry where it is.
\<close>

locale submit_ring =
  fixes rep :: "'e list \<Rightarrow> 'r \<Rightarrow> bool"
    and room :: "'r \<Rightarrow> 'n \<Rightarrow> bool"
    and fits :: "'e \<Rightarrow> 'n \<Rightarrow> bool"
    and put :: "'e \<Rightarrow> 'n \<Rightarrow> 'r \<Rightarrow> 'r option"
    and loc :: "'r \<Rightarrow> 'e list \<Rightarrow> nat"
    and mark :: "nat \<Rightarrow> 'r \<Rightarrow> 'r"
    and retire :: "'r \<Rightarrow> 'r option"
    and pad :: "'e \<Rightarrow> bool" and fin :: "'e \<Rightarrow> bool" and finish :: "'e \<Rightarrow> 'e"
  assumes put_law: "rep es r \<Longrightarrow> room r n \<Longrightarrow> fits e n \<Longrightarrow>
      \<exists>r' pads. put e n r = Some r' \<and> rep (es @ pads @ [e]) r' \<and> list_all pad pads \<and>
        (\<forall>fs. loc r' fs = loc r fs)"
    and mark_law: "rep (es @ e # fs) r \<Longrightarrow> rep (es @ finish e # fs) (mark (loc r es) r) \<and> fin (finish e)"
    and mark_loc: "loc (mark off r) es = loc r es"
    and loc_finish: "loc r (es @ finish e # fs) = loc r (es @ e # fs)"
    and loc_inj: "rep es r \<Longrightarrow> i < j \<Longrightarrow> j < length es \<Longrightarrow> loc r (take i es) \<noteq> loc r (take j es)"
    and retire_law: "rep es r \<Longrightarrow> \<exists>r'. retire r = Some r' \<and> rep (dropWhile fin es) r' \<and>
        (\<forall>gs. loc r' gs = loc r (takeWhile fin es @ gs))"
begin

lemma loc_inj_iff:
  "rep es r \<Longrightarrow> i < length es \<Longrightarrow> j < length es \<Longrightarrow> loc r (take i es) = loc r (take j es) \<longleftrightarrow> i = j"
  using loc_inj by (metis nat_neq_iff)

text \<open>Finishing the oldest entry and retiring removes it, and finished entries behind it.\<close>

lemma finish_oldest:
  assumes "rep (e # es) r"
  shows "\<exists>r'. retire (mark (loc r []) r) = Some r' \<and> rep (dropWhile fin es) r'"
proof -
  have m: "rep (finish e # es) (mark (loc r []) r)" "fin (finish e)"
    using mark_law [of "[]" e es r] assms by simp_all
  from retire_law [OF m(1)] m(2) show ?thesis by auto
qed

text \<open>Finishing an entry behind an unfinished one frees nothing yet: order is kept.\<close>

lemma finish_out_of_order:
  assumes r: "rep (d # es @ e # fs) r" and d: "\<not> fin d"
  shows "\<exists>r'. retire (mark (loc r (d # es)) r) = Some r' \<and> rep (d # es @ finish e # fs) r'"
proof -
  have "rep (d # es @ finish e # fs) (mark (loc r (d # es)) r)"
    using mark_law [of "d # es" e fs r] r by simp
  from retire_law [OF this] d show ?thesis by auto
qed

text \<open>One completion: the entry at \<open>off\<close> is no longer outstanding, the others are, in place.\<close>

lemma finish_one:
  assumes r: "rep es r" and off: "off \<in> unfinished_locs loc fin r es"
  shows "\<exists>r' es'. retire (mark off r) = Some r' \<and> rep es' r' \<and> (es' = [] \<or> \<not> fin (hd es')) \<and>
    unfinished_locs loc fin r' es' = unfinished_locs loc fin r es - {off}"
proof -
  obtain i where i: "i < length es" "\<not> fin (es ! i)" and o1: "off = loc r (take i es)"
    using off by (auto simp: unfinished_locs_def)
  define es1 where "es1 = es[i := finish (es ! i)]"
  have split: "es = take i es @ es ! i # drop (Suc i) es"
    using i by (simp add: id_take_nth_drop)
  have es1: "es1 = take i es @ finish (es ! i) # drop (Suc i) es"
    using i by (simp add: es1_def upd_conv_take_nth_drop)
  have m: "rep es1 (mark off r)" "fin (finish (es ! i))"
    using mark_law [of "take i es" "es ! i" "drop (Suc i) es" r] split r o1 es1 by simp_all
  have loc1: "loc r (take j es1) = loc r (take j es)" for j
  proof (cases "j \<le> i")
    case False
    then obtain k where k: "j = Suc (i + k)" by (metis less_imp_Suc_add not_le)
    have "take j es1 = take i es @ finish (es ! i) # take k (drop (Suc i) es)"
      using i by (simp add: es1 k)
    moreover have "take j es = take i es @ es ! i # take k (drop (Suc i) es)"
      using i by (subst split) (simp add: k)
    ultimately show ?thesis by (simp add: loc_finish)
  qed (simp add: es1_def)
  obtain r' where r': "retire (mark off r) = Some r'" "rep (dropWhile fin es1) r'"
    "\<And>gs. loc r' gs = loc r (takeWhile fin es1 @ gs)"
    using retire_law [OF m(1)] by (auto simp: mark_loc)
  let ?k = "length (takeWhile fin es1)" and ?es' = "dropWhile fin es1"
  have tk: "takeWhile fin es1 @ take j ?es' = take (?k + j) es1" for j
    by (metis takeWhile_dropWhile_id take_add takeWhile_eq_take dropWhile_eq_drop)
  have nt: "?es' ! j = es1 ! (?k + j)" and ln: "length ?es' = length es1 - ?k" for j
    by (simp_all add: dropWhile_eq_drop length_takeWhile_le)
  have pre: "fin (es1 ! j)" if "j < ?k" for j
    using that by (metis nth_mem set_takeWhileD takeWhile_nth)
  have "unfinished_locs loc fin r' ?es' = {loc r (take j es1) | j. j < length es1 \<and> \<not> fin (es1 ! j)}"
  proof (intro equalityI subsetI)
    fix x assume "x \<in> unfinished_locs loc fin r' ?es'"
    then show "x \<in> {loc r (take j es1) | j. j < length es1 \<and> \<not> fin (es1 ! j)}"
      by (auto simp: unfinished_locs_def r'(3) tk nt ln)
  next
    fix x assume "x \<in> {loc r (take j es1) | j. j < length es1 \<and> \<not> fin (es1 ! j)}"
    then obtain j where j: "x = loc r (take j es1)" "j < length es1" "\<not> fin (es1 ! j)" by auto
    then have "?k \<le> j" using pre by (meson not_le)
    then show "x \<in> unfinished_locs loc fin r' ?es'"
      using j by (auto simp: unfinished_locs_def r'(3) tk nt ln intro!: exI [of _ "j - ?k"])
  qed
  also have "\<dots> = {loc r (take j es) | j. j < length es \<and> j \<noteq> i \<and> \<not> fin (es ! j)}"
  proof -
    have "length es1 = length es" by (simp add: es1_def)
    moreover have "(j < length es \<and> \<not> fin (es1 ! j)) = (j < length es \<and> j \<noteq> i \<and> \<not> fin (es ! j))" for j
      using i m(2) by (auto simp: es1_def nth_list_update)
    ultimately show ?thesis by (simp add: loc1)
  qed
  also have "\<dots> = unfinished_locs loc fin r es - {off}"
    using i loc_inj_iff [OF r] by (auto simp: unfinished_locs_def o1)
  finally show ?thesis
    using r' hd_dropWhile by blast
qed

text \<open>Whatever the order in which the entries are finished, the ring ends up empty.\<close>

lemma finish_all_empties:
  assumes "rep es r" and "es = [] \<or> \<not> fin (hd es)"
    and "distinct offs" and "set offs = unfinished_locs loc fin r es"
  shows "\<exists>r'. finish_all mark retire offs r = Some r' \<and> rep [] r'"
  using assms
proof (induction offs arbitrary: es r)
  case Nil
  have "es = []"
  proof (rule ccontr)
    assume "es \<noteq> []"
    then have "loc r (take 0 es) \<in> unfinished_locs loc fin r es"
      using Nil.prems(2) unfolding unfinished_locs_def
      by (intro CollectI exI [of _ 0]) (auto simp: hd_conv_nth)
    then show False using Nil.prems(4) by simp
  qed
  then show ?case using Nil.prems(1) by simp
next
  case (Cons off offs)
  have "off \<in> unfinished_locs loc fin r es" using Cons.prems(4) by auto
  then obtain r' es' where st: "retire (mark off r) = Some r'" "rep es' r'" "es' = [] \<or> \<not> fin (hd es')"
    "unfinished_locs loc fin r' es' = unfinished_locs loc fin r es - {off}"
    using finish_one [OF Cons.prems(1)] by blast
  have "set offs = unfinished_locs loc fin r' es'" and "distinct offs"
    using Cons.prems(3,4) st(4) by auto
  then show ?case
    using Cons.IH [OF st(2,3)] st(1) by simp
qed

end

lemma publish_loc:
  "publish e n rg = Some rg' \<Longrightarrow> se_loc H rg' fs = se_loc H rg fs"
  by (auto simp: publish_def cmdr_memset_def cmdr_store_def se_loc_def Let_def split: if_splits)

lemma insert_padding_loc:
  "insert_padding H n rg = Some rg' \<Longrightarrow> se_loc H rg' fs = se_loc H rg fs"
  by (auto simp: insert_padding_def cmdr_memset_def cmdr_store_def se_loc_def Let_def split: if_splits)

text \<open>Both steps write the head and the memory of the ring only.\<close>

lemma insert_padding_form:
  "insert_padding H n rg = Some rg1 \<Longrightarrow> rg1 = rg\<lparr>cmd_head := cmd_head rg1, cmdr_mem := cmdr_mem rg1\<rparr>"
  by (auto simp: insert_padding_def cmdr_memset_def cmdr_store_def Let_def split: if_splits)

lemma publish_form:
  "publish e n rg = Some rg1 \<Longrightarrow> rg1 = rg\<lparr>cmd_head := cmd_head rg1, cmdr_mem := cmdr_mem rg1\<rparr>"
  by (auto simp: publish_def cmdr_memset_def cmdr_store_def Let_def split: if_splits)

lemma ring_put_ok:
  assumes rep: "ring_rep H es rg" and room: "submit_ring_space_enough H rg n" and e: "se_fits H e n"
  shows "\<exists>rg' pads. ring_put H e n rg = Some rg' \<and> ring_rep H (es @ pads @ [e]) rg' \<and>
     list_all (is_pad H) pads \<and> (\<forall>fs. se_loc H rg' fs = se_loc H rg fs)"
proof -
  have H: "ubbd_h_ok H" and inv: "ring_inv H es rg" using rep by (auto simp: ring_rep_def)
  obtain rg1 pads where p: "insert_padding H n rg = Some rg1" "ring_inv H (es @ pads) rg1"
      "list_all (is_pad H) pads" "unat (cmd_head rg1) + unat n \<le> unat (cmdr_size rg1)"
      "ring_bytes H (es @ pads) + unat n + unat (CMDR_RESERVED H) \<le> unat (cmdr_size rg1)"
    using insert_padding_ok [OF H inv room] e by (auto simp: se_fits_def)
  obtain rg2 where q: "publish e n rg1 = Some rg2" "ring_inv H ((es @ pads) @ [e]) rg2"
    using publish_ok [OF H p(2,4,5)] e by (auto simp: se_fits_def)
  show ?thesis
    using p q H publish_loc [OF q(1)] insert_padding_loc [OF p(1)]
    by (auto simp: ring_put_def ring_rep_def)
qed

text \<open>Where the entry lands: behind the old entries and the padding.\<close>

lemma ring_put_loc:
  assumes rep: "ring_rep H es rg" and room: "submit_ring_space_enough H rg n" and e: "se_fits H e n"
  shows "\<exists>rg1 rg' pads. insert_padding H n rg = Some rg1 \<and> publish e n rg1 = Some rg' \<and>
     ring_rep H (es @ pads @ [e]) rg' \<and> list_all (is_pad H) pads \<and> (\<forall>fs. se_loc H rg' fs = se_loc H rg fs) \<and>
     get_submit_entry rg1 = se_loc H rg (es @ pads) \<and>
     unat (cmd_head rg1) + unat n \<le> unat (cmdr_size rg1) \<and> cmdr_size rg1 = cmdr_size rg"
proof -
  have H: "ubbd_h_ok H" and inv: "ring_inv H es rg" using rep by (auto simp: ring_rep_def)
  obtain rg1 pads where p: "insert_padding H n rg = Some rg1" "ring_inv H (es @ pads) rg1"
      "list_all (is_pad H) pads" "unat (cmd_head rg1) + unat n \<le> unat (cmdr_size rg1)"
      "ring_bytes H (es @ pads) + unat n + unat (CMDR_RESERVED H) \<le> unat (cmdr_size rg1)"
    using insert_padding_ok [OF H inv room] e by (auto simp: se_fits_def)
  obtain rg2 where q: "publish e n rg1 = Some rg2" "ring_inv H ((es @ pads) @ [e]) rg2"
    using publish_ok [OF H p(2,4,5)] e by (auto simp: se_fits_def)
  have "chain H (cmdr_mem rg1) (unat (cmdr_size rg1)) (unat (cmd_tail rg1)) (es @ pads) (unat (cmd_head rg1))"
    "unat (cmd_tail rg1) < unat (cmdr_size rg1)"
    using p(2) unfolding ring_inv_def by blast+
  then have "get_submit_entry rg1 = se_loc H rg1 (es @ pads)"
    using chain_end unfolding get_submit_entry_def se_loc_def by blast
  moreover have "cmdr_size rg1 = cmdr_size rg" using inv p(2) unfolding ring_inv_def by simp
  ultimately show ?thesis
    using p q H publish_loc [OF q(1)] insert_padding_loc [OF p(1)] by (auto simp: ring_rep_def)
qed

lemma advance_cmd_ring_loc:
  assumes rep: "ring_rep H es rg"
  shows "\<exists>rg'. advance_cmd_ring H rg = Some rg' \<and> ring_rep H (dropWhile (se_done H) es) rg' \<and>
     (\<forall>gs. se_loc H rg' gs = se_loc H rg (takeWhile (se_done H) es @ gs))"
  using rep
proof (induction es arbitrary: rg)
  case Nil
  then show ?case
    using advance_cmd_ring_ok [of H "[]" rg] 
    by (subst advance_cmd_ring.simps)
      (auto simp: get_oldest_se_def ring_rep_def ring_inv_def word_unat_eq_iff)
next
  case (Cons e es)
  have H: "ubbd_h_ok H" and inv: "ring_inv H (e # es) rg" using Cons.prems by (auto simp: ring_rep_def)
  show ?case
  proof (cases "se_done H e")
    case False
    have "cmdr_mem rg (unat (cmd_tail rg)) = e" using inv by (simp add: ring_inv_def)
    then have "advance_cmd_ring H rg = Some rg"
      using False by (subst advance_cmd_ring.simps) (simp add: get_oldest_se_def)
    with Cons.prems False show ?thesis by simp
  next
    case True
    define rg1 where "rg1 = rg\<lparr>cmd_tail :=
      UPDATE_CMDR_TAIL (cmd_tail rg) (hdr_get_len H (se_len_op e)) (cmdr_size rg)\<rparr>"
    note st = advance_step [OF H inv True, folded rg1_def]
    have t: "unat (cmd_tail rg) < unat (cmdr_size rg)" "unat (cmdr_size rg) \<le> 2 ^ 31"
      "unat (hdr_get_len H (se_len_op e)) \<le> 2 ^ 31"
      using inv ubbd_h_sizes [OF H] by (auto simp: ring_inv_def elen_def)
    have "se_loc H rg1 gs = se_loc H rg (e # gs)" for gs
      using unat_update_head(2) [OF t] by (simp add: rg1_def se_loc_def elen_def mod_simps add.assoc)
    with Cons.IH [of rg1] st True H show ?thesis by (auto simp: ring_rep_def)
  qed
qed

text \<open>Retiring moves the tail and nothing else.\<close>

lemma advance_form:
  assumes "advance_cmd_ring H rg = Some rg'"
  shows "rg' = rg\<lparr>cmd_tail := cmd_tail rg'\<rparr>"
proof (rule advance_cmd_ring.raw_induct [where P = "\<lambda>H r r'. r' = r\<lparr>cmd_tail := cmd_tail r'\<rparr>", OF _ assms])
  fix f H r y
  assume IH: "\<And>H r y. f H r = Some y \<Longrightarrow> y = r\<lparr>cmd_tail := cmd_tail y\<rparr>"
    and eq: "(case get_oldest_se r of None \<Rightarrow> Some r
       | Some off \<Rightarrow> let se = cmdr_mem r off in
           if flags_test_done H (se_flags se)
           then f H (r\<lparr>cmd_tail := UPDATE_CMDR_TAIL (cmd_tail r) (hdr_get_len H (se_len_op se)) (cmdr_size r)\<rparr>)
           else Some r) = Some y"
  show "y = r\<lparr>cmd_tail := cmd_tail y\<rparr>"
    using eq by (auto simp: Let_def split: option.splits if_splits dest: IH)
qed

lemma se_loc_inj:
  assumes rep: "ring_rep H es rg" and ij: "i < j" "j < length es"
  shows "se_loc H rg (take i es) \<noteq> se_loc H rg (take j es)"
proof -
  have H: "ubbd_h_ok H" and inv: "ring_inv H es rg" using rep by (auto simp: ring_rep_def)
  have c: "chain H (cmdr_mem rg) (unat (cmdr_size rg)) (unat (cmd_tail rg)) es (unat (cmd_head rg))"
    and b: "ring_bytes H es < unat (cmdr_size rg)"
    using inv ubbd_h_sizes [OF H] unfolding ring_inv_def by (blast, linarith)
  have "0 < elen H (es ! i)"
    using c ij id_take_nth_drop [of i es] by (metis chain.simps(2) chain_append less_trans)
  moreover have "take (Suc i) es = take i es @ [es ! i]"
    using ij by (simp add: take_Suc_conv_app_nth)
  moreover have "take j es = take (Suc i) es @ take (j - Suc i) (drop (Suc i) es)"
    using ij by (metis Suc_leI take_add le_add_diff_inverse)
  ultimately have lt: "ring_bytes H (take i es) < ring_bytes H (take j es)" by simp
  have "ring_bytes H es = ring_bytes H (take j es) + ring_bytes H (drop j es)"
    by (metis append_take_drop_id ring_bytes_simps(3))
  then show ?thesis
    using mod_shift_neq [OF lt] b by (simp add: se_loc_def)
qed

interpretation cr: submit_ring "ring_rep H" "submit_ring_space_enough H" "se_fits H" "ring_put H"
  "se_loc H" "mark_se_done H" "advance_cmd_ring H" "is_pad H" "se_done H" "set_done H" for H
proof (unfold_locales, goal_cases)
  case (1 es r n e)
  then show ?case by (rule ring_put_ok)
next
  case (2 es e fs r)
  then show ?case using mark_se_done_ok [of H es e fs r] by (auto simp: ring_rep_def set_done_def)
next
  case (3 off r es)
  then show ?case by (simp add: mark_se_done_def cmdr_store_def se_loc_def)
next
  case (4 r es e fs)
  then show ?case by (simp add: se_loc_def elen_def set_done_def)
next
  case (5 es r i j)
  then show ?case by (rule se_loc_inj)
next
  case (6 es r)
  then show ?case by (rule advance_cmd_ring_loc)
qed

section \<open>Entries and their locations\<close>

lemma ring_entry_at:
  assumes rep: "ring_rep H es rg" and i: "i < length es"
  shows "cmdr_mem rg (se_loc H rg (take i es)) = es ! i"
proof -
  have H: "ubbd_h_ok H" and inv: "ring_inv H es rg" using rep by (auto simp: ring_rep_def)
  have c: "chain H (cmdr_mem rg) (unat (cmdr_size rg)) (unat (cmd_tail rg)) es (unat (cmd_head rg))"
    and t: "unat (cmd_tail rg) < unat (cmdr_size rg)"
    and b: "ring_bytes H es < unat (cmdr_size rg)"
    using inv ubbd_h_sizes [OF H] unfolding ring_inv_def by (blast, blast, linarith)
  have split: "es = take i es @ es ! i # drop (Suc i) es" using i by (rule id_take_nth_drop)
  show ?thesis
    using chain_replace(2) [of H _ _ _ "take i es" "es ! i" "drop (Suc i) es"] c t b split
    unfolding se_loc_def by metis
qed

lemma unfinished_locs_append:
  "unfinished_locs loc fin r (es @ fs) =
     unfinished_locs loc fin r es \<union> {loc r (es @ take i fs) | i. i < length fs \<and> \<not> fin (fs ! i)}"
  (is "?l = ?a \<union> ?b")
proof
  show "?l \<subseteq> ?a \<union> ?b"
  proof
    fix off assume "off \<in> ?l"
    then obtain i where i: "i < length (es @ fs)" "\<not> fin ((es @ fs) ! i)" "off = loc r (take i (es @ fs))"
      by (auto simp: unfinished_locs_def)
    show "off \<in> ?a \<union> ?b"
    proof (cases "i < length es")
      case True
      then show ?thesis using i by (auto simp: unfinished_locs_def nth_append)
    next
      case False
      then have "off = loc r (es @ take (i - length es) fs)" "i - length es < length fs"
          "\<not> fin (fs ! (i - length es))"
        using i by (auto simp: nth_append)
      then show ?thesis by blast
    qed
  qed
  show "?a \<union> ?b \<subseteq> ?l"
  proof
    fix off assume "off \<in> ?a \<union> ?b"
    then consider i where "i < length es" "\<not> fin (es ! i)" "off = loc r (take i es)"
      | i where "i < length fs" "\<not> fin (fs ! i)" "off = loc r (es @ take i fs)"
      by (auto simp: unfinished_locs_def)
    then show "off \<in> ?l"
    proof cases
      case 1
      then show ?thesis unfolding unfinished_locs_def by (intro CollectI exI [of _ i]) (simp add: nth_append)
    next
      case 2
      then show ?thesis unfolding unfinished_locs_def
        by (intro CollectI exI [of _ "length es + i"]) simp
    qed
  qed
qed

lemma unfinished_locs_cong:
  "(\<And>gs. loc r' gs = loc r gs) \<Longrightarrow> unfinished_locs loc fin r' es = unfinished_locs loc fin r es"
  by (simp add: unfinished_locs_def)

lemma ring_rep_cong:
  assumes "cmdr_size b = cmdr_size a" "cmd_head b = cmd_head a" "cmd_tail b = cmd_tail a" "cmdr_mem b = cmdr_mem a"
  shows "ring_rep H es b = ring_rep H es a" "se_loc H b gs = se_loc H a gs"
    "unfinished_locs (se_loc H) fin b es = unfinished_locs (se_loc H) fin a es"
  using assms by (simp_all add: ring_rep_def ring_inv_def se_loc_def unfinished_locs_def)

section \<open>Properties of the command ring\<close>

text \<open>A concrete ring for the witnesses: 256 bytes, two unfinished 56-byte entries.\<close>

definition se56 :: "u64 \<Rightarrow> ubbd_se" where
  "se56 tid = zero_se\<lparr>se_len_op := 56 OR 2, se_priv_data := tid\<rparr>"

definition ring0 :: cmd_ring where
  "ring0 = \<lparr>cmdr_size = 256, cmd_head = 112, cmd_tail = 0,
     cmdr_mem = (\<lambda>_. zero_se)(0 := se56 1, 56 := se56 2)\<rparr>"

lemma ring0_rep: "ring_rep H0 [se56 1, se56 2] ring0"
  by (simp add: ring_rep_def ring_inv_def ring0_def elen_def se56_def zero_se_def)



text \<open>C21: The space check of the command ring, computed in wrapping 32-bit arithmetic, is
  exact: it accepts a command iff the bytes in use, the reserved bytes and the command
  (with the bytes up to the end of the ring when it does not fit strictly before it) are
  at most the ring size.\<close>

theorem space_check_exact:
  assumes "ring_rep H es rg" and "unat n < 2 ^ 31"
  shows "submit_ring_space_enough H rg n \<longleftrightarrow>
    ring_bytes H es + unat (CMDR_RESERVED H) +
      (if unat n < unat (cmdr_size rg) - unat (cmd_head rg) then unat n
       else unat n + (unat (cmdr_size rg) - unat (cmd_head rg))) \<le> unat (cmdr_size rg)"
  using assms space_enough_iff [of H es rg n] by (simp add: ring_rep_def)

theorem space_check_exact_witness:
  "submit_ring_space_enough H0 ring0 56 \<longleftrightarrow>
    ring_bytes H0 [se56 1, se56 2] + unat (CMDR_RESERVED H0) +
      (if unat (56 :: u32) < unat (cmdr_size ring0) - unat (cmd_head ring0) then unat (56 :: u32)
       else unat (56 :: u32) + (unat (cmdr_size ring0) - unat (cmd_head ring0))) \<le> unat (cmdr_size ring0)"
  by (rule space_check_exact [OF ring0_rep]) simp

text \<open>C14: \<open>advance_cmd_ring\<close> returns on every well-formed ring, retires exactly the finished
  entries at the front, in order, and moves nothing but the tail.\<close>

theorem advance_retires_done_prefix:
  assumes "ring_rep H es rg"
  shows "\<exists>tl. advance_cmd_ring H rg = Some (rg\<lparr>cmd_tail := tl\<rparr>) \<and>
    ring_rep H (dropWhile (se_done H) es) (rg\<lparr>cmd_tail := tl\<rparr>)"
  using assms advance_cmd_ring_ok [of H es rg] by (auto simp: ring_rep_def)

theorem advance_retires_done_prefix_witness:
  "\<exists>tl. advance_cmd_ring H0 ring0 = Some (ring0\<lparr>cmd_tail := tl\<rparr>) \<and>
    ring_rep H0 (dropWhile (se_done H0) [se56 1, se56 2]) (ring0\<lparr>cmd_tail := tl\<rparr>)"
  by (rule advance_retires_done_prefix [OF ring0_rep])



text \<open>\<open>advance_cmd_ring\<close> trusts the lengths in memory the backend can write: an entry at
  the tail that is marked done and carries length 0 makes the loop run forever (while
  \<open>cmdr_lock\<close> is held).\<close>

theorem advance_hangs_on_zero_length:
  assumes "get_oldest_se rg = Some off" and "se_done H (cmdr_mem rg off)"
    and "hdr_get_len H (se_len_op (cmdr_mem rg off)) = 0" and "cmd_tail rg < cmdr_size rg"
  shows "advance_cmd_ring H rg = None"
proof (rule ccontr)
  assume "advance_cmd_ring H rg \<noteq> None"
  then obtain rg' where ret: "advance_cmd_ring H rg = Some rg'" by blast
  have same: "UPDATE_CMDR_TAIL (cmd_tail rg) 0 (cmdr_size rg) = cmd_tail rg"
    using assms(4) by (simp add: UPDATE_CMDR_TAIL_def word_unat_eq_iff unat_mod word_order_nat)
  have "\<not> (H = H \<and> rg = rg)"
  proof (rule advance_cmd_ring.raw_induct [where P = "\<lambda>H1 r r'. \<not> (H1 = H \<and> r = rg)", OF _ ret])
    fix f H1 r y
    assume IH: "\<And>H1 r y. f H1 r = Some y \<Longrightarrow> \<not> (H1 = H \<and> r = rg)"
      and eq: "(case get_oldest_se r of None \<Rightarrow> Some r
       | Some off \<Rightarrow> let se = cmdr_mem r off in
           if se_done H1 se then f H1 (r\<lparr>cmd_tail := UPDATE_CMDR_TAIL (cmd_tail r)
             (hdr_get_len H1 (se_len_op se)) (cmdr_size r)\<rparr>) else Some r) = Some y"
    show "\<not> (H1 = H \<and> r = rg)"
    proof
      assume "H1 = H \<and> r = rg"
      with eq assms same have "f H rg = Some y" by (simp add: Let_def)
      with IH show False by blast
    qed
  qed
  then show False by simp
qed

text \<open>The ring of the hang: one zero-length entry whose done flag is set.\<close>

definition ring_stuck :: cmd_ring where
  "ring_stuck = \<lparr>cmdr_size = 256, cmd_head = 56, cmd_tail = 0,
     cmdr_mem = (\<lambda>_. zero_se)(0 := zero_se\<lparr>se_flags := 1\<rparr>)\<rparr>"

theorem advance_hangs_on_zero_length_witness: "advance_cmd_ring H0 ring_stuck = None"
  by (rule advance_hangs_on_zero_length [where off = 0])
    (simp_all add: ring_stuck_def get_oldest_se_def zero_se_def)

end
