(* ===== verification/Data_Pages.thy ===== *)
theory Data_Pages
  imports Cmd_Ring
begin

text \<open>
  The data pages of a queue (\<open>src/ubbd_req.c\<close>): the pool of pages through which request
  data travels between the block layer and the backend. A slot is an index into the
  shared data area; \<open>data_bitmap\<close> says which slots are in use, \<open>data_pages_array\<close> which page
  backs a slot, and slots beyond \<open>data_pages_reserved\<close> lose their page when released.

  Kernel memory is a store of live pages with fresh identities; whether an allocation
  succeeds is decided by an oracle, so a theorem for every oracle covers every pattern of
  allocation failures. The page tables of the backend's mapping are part of the state,
  since releasing a page has to remove its translation.
\<close>

section \<open>Kernel memory\<close>

type_synonym page_id = nat
type_synonym page = "nat \<Rightarrow> u8"

record kmem =
  km_pages :: "page_id \<rightharpoonup> page"     \<comment> \<open>pages the kernel holds, with their contents\<close>
  km_next :: page_id                \<comment> \<open>identities from here on are fresh\<close>
  km_oracle :: "bool list"          \<comment> \<open>outcomes of the allocations to come, then success\<close>
  km_junk :: page                   \<comment> \<open>what a page holds before it is written\<close>

definition take_oracle :: "kmem \<Rightarrow> bool \<times> kmem" where
  "take_oracle km = (case km_oracle km of [] \<Rightarrow> (True, km) | b # bs \<Rightarrow> (b, km\<lparr>km_oracle := bs\<rparr>))"

definition alloc_page :: "kmem \<Rightarrow> page_id option \<times> kmem" where
  "alloc_page km =
     (let (ok, km1) = take_oracle km in
      if ok then (Some (km_next km1),
                  km1\<lparr>km_pages := (km_pages km1)(km_next km1 \<mapsto> km_junk km1),
                      km_next := Suc (km_next km1)\<rparr>)
      else (None, km1))"

text \<open>\<open>__free_page\<close>: freeing a page that is not held is a double free.\<close>

definition free_page :: "page_id \<Rightarrow> kmem \<Rightarrow> kmem option" where
  "free_page p km =
     (if p \<in> dom (km_pages km) then Some (km\<lparr>km_pages := (km_pages km)(p := None)\<rparr>) else None)"

section \<open>Requests\<close>

datatype req_op = REQ_OP_READ | REQ_OP_WRITE | REQ_OP_FLUSH | REQ_OP_DISCARD
  | REQ_OP_WRITE_ZEROES | REQ_OP_OTHER

text \<open>A segment of a bio, and a request: its operation and its chain of bios
  (\<open>bio->bi_next\<close>), each the list of its segments.\<close>

record bio_vec =
  bv_page :: page_id
  bv_offset :: nat
  bv_len :: nat

record request =
  rq_op :: req_op
  rq_bio :: "bio_vec list list"
  rq_pos :: u64
  rq_bytes :: u32
  rq_timeout :: u32

text \<open>\<open>struct ubbd_request\<close>; \<open>ur_pi\<close> is \<open>None\<close> when the pointer is \<open>NULL\<close>.\<close>

record ubbd_request =
  ur_req :: request
  ur_op :: ubbd_op
  ur_tid :: u64
  ur_pi_cnt :: u32
  ur_inline_pi :: "u32 list"
  ur_pi :: "u32 list option"
  ur_se :: "nat option"

abbreviation UBBD_REQ_INLINE_PI_MAX :: nat where "UBBD_REQ_INLINE_PI_MAX \<equiv> 4"

definition ubbd_req_get_pi :: "ubbd_request \<Rightarrow> nat \<Rightarrow> u32 option" where
  "ubbd_req_get_pi r i =
     (if i < UBBD_REQ_INLINE_PI_MAX
      then (if i < length (ur_inline_pi r) then Some (ur_inline_pi r ! i) else None)
      else (case ur_pi r of
              None \<Rightarrow> None
            | Some ps \<Rightarrow> if i - UBBD_REQ_INLINE_PI_MAX < length ps
                         then Some (ps ! (i - UBBD_REQ_INLINE_PI_MAX)) else None))"

definition ubbd_req_set_pi :: "ubbd_request \<Rightarrow> nat \<Rightarrow> u32 \<Rightarrow> ubbd_request option" where
  "ubbd_req_set_pi r i v =
     (if i < UBBD_REQ_INLINE_PI_MAX
      then (if i < length (ur_inline_pi r)
            then Some (r\<lparr>ur_inline_pi := (ur_inline_pi r)[i := v]\<rparr>) else None)
      else (case ur_pi r of
              None \<Rightarrow> None
            | Some ps \<Rightarrow> if i - UBBD_REQ_INLINE_PI_MAX < length ps
                         then Some (r\<lparr>ur_pi := Some (ps[i - UBBD_REQ_INLINE_PI_MAX := v])\<rparr>) else None))"

section \<open>The page pool of a queue\<close>

record data_pool = cmd_ring +
  data_pages :: u32
  data_pages_allocated :: u32
  data_pages_reserved :: u32
  data_bitmap :: "bool list"
  data_pages_array :: "nat \<rightharpoonup> page_id"
  data_off :: u64
  inode_set :: bool                     \<comment> \<open>\<open>ubbd_q->inode\<close> is not \<open>NULL\<close>\<close>
  user_ptes :: "nat \<rightharpoonup> page_id"         \<comment> \<open>page offset of the backend's mapping to page\<close>

definition find_first_zero_bit :: "bool list \<Rightarrow> nat" where
  "find_first_zero_bit bm = length (takeWhile (\<lambda>b. b) bm)"

definition set_bit_q :: "nat \<Rightarrow> 'a data_pool_scheme \<Rightarrow> 'a data_pool_scheme option" where
  "set_bit_q i q = (if i < length (data_bitmap q)
                  then Some (q\<lparr>data_bitmap := (data_bitmap q)[i := True]\<rparr>) else None)"

definition clear_bit_q :: "nat \<Rightarrow> 'a data_pool_scheme \<Rightarrow> 'a data_pool_scheme option" where
  "clear_bit_q i q = (if i < length (data_bitmap q)
                    then Some (q\<lparr>data_bitmap := (data_bitmap q)[i := False]\<rparr>) else None)"

text \<open>
  \<open>ubbd_kring_unmap_range\<close>: \<open>unmap_mapping_range\<close> removes the translations of the pages
  that overlap \<open>[holebegin, holebegin + holelen)\<close>; without an inode the driver
  dereferences \<open>NULL\<close>.
\<close>

definition ubbd_kring_unmap_range ::
  "'a data_pool_scheme \<Rightarrow> u64 \<Rightarrow> nat \<Rightarrow> 'a data_pool_scheme option" where
  "ubbd_kring_unmap_range q holebegin holelen =
     (if inode_set q
      then (let first = unat (drop_bit PAGE_SHIFT holebegin);
                cnt = (holelen + 4095) div 4096
            in Some (q\<lparr>user_ptes :=
                 (\<lambda>pg. if first \<le> pg \<and> pg < first + cnt then None else user_ptes q pg)\<rparr>))
      else None)"

definition ubbd_alloc_page ::
  "'a data_pool_scheme \<Rightarrow> kmem \<Rightarrow> page_id option \<times> 'a data_pool_scheme \<times> kmem" where
  "ubbd_alloc_page q km =
     (case alloc_page km of
        (None, km1) \<Rightarrow> (None, q, km1)
      | (Some p, km1) \<Rightarrow>
          (Some p, q\<lparr>data_pages_allocated := data_pages_allocated q + 1\<rparr>, km1))"

text \<open>\<open>__ubbd_release_page\<close> of the source.\<close>

definition release_page0 ::
  "'a data_pool_scheme \<Rightarrow> page_id \<Rightarrow> kmem \<Rightarrow> ('a data_pool_scheme \<times> kmem) option" where
  "release_page0 q p km = do {
     km1 \<leftarrow> free_page p km;
     Some (q\<lparr>data_pages_allocated := data_pages_allocated q - 1\<rparr>, km1)
   }"

text \<open>
  The byte offset passed to \<open>ubbd_kring_unmap_range\<close>: \<open>page_index * 4096\<close> is a product of
  two \<open>int\<close>s, so it wraps at 32 bits and is then sign-extended to the width of \<open>data_off\<close>.
\<close>

definition release_off :: "'a data_pool_scheme \<Rightarrow> u32 \<Rightarrow> u64" where
  "release_off q page_index = data_off q + signed (page_index * 4096)"

definition ubbd_release_page ::
  "'a data_pool_scheme \<Rightarrow> ubbd_request \<Rightarrow> nat \<Rightarrow> kmem \<Rightarrow> ('a data_pool_scheme \<times> kmem) option" where
  "ubbd_release_page q r bvec_index km = do {
     page_index \<leftarrow> ubbd_req_get_pi r bvec_index;
     q1 \<leftarrow> clear_bit_q (unat page_index) q;
     if data_pages_allocated q1 > data_pages_reserved q1
     then (case data_pages_array q1 (unat page_index) of
             None \<Rightarrow> Some (q1, km)
           | Some p \<Rightarrow> do {
               q2 \<leftarrow> ubbd_kring_unmap_range q1 (release_off q1 page_index) 2;
               let q3 = q2\<lparr>data_pages_array := (data_pages_array q2)(unat page_index := None)\<rparr>;
               release_page0 q3 p km
             })
     else Some (q1, km)
   }"

definition ubbd_xa_store_page ::
  "'a data_pool_scheme \<Rightarrow> nat \<Rightarrow> page_id \<Rightarrow> kmem \<Rightarrow> int \<times> 'a data_pool_scheme \<times> kmem" where
  "ubbd_xa_store_page q page_index p km =
     (let (ok, km1) = take_oracle km in
      if ok then (0, q\<lparr>data_pages_array := (data_pages_array q)(page_index \<mapsto> p)\<rparr>, km1)
      else (- ENOMEM, q, km1))"

text \<open>
  The segment loop of \<open>ubbd_get_data_pages\<close>: \<open>n\<close> segments left, the index of the next one,
  the page allocated but not yet stored. \<open>goto again\<close> is the call that keeps \<open>n\<close>.
\<close>

function get_pages_loop ::
  "nat \<Rightarrow> nat \<Rightarrow> page_id option \<Rightarrow> ubbd_request \<Rightarrow> 'a data_pool_scheme \<Rightarrow> kmem \<Rightarrow>
   (int \<times> nat \<times> page_id option \<times> ubbd_request \<times> 'a data_pool_scheme \<times> kmem) option" where
  "get_pages_loop 0 bvec_index new_page r q km = Some (0, bvec_index, new_page, r, q, km)"
| "get_pages_loop (Suc n) bvec_index new_page r q km =
     (let page_index = find_first_zero_bit (data_bitmap q) in
      if page_index = unat (data_pages q) then Some (- ENOMEM, bvec_index, new_page, r, q, km)
      else (case data_pages_array q page_index of
          Some page \<Rightarrow> do {
            q1 \<leftarrow> set_bit_q page_index q;
            r1 \<leftarrow> ubbd_req_set_pi r bvec_index (word_of_nat page_index);
            get_pages_loop n (Suc bvec_index) new_page r1 q1 km
          }
        | None \<Rightarrow>
            (case new_page of
               Some page \<Rightarrow>
                 (case ubbd_xa_store_page q page_index page km of
                    (ret, q1, km1) \<Rightarrow>
                      if ret \<noteq> 0
                      then do {
                        (q2, km2) \<leftarrow> release_page0 q1 page km1;
                        Some (ret, bvec_index, None, r, q2, km2)
                      }
                      else do {
                        q2 \<leftarrow> set_bit_q page_index q1;
                        r1 \<leftarrow> ubbd_req_set_pi r bvec_index (word_of_nat page_index);
                        get_pages_loop n (Suc bvec_index) None r1 q2 km1
                      })
             | None \<Rightarrow>
                 (case ubbd_alloc_page q km of
                    (None, q1, km1) \<Rightarrow> Some (- ENOMEM, bvec_index, None, r, q1, km1)
                  | (Some page, q1, km1) \<Rightarrow>
                      get_pages_loop (Suc n) bvec_index (Some page) r q1 km1))))"
  by pat_completeness auto
termination
  by (relation "measures [\<lambda>(n, b, p, r, q, km). n, \<lambda>(n, b, p, r, q, km). if p = None then 1 else 0]") auto

text \<open>\<open>while (bvec_index > 0) ubbd_release_page(ubbd_q, req, --bvec_index)\<close>\<close>

fun release_down ::
  "nat \<Rightarrow> ubbd_request \<Rightarrow> 'a data_pool_scheme \<Rightarrow> kmem \<Rightarrow> ('a data_pool_scheme \<times> kmem) option" where
  "release_down 0 r q km = Some (q, km)"
| "release_down (Suc b) r q km = do {
     (q1, km1) \<leftarrow> ubbd_release_page q r b km;
     release_down b r q1 km1
   }"

definition ubbd_get_data_pages ::
  "'a data_pool_scheme \<Rightarrow> ubbd_request \<Rightarrow> kmem \<Rightarrow>
   (int \<times> ubbd_request \<times> 'a data_pool_scheme \<times> kmem) option" where
  "ubbd_get_data_pages q r km =
     (if rq_bio (ur_req r) = [] then None
      else do {
        (ret, bvec_index, new_page, r1, q1, km1) \<leftarrow>
          get_pages_loop (length (concat (rq_bio (ur_req r)))) 0 None r q km;
        (q2, km2) \<leftarrow> (case new_page of None \<Rightarrow> Some (q1, km1) | Some p \<Rightarrow> release_page0 q1 p km1);
        (q3, km3) \<leftarrow> (if ret \<noteq> 0 then release_down bvec_index r1 q2 km2 else Some (q2, km2));
        Some (ret, r1, q3, km3)
      })"

text \<open>\<open>ubbd_req_get_page\<close> and the lookup behind the backend's page faults.\<close>

definition ubbd_req_get_page :: "'a data_pool_scheme \<Rightarrow> ubbd_request \<Rightarrow> nat \<Rightarrow> page_id option" where
  "ubbd_req_get_page q r bvec_index =
     (case ubbd_req_get_pi r bvec_index of
        None \<Rightarrow> None
      | Some i \<Rightarrow> data_pages_array q (unat i))"

section \<open>The page index array of a request\<close>

text \<open>
  The contract of the page index array, split over the inline array and the
  allocated one: within the capacity a store succeeds, is read back, and changes no
  other index.
\<close>

locale index_array =
  fixes get :: "'r \<Rightarrow> nat \<Rightarrow> 'v option"
    and put :: "'r \<Rightarrow> nat \<Rightarrow> 'v \<Rightarrow> 'r option"
    and cap :: "'r \<Rightarrow> nat"
    and ok :: "'r \<Rightarrow> bool"
  assumes get_in_cap: "ok r \<Longrightarrow> i < cap r \<Longrightarrow> \<exists>v. get r i = Some v"
    and put_in_cap: "ok r \<Longrightarrow> i < cap r \<Longrightarrow>
      \<exists>r'. put r i v = Some r' \<and> ok r' \<and> cap r' = cap r \<and> (\<forall>j. get r' j = (if j = i then Some v else get r j))"
begin

text \<open>Storing a list of values from index \<open>i\<close> on, and reading all of them back.\<close>

fun put_list :: "'r \<Rightarrow> nat \<Rightarrow> 'v list \<Rightarrow> 'r option" where
  "put_list r i [] = Some r"
| "put_list r i (v # vs) = Option.bind (put r i v) (\<lambda>r1. put_list r1 (Suc i) vs)"

lemma put_list_get:
  assumes "ok r" and "i + length vs \<le> cap r"
  shows "\<exists>r'. put_list r i vs = Some r' \<and> ok r' \<and> cap r' = cap r \<and>
    (\<forall>j. get r' j = (if i \<le> j \<and> j < i + length vs then Some (vs ! (j - i)) else get r j))"
  using assms
proof (induction vs arbitrary: r i)
  case (Cons v vs)
  from put_in_cap [of r i v] Cons.prems obtain r1 where r1: "put r i v = Some r1" "ok r1"
    "cap r1 = cap r" "\<And>j. get r1 j = (if j = i then Some v else get r j)" by auto
  from Cons.IH [of r1 "Suc i"] r1 Cons.prems obtain r' where r': "put_list r1 (Suc i) vs = Some r'"
    "ok r'" "cap r' = cap r"
    "\<And>j. get r' j = (if Suc i \<le> j \<and> j < Suc i + length vs then Some (vs ! (j - Suc i)) else get r1 j)"
    by auto
  have "get r' j = (if i \<le> j \<and> j < i + length (v # vs) then Some ((v # vs) ! (j - i)) else get r j)" for j
    using r'(4) [of j] r1(4) [of j] by (auto simp: nth_Cons' Suc_diff_le)
  with r1 r' show ?case by auto
qed auto

end

definition pi_cap :: "ubbd_request \<Rightarrow> nat" where
  "pi_cap r = UBBD_REQ_INLINE_PI_MAX + (case ur_pi r of None \<Rightarrow> 0 | Some ps \<Rightarrow> length ps)"

definition pi_ok :: "ubbd_request \<Rightarrow> bool" where
  "pi_ok r \<longleftrightarrow> length (ur_inline_pi r) = UBBD_REQ_INLINE_PI_MAX"

interpretation pi: index_array ubbd_req_get_pi ubbd_req_set_pi pi_cap pi_ok
  by unfold_locales
    (auto simp: ubbd_req_get_pi_def ubbd_req_set_pi_def pi_cap_def pi_ok_def nth_list_update
      split: option.splits)

lemma set_pi_frame:
  "ubbd_req_set_pi r i v = Some r' \<Longrightarrow>
     ur_req r' = ur_req r \<and> ur_op r' = ur_op r \<and> ur_tid r' = ur_tid r \<and> ur_pi_cnt r' = ur_pi_cnt r \<and>
     ur_se r' = ur_se r \<and> (ur_pi r' = None \<longleftrightarrow> ur_pi r = None)"
  by (auto simp: ubbd_req_set_pi_def split: if_splits option.splits)

section \<open>First-fit slot allocation\<close>

lemma ffz_le: "find_first_zero_bit bm \<le> length bm"
  by (simp add: find_first_zero_bit_def length_takeWhile_le)

lemma ffz_clear: "find_first_zero_bit bm < length bm \<Longrightarrow> \<not> bm ! find_first_zero_bit bm"
  using nth_length_takeWhile [of "\<lambda>b. b" bm] by (simp add: find_first_zero_bit_def)

lemma ffz_first: "i < find_first_zero_bit bm \<Longrightarrow> bm ! i"
  unfolding find_first_zero_bit_def by (metis nth_mem set_takeWhileD takeWhile_nth)

lemma ffz_full: "find_first_zero_bit bm = length bm \<longleftrightarrow> (\<forall>i < length bm. bm ! i)"
  using ffz_first ffz_clear ffz_le by (metis le_neq_implies_less nth_equalityI order_less_le)

text \<open>
  The specification of the allocator on the bitmap alone: take the lowest free slot,
  \<open>n\<close> times.
\<close>

fun first_fit :: "nat \<Rightarrow> bool list \<Rightarrow> nat list \<times> bool list" where
  "first_fit 0 bm = ([], bm)"
| "first_fit (Suc n) bm =
     (let i = find_first_zero_bit bm; rest = first_fit n (bm[i := True]) in (i # fst rest, snd rest))"

definition free_slots :: "bool list \<Rightarrow> nat" where
  "free_slots bm = card {i. i < length bm \<and> \<not> bm ! i}"

lemma finite_slots [simp]: "finite {i. i < length bm \<and> P i}"
  by simp

lemma first_fit_length [simp]:
  "length (fst (first_fit n bm)) = n" "length (snd (first_fit n bm)) = length bm"
  by (induction n arbitrary: bm) (auto simp: Let_def)

lemma free_slots_set:
  assumes "i < length bm" and "\<not> bm ! i"
  shows "free_slots bm = Suc (free_slots (bm[i := True]))"
proof -
  have "{j. j < length bm \<and> \<not> bm ! j} = insert i {j. j < length (bm[i := True]) \<and> \<not> bm[i := True] ! j}"
    using assms by (auto simp: nth_list_update)
  then show ?thesis
    using assms by (simp add: free_slots_def)
qed

lemma free_slots_zero: "free_slots bm = 0 \<longleftrightarrow> find_first_zero_bit bm = length bm"
  by (auto simp: free_slots_def ffz_full)

text \<open>The slots chosen are distinct, were free, and are exactly the bits that get set.\<close>

lemma first_fit_slots:
  assumes "n \<le> free_slots bm"
  shows "distinct (fst (first_fit n bm)) \<and>
    (\<forall>i \<in> set (fst (first_fit n bm)). i < length bm \<and> \<not> bm ! i) \<and>
    (\<forall>i < length bm. snd (first_fit n bm) ! i \<longleftrightarrow> bm ! i \<or> i \<in> set (fst (first_fit n bm)))"
  using assms
proof (induction n arbitrary: bm)
  case (Suc n)
  let ?i = "find_first_zero_bit bm" and ?bm = "bm[find_first_zero_bit bm := True]"
  have i: "?i < length bm"
    using Suc.prems free_slots_zero [of bm] ffz_le [of bm] by (auto simp: le_less)
  have ni: "\<not> bm ! ?i" using ffz_clear [OF i] .
  have "n \<le> free_slots ?bm" using free_slots_set [OF i ni] Suc.prems by simp
  note IH = Suc.IH [OF this]
  have upd: "?bm ! j \<longleftrightarrow> bm ! j \<or> j = ?i" if "j < length bm" for j
    using that i by (auto simp: nth_list_update)
  have "?i \<notin> set (fst (first_fit n ?bm))" using IH i by auto
  then show ?case
    using IH i ni upd by (auto simp: Let_def)
qed simp

section \<open>The invariant of the pool\<close>

text \<open>
  \<open>pool_inv X q km\<close>: the bitmap covers the slots, every used slot is backed by a page,
  no page backs two slots, all pages are live, and \<open>data_pages_allocated\<close> counts the pages
  of the pool and those in \<open>X\<close>, allocated but not stored yet.
\<close>

definition pool_inv :: "page_id set \<Rightarrow> 'a data_pool_scheme \<Rightarrow> kmem \<Rightarrow> bool" where
  "pool_inv X q km \<longleftrightarrow>
     length (data_bitmap q) = unat (data_pages q) \<and> unat (data_pages q) < 2 ^ 31 \<and>
     dom (data_pages_array q) \<subseteq> {..<unat (data_pages q)} \<and>
     inj_on (data_pages_array q) (dom (data_pages_array q)) \<and>
     ran (data_pages_array q) \<union> X \<subseteq> dom (km_pages km) \<and>
     ran (data_pages_array q) \<inter> X = {} \<and> finite X \<and>
     (\<forall>i < length (data_bitmap q). data_bitmap q ! i \<longrightarrow> i \<in> dom (data_pages_array q)) \<and>
     unat (data_pages_allocated q) = card (dom (data_pages_array q)) + card X \<and>
     dom (km_pages km) \<subseteq> {..<km_next km}"

lemma pool_inv_oracle [simp]: "pool_inv X q (km\<lparr>km_oracle := bs\<rparr>) = pool_inv X q km"
  by (simp add: pool_inv_def)

lemma take_oracle_pool [simp]: "pool_inv X q (snd (take_oracle km)) = pool_inv X q km"
  by (simp add: take_oracle_def split: list.splits)

lemma take_oracle_frame [simp]:
  "km_pages (snd (take_oracle km)) = km_pages km" "km_next (snd (take_oracle km)) = km_next km"
  by (simp_all add: take_oracle_def split: list.splits)

lemma pool_inv_finite: "pool_inv X q km \<Longrightarrow> finite (dom (data_pages_array q))"
  unfolding pool_inv_def by (meson finite_lessThan finite_subset)

lemma pool_inv_card: "pool_inv X q km \<Longrightarrow> card (dom (data_pages_array q)) < 2 ^ 31"
proof -
  assume inv: "pool_inv X q km"
  then have "card (dom (data_pages_array q)) \<le> card {..<unat (data_pages q)}"
    unfolding pool_inv_def by (intro card_mono) auto
  with inv show ?thesis by (simp add: pool_inv_def)
qed

lemma pool_inv_set_bit:
  "pool_inv X q km \<Longrightarrow> i \<in> dom (data_pages_array q) \<Longrightarrow>
     pool_inv X (q\<lparr>data_bitmap := (data_bitmap q)[i := True]\<rparr>) km"
  by (auto simp: pool_inv_def nth_update_if split: if_splits)

lemma pool_inv_clear_bit:
  "pool_inv X q km \<Longrightarrow> pool_inv X (q\<lparr>data_bitmap := (data_bitmap q)[i := False]\<rparr>) km"
  by (auto simp: pool_inv_def nth_update_if split: if_splits)

lemma pool_inv_ptes [simp]: "pool_inv X (q\<lparr>user_ptes := m\<rparr>) km = pool_inv X q km"
  by (simp add: pool_inv_def)

lemma pool_inv_store:
  assumes inv: "pool_inv (insert p X) q km" and p: "p \<notin> X"
    and i: "i < unat (data_pages q)" "data_pages_array q i = None"
  shows "pool_inv X (q\<lparr>data_pages_array := (data_pages_array q)(i \<mapsto> p)\<rparr>) km"
proof -
  have "card (insert i (dom (data_pages_array q))) = Suc (card (dom (data_pages_array q)))"
    using pool_inv_finite [OF inv] i by (simp add: domIff)
  moreover have "card (insert p X) = Suc (card X)"
    using inv p by (simp add: pool_inv_def)
  moreover have "p \<notin> ran (data_pages_array q)"
    using inv by (auto simp: pool_inv_def)
  ultimately show ?thesis
    using inv i p by (auto simp: pool_inv_def inj_on_def domIff ran_def split: if_splits)
qed

lemma pool_inv_erase:
  assumes inv: "pool_inv X q km" and i: "data_pages_array q i = Some p" "\<not> data_bitmap q ! i"
  shows "pool_inv (insert p X) (q\<lparr>data_pages_array := (data_pages_array q)(i := None)\<rparr>) km"
proof -
  have "card (dom (data_pages_array q)) = Suc (card (dom (data_pages_array q) - {i}))"
    using pool_inv_finite [OF inv] i by (intro card_Suc_Diff1 [symmetric]) auto
  moreover have "p \<notin> X" using inv i by (auto simp: pool_inv_def ran_def)
  moreover have "p \<notin> ran ((data_pages_array q)(i := None))"
    using inv i by (auto simp: pool_inv_def ran_def inj_on_def dom_def)
  ultimately show ?thesis
    using inv i by (auto simp: pool_inv_def inj_on_def ran_def split: if_splits)
qed

lemma pool_inv_free:
  assumes inv: "pool_inv (insert p X) q km" and p: "p \<notin> X"
  shows "\<exists>q' km'. release_page0 q p km = Some (q', km') \<and> pool_inv X q' km' \<and>
    q' = q\<lparr>data_pages_allocated := data_pages_allocated q - 1\<rparr> \<and>
    km' = km\<lparr>km_pages := (km_pages km)(p := None)\<rparr>"
proof -
  have "card (insert p X) = Suc (card X)" using inv p by (simp add: pool_inv_def)
  moreover have "unat (data_pages_allocated q - 1) = unat (data_pages_allocated q) - 1"
    using inv calculation by (subst unat_minus_u32) (auto simp: pool_inv_def)
  ultimately show ?thesis
    using inv p by (auto simp: pool_inv_def release_page0_def free_page_def)
qed

lemma pool_inv_alloc:
  assumes inv: "pool_inv X q km" and X: "card X < 2 ^ 30" and al: "ubbd_alloc_page q km = (Some p, q', km')"
  shows "pool_inv (insert p X) q' km'" and "p \<notin> dom (km_pages km)" and "p \<notin> X"
    and "q' = q\<lparr>data_pages_allocated := data_pages_allocated q + 1\<rparr>"
    and "km_pages km' = (km_pages km)(p \<mapsto> km_junk (snd (take_oracle km)))"
proof -
  have p: "p = km_next km" and q': "q' = q\<lparr>data_pages_allocated := data_pages_allocated q + 1\<rparr>"
    and km': "km_pages km' = (km_pages km)(p \<mapsto> km_junk (snd (take_oracle km)))" "km_next km' = Suc p"
  proof -
    obtain ok km1 where t: "take_oracle km = (ok, km1)" by fastforce
    then have "km_pages km1 = km_pages km" "km_next km1 = km_next km"
      using take_oracle_frame [of km] by simp_all
    then show "p = km_next km" "q' = q\<lparr>data_pages_allocated := data_pages_allocated q + 1\<rparr>"
      "km_pages km' = (km_pages km)(p \<mapsto> km_junk (snd (take_oracle km)))" "km_next km' = Suc p"
      using al t by (auto simp: ubbd_alloc_page_def alloc_page_def split: if_splits)
  qed
  have np: "p \<notin> dom (km_pages km)" using inv p by (auto simp: pool_inv_def)
  then have nX: "p \<notin> X" and nr: "p \<notin> ran (data_pages_array q)"
    using inv by (auto simp: pool_inv_def)
  have "unat (data_pages_allocated q + 1) = unat (data_pages_allocated q) + 1"
    using inv X pool_inv_card [OF inv] by (subst unat_plus_u32) (auto simp: pool_inv_def)
  then show "pool_inv (insert p X) q' km'"
    using inv nX nr p by (auto simp: pool_inv_def q' km')
  show "p \<notin> dom (km_pages km)" "p \<notin> X" "q' = q\<lparr>data_pages_allocated := data_pages_allocated q + 1\<rparr>"
    "km_pages km' = (km_pages km)(p \<mapsto> km_junk (snd (take_oracle km)))"
    by fact+
qed

section \<open>Acquiring slots\<close>

text \<open>
  \<open>got k b np r q km r' q' km'\<close>: from \<open>q\<close>, the first-fit choice of \<open>k\<close> slots was taken and
  recorded in the request from index \<open>b\<close> on; nothing but the bitmap, the array, the
  count and pages not live before (or \<open>np\<close>) changed.
\<close>

definition pool_rest :: "'a data_pool_scheme \<Rightarrow> 'a data_pool_scheme" where
  "pool_rest q = q\<lparr>data_bitmap := [], data_pages_array := Map.empty, data_pages_allocated := 0,
     user_ptes := Map.empty\<rparr>"

definition pool_frame :: "'a data_pool_scheme \<Rightarrow> 'a data_pool_scheme \<Rightarrow> bool" where
  "pool_frame q q' \<longleftrightarrow> pool_rest q' = pool_rest q"

definition req_frame :: "ubbd_request \<Rightarrow> ubbd_request \<Rightarrow> bool" where
  "req_frame r r' \<longleftrightarrow> pi_ok r' \<and> pi_cap r' = pi_cap r \<and> ur_req r' = ur_req r \<and> ur_op r' = ur_op r \<and>
     ur_tid r' = ur_tid r \<and> ur_pi_cnt r' = ur_pi_cnt r \<and> ur_se r' = ur_se r \<and>
     (ur_pi r' = None \<longleftrightarrow> ur_pi r = None)"

definition got ::
  "nat \<Rightarrow> nat \<Rightarrow> page_id set \<Rightarrow> ubbd_request \<Rightarrow> 'a data_pool_scheme \<Rightarrow> kmem \<Rightarrow>
   ubbd_request \<Rightarrow> 'a data_pool_scheme \<Rightarrow> kmem \<Rightarrow> bool" where
  "got k b X r q km r' q' km' \<longleftrightarrow>
     k \<le> free_slots (data_bitmap q) \<and> data_bitmap q' = snd (first_fit k (data_bitmap q)) \<and>
     req_frame r r' \<and>
     (\<forall>j. ubbd_req_get_pi r' j =
        (if b \<le> j \<and> j < b + k then Some (word_of_nat (fst (first_fit k (data_bitmap q)) ! (j - b)))
         else ubbd_req_get_pi r j)) \<and>
     data_pages_array q \<subseteq>\<^sub>m data_pages_array q' \<and>
     ran (data_pages_array q') \<subseteq> ran (data_pages_array q) \<union> X \<union> - dom (km_pages km) \<and>
     pool_frame q q' \<and> user_ptes q' = user_ptes q \<and> (\<forall>p \<in> dom (km_pages km) - X. km_pages km' p = km_pages km p)"

lemma pool_frame_refl [simp]: "pool_frame q q"
  by (simp add: pool_frame_def)

lemma pool_frame_upd [simp]:
  "pool_frame q (q'\<lparr>data_bitmap := bm\<rparr>) = pool_frame q q'"
  "pool_frame q (q'\<lparr>data_pages_array := ar\<rparr>) = pool_frame q q'"
  "pool_frame q (q'\<lparr>data_pages_allocated := al\<rparr>) = pool_frame q q'"
  "pool_frame q (q'\<lparr>user_ptes := pt\<rparr>) = pool_frame q q'"
  by (simp_all add: pool_frame_def pool_rest_def)

lemma pool_frame_trans: "pool_frame q q1 \<Longrightarrow> pool_frame q1 q2 \<Longrightarrow> pool_frame q q2"
  by (simp add: pool_frame_def)

lemma pool_frameD:
  assumes "pool_frame q q'"
  shows "data_pages q' = data_pages q" "data_pages_reserved q' = data_pages_reserved q"
    "data_off q' = data_off q" "inode_set q' = inode_set q"
    "cmdr_size q' = cmdr_size q" "cmd_head q' = cmd_head q" "cmd_tail q' = cmd_tail q"
    "cmdr_mem q' = cmdr_mem q" "data_pool.more q' = data_pool.more q"
proof -
  note c = assms [unfolded pool_frame_def pool_rest_def]
  show "data_pages q' = data_pages q" using arg_cong [OF c, of data_pages] by simp
  show "data_pages_reserved q' = data_pages_reserved q" using arg_cong [OF c, of data_pages_reserved] by simp
  show "data_off q' = data_off q" using arg_cong [OF c, of data_off] by simp
  show "inode_set q' = inode_set q" using arg_cong [OF c, of inode_set] by simp
  show "cmdr_size q' = cmdr_size q" using arg_cong [OF c, of cmdr_size] by simp
  show "cmd_head q' = cmd_head q" using arg_cong [OF c, of cmd_head] by simp
  show "cmd_tail q' = cmd_tail q" using arg_cong [OF c, of cmd_tail] by simp
  show "cmdr_mem q' = cmdr_mem q" using arg_cong [OF c, of cmdr_mem] by simp
  show "data_pool.more q' = data_pool.more q" using arg_cong [OF c, of data_pool.more] by simp
qed

lemma got_0: "pi_ok r \<Longrightarrow> data_bitmap q' = data_bitmap q \<Longrightarrow> data_pages_array q' = data_pages_array q \<Longrightarrow>
    pool_frame q q' \<Longrightarrow> user_ptes q' = user_ptes q \<Longrightarrow>
    \<forall>p \<in> dom (km_pages km) - X. km_pages km' p = km_pages km p \<Longrightarrow>
    got 0 b X r q km r q' km'"
  by (auto simp: got_def req_frame_def)

lemma got_Suc:
  assumes i: "find_first_zero_bit (data_bitmap q) < length (data_bitmap q)"
    and q1: "data_bitmap q1 = (data_bitmap q)[find_first_zero_bit (data_bitmap q) := True]"
      "data_pages_array q \<subseteq>\<^sub>m data_pages_array q1" "pool_frame q q1" "user_ptes q1 = user_ptes q"
      "ran (data_pages_array q1) \<subseteq> ran (data_pages_array q) \<union> X"
    and r: "pi_ok r" "b < pi_cap r"
      "ubbd_req_set_pi r b (word_of_nat (find_first_zero_bit (data_bitmap q))) = Some r1"
    and km: "\<forall>p \<in> dom (km_pages km) - X. km_pages km1 p = km_pages km p" and X: "X1 \<subseteq> X"
    and g: "got k (Suc b) X1 r1 q1 km1 r' q' km'"
  shows "got (Suc k) b X r q km r' q' km'"
proof -
  let ?i = "find_first_zero_bit (data_bitmap q)"
  have fs: "free_slots (data_bitmap q) = Suc (free_slots (data_bitmap q1))"
    using free_slots_set [OF i ffz_clear [OF i]] q1(1) by simp
  have ff: "first_fit (Suc k) (data_bitmap q) =
      (?i # fst (first_fit k (data_bitmap q1)), snd (first_fit k (data_bitmap q1)))"
    by (simp add: Let_def q1(1))
  obtain r1': "pi_ok r1" "pi_cap r1 = pi_cap r"
    and get1: "\<And>j. ubbd_req_get_pi r1 j = (if j = b then Some (word_of_nat ?i) else ubbd_req_get_pi r j)"
    using pi.put_in_cap [OF r(1,2), of "word_of_nat ?i"] r(3) by auto
  have rf: "req_frame r r'"
    using g set_pi_frame [OF r(3)] r1' unfolding got_def req_frame_def by auto
  have "ubbd_req_get_pi r' j =
      (if b \<le> j \<and> j < b + Suc k then Some (word_of_nat (fst (first_fit (Suc k) (data_bitmap q)) ! (j - b)))
       else ubbd_req_get_pi r j)" for j
    using g unfolding got_def by (auto simp: ff get1 nth_Cons' Suc_diff_Suc simp del: first_fit.simps(2))
  moreover have "km_pages km' p = km_pages km p" if "p \<in> dom (km_pages km) - X" for p
  proof -
    have "km_pages km1 p = km_pages km p" using km that by blast
    moreover have "p \<in> dom (km_pages km1) - X1" using that X calculation by (auto simp: dom_def)
    ultimately show ?thesis using g by (simp add: got_def)
  qed
  moreover have "pool_frame q q'" "data_pages_array q \<subseteq>\<^sub>m data_pages_array q'" "user_ptes q' = user_ptes q"
    using g q1 pool_frame_trans map_le_trans unfolding got_def by (blast, blast, simp)
  moreover have "Suc k \<le> free_slots (data_bitmap q)"
    "data_bitmap q' = snd (first_fit (Suc k) (data_bitmap q))"
    using g fs unfolding got_def by (simp_all add: ff del: first_fit.simps(2))
  moreover have "ran (data_pages_array q') \<subseteq> ran (data_pages_array q) \<union> X \<union> - dom (km_pages km)"
  proof -
    have "dom (km_pages km) - X \<subseteq> dom (km_pages km1)" using km by (fastforce simp: dom_def)
    moreover have "ran (data_pages_array q') \<subseteq> ran (data_pages_array q1) \<union> X1 \<union> - dom (km_pages km1)"
      using g by (simp add: got_def)
    ultimately show ?thesis using q1(5) X by blast
  qed
  ultimately show ?thesis
    using rf by (simp add: got_def del: first_fit.simps(2))
qed

definition loop_result ::
  "nat \<Rightarrow> nat \<Rightarrow> page_id set \<Rightarrow> ubbd_request \<Rightarrow> 'a data_pool_scheme \<Rightarrow> kmem \<Rightarrow>
   int \<times> nat \<times> page_id option \<times> ubbd_request \<times> 'a data_pool_scheme \<times> kmem \<Rightarrow> bool" where
  "loop_result n b X r q km res \<longleftrightarrow>
     (case res of (ret, b', np', r', q', km') \<Rightarrow>
        pool_inv (set_option np') q' km' \<and> set_option np' \<subseteq> X \<union> - dom (km_pages km) \<and>
        (\<exists>k \<le> n. b' = b + k \<and> got k b X r q km r' q' km' \<and> (ret = 0 \<and> k = n \<or> ret = - ENOMEM)))"

lemma loop_result_0:
  assumes "pool_inv (set_option np') q' km'" and "set_option np' \<subseteq> X"
    and "got 0 b X r q km r q' km'" and "ret = 0 \<and> n = 0 \<or> ret = - ENOMEM"
  shows "loop_result n b X r q km (ret, b, np', r, q', km')"
  using assms by (auto simp: loop_result_def)

lemma loop_result_Suc:
  assumes "loop_result n (Suc b) X1 r1 q1 km1 res"
    and "X1 \<union> - dom (km_pages km1) \<subseteq> X \<union> - dom (km_pages km)"
    and "\<And>k r' q' km'. got k (Suc b) X1 r1 q1 km1 r' q' km' \<Longrightarrow> got (Suc k) b X r q km r' q' km'"
  shows "loop_result (Suc n) b X r q km res"
proof -
  obtain ret b' np' r' q' km' where res: "res = (ret, b', np', r', q', km')" by (metis prod_cases6)
  obtain k where k: "k \<le> n" "b' = Suc b + k" "got k (Suc b) X1 r1 q1 km1 r' q' km'"
      "ret = 0 \<and> k = n \<or> ret = - ENOMEM" "set_option np' \<subseteq> X1 \<union> - dom (km_pages km1)"
      "pool_inv (set_option np') q' km'"
    using assms(1) by (auto simp: loop_result_def res)
  then show ?thesis
    using assms(2) assms(3) [OF k(3)] unfolding loop_result_def res
    by (intro case_prodI) (use k in \<open>fastforce intro: exI [of _ "Suc k"]\<close>)
qed

text \<open>The loop returns for every oracle, keeps the invariant, and takes slots first-fit.\<close>

abbreviation loop_ok where
  "loop_ok n b np r q km \<equiv>
     \<exists>res. get_pages_loop n b np r q km = Some res \<and> loop_result n b (set_option np) r q km res"

text \<open>A slot whose page is already there.\<close>

lemma loop_hit:
  fixes q :: "'a data_pool_scheme"
  assumes inv: "pool_inv (set_option np) q km" and r: "pi_ok r" "b + Suc n \<le> pi_cap r"
    and i: "find_first_zero_bit (data_bitmap q) \<noteq> unat (data_pages q)"
      "data_pages_array q (find_first_zero_bit (data_bitmap q)) = Some page"
    and IH: "\<And>r1 (q1 :: 'a data_pool_scheme). pool_inv (set_option np) q1 km \<Longrightarrow> pi_ok r1 \<Longrightarrow> Suc b + n \<le> pi_cap r1 \<Longrightarrow>
      loop_ok n (Suc b) np r1 q1 km"
  shows "loop_ok (Suc n) b np r q km"
proof -
  let ?i = "find_first_zero_bit (data_bitmap q)"
  define q1 where "q1 = q\<lparr>data_bitmap := (data_bitmap q)[?i := True]\<rparr>"
  have lt: "?i < length (data_bitmap q)"
    using inv i(1) ffz_le [of "data_bitmap q"] by (simp add: pool_inv_def)
  obtain r1 where r1: "ubbd_req_set_pi r b (word_of_nat ?i) = Some r1" "pi_ok r1" "pi_cap r1 = pi_cap r"
    using pi.put_in_cap [OF r(1), of b] r(2) by (metis add_Suc_right less_add_Suc1 less_le_trans)
  have "pool_inv (set_option np) q1 km"
    unfolding q1_def by (rule pool_inv_set_bit [OF inv]) (use i in auto)
  from IH [OF this r1(2)] r(2) r1(3) obtain res where
    res: "get_pages_loop n (Suc b) np r1 q1 km = Some res" "loop_result n (Suc b) (set_option np) r1 q1 km res"
    by auto
  have "loop_result (Suc n) b (set_option np) r q km res"
    by (rule loop_result_Suc [OF res(2)], simp, rule got_Suc [OF lt _ _ _ _ _ r(1) _ r1(1)])
      (use r in \<open>auto simp: q1_def\<close>)
  then show ?thesis
    using i r1(1) res(1) lt by (simp add: set_bit_q_def q1_def)
qed

text \<open>A slot without a page, a page in hand: it is stored, or released when that fails.\<close>

lemma loop_store:
  fixes q :: "'a data_pool_scheme"
  assumes inv: "pool_inv {page} q km" and r: "pi_ok r" "b + Suc n \<le> pi_cap r"
    and i: "find_first_zero_bit (data_bitmap q) \<noteq> unat (data_pages q)"
      "data_pages_array q (find_first_zero_bit (data_bitmap q)) = None"
    and IH: "\<And>r1 (q1 :: 'a data_pool_scheme) km1. pool_inv {} q1 km1 \<Longrightarrow> pi_ok r1 \<Longrightarrow> Suc b + n \<le> pi_cap r1 \<Longrightarrow>
      loop_ok n (Suc b) None r1 q1 km1"
  shows "loop_ok (Suc n) b (Some page) r q km"
proof -
  let ?i = "find_first_zero_bit (data_bitmap q)"
  have lt: "?i < length (data_bitmap q)" and lt': "?i < unat (data_pages q)"
    using inv i(1) ffz_le [of "data_bitmap q"] by (simp_all add: pool_inv_def)
  obtain r1 where r1: "ubbd_req_set_pi r b (word_of_nat ?i) = Some r1" "pi_ok r1" "pi_cap r1 = pi_cap r"
    using pi.put_in_cap [OF r(1), of b] r(2) by (metis add_Suc_right less_add_Suc1 less_le_trans)
  obtain ok km1 where t: "take_oracle km = (ok, km1)" by fastforce
  have km1: "pool_inv {page} q km1" "km_pages km1 = km_pages km"
    using inv take_oracle_pool [of "{page}" q km] take_oracle_frame [of km] t by simp_all
  show ?thesis
  proof (cases ok)
    case True
    define q2 where "q2 = q\<lparr>data_pages_array := (data_pages_array q)(?i \<mapsto> page),
      data_bitmap := (data_bitmap q)[?i := True]\<rparr>"
    have "pool_inv {} (q\<lparr>data_pages_array := (data_pages_array q)(?i \<mapsto> page)\<rparr>) km1"
      by (rule pool_inv_store) (use km1 lt' i in auto)
    from pool_inv_set_bit [OF this, of ?i] have "pool_inv {} q2 km1" by (simp add: q2_def)
    from IH [OF this r1(2)] r(2) r1(3) obtain res where
      res: "get_pages_loop n (Suc b) None r1 q2 km1 = Some res" "loop_result n (Suc b) {} r1 q2 km1 res"
      by auto
    have "loop_result (Suc n) b {page} r q km res"
      by (rule loop_result_Suc [OF res(2)], unfold km1(2), blast, rule got_Suc [OF lt _ _ _ _ _ r(1) _ r1(1)])
        (use r i km1 in \<open>auto simp: q2_def map_le_def ran_def split: if_splits\<close>)
    then show ?thesis
      using i r1(1) res(1) lt t True by (simp add: set_bit_q_def q2_def ubbd_xa_store_page_def)
  next
    case False
    obtain q2 km2 where rel: "release_page0 q page km1 = Some (q2, km2)" "pool_inv {} q2 km2"
      "q2 = q\<lparr>data_pages_allocated := data_pages_allocated q - 1\<rparr>"
      "km2 = km1\<lparr>km_pages := (km_pages km1)(page := None)\<rparr>"
      using pool_inv_free [of page "{}" q km1] km1 by auto
    have "loop_result (Suc n) b {page} r q km (- ENOMEM, b, None, r, q2, km2)"
      using rel r km1 by (auto intro!: loop_result_0 got_0 split: if_splits)
    then show ?thesis
      using i t False rel(1) by (simp add: ubbd_xa_store_page_def)
  qed
qed

text \<open>Neither: a page is allocated and the slot is looked for again.\<close>

lemma loop_alloc:
  fixes q :: "'a data_pool_scheme"
  assumes inv: "pool_inv {} q km" and r: "pi_ok r" "b + Suc n \<le> pi_cap r"
    and i: "find_first_zero_bit (data_bitmap q) \<noteq> unat (data_pages q)"
      "data_pages_array q (find_first_zero_bit (data_bitmap q)) = None"
    and IH: "\<And>page (q1 :: 'a data_pool_scheme) km1. pool_inv {page} q1 km1 \<Longrightarrow> loop_ok (Suc n) b (Some page) r q1 km1"
  shows "loop_ok (Suc n) b None r q km"
proof -
  obtain pg q1 km1 where al: "ubbd_alloc_page q km = (pg, q1, km1)" by (metis prod_cases3)
  show ?thesis
  proof (cases pg)
    case (Some page)
    note al' = al [unfolded Some]
    have inv1: "pool_inv {page} q1 km1" and fr: "page \<notin> dom (km_pages km)"
      and q1: "q1 = q\<lparr>data_pages_allocated := data_pages_allocated q + 1\<rparr>"
      and km1: "km_pages km1 = (km_pages km)(page \<mapsto> km_junk (snd (take_oracle km)))"
      using pool_inv_alloc [OF inv _ al'] by auto
    from IH [OF inv1] obtain res where res: "get_pages_loop (Suc n) b (Some page) r q1 km1 = Some res"
      "loop_result (Suc n) b {page} r q1 km1 res" by auto
    have "got k b {page} r q1 km1 r' q' km' \<Longrightarrow> got k b {} r q km r' q' km'" for k r' q' km'
      using fr unfolding got_def by (auto simp: q1 km1 pool_frame_def pool_rest_def split: if_splits)
    then have "loop_result (Suc n) b {} r q km res"
      using res(2) fr unfolding loop_result_def by (auto simp: km1 split: prod.splits)
    then show ?thesis using i al' res(1) by simp
  next
    case None
    obtain ok km0 where "take_oracle km = (ok, km0)" by fastforce
    then have "q1 = q" "pool_inv {} q km1" "km_pages km1 = km_pages km"
      using al None inv take_oracle_pool [of "{}" q km] take_oracle_frame [of km]
      by (auto simp: ubbd_alloc_page_def alloc_page_def split: if_splits)
    then have "loop_result (Suc n) b {} r q km (- ENOMEM, b, None, r, q1, km1)"
      using r by (auto intro!: loop_result_0 got_0)
    then show ?thesis using i al None by simp
  qed
qed

lemma loop_full:
  assumes "pool_inv (set_option np) q km" and "pi_ok r"
    and "find_first_zero_bit (data_bitmap q) = unat (data_pages q)"
  shows "loop_ok (Suc n) b np r q km"
  using assms by (auto intro!: loop_result_0 got_0)

declare get_pages_loop.simps(2) [simp del]

lemma get_pages_loop_ok:
  fixes q :: "'a data_pool_scheme"
  assumes "pool_inv (set_option np) q km" and "pi_ok r" and "b + n \<le> pi_cap r"
  shows "loop_ok n b np r q km"
  using assms
proof (induction n arbitrary: b np r q km)
  case 0
  then show ?case by (auto intro!: loop_result_0 got_0)
next
  case (Suc n)
  have hit: "loop_ok (Suc n) b np r q km" if "pool_inv (set_option np) q km"
      "find_first_zero_bit (data_bitmap q) \<noteq> unat (data_pages q)"
      "data_pages_array q (find_first_zero_bit (data_bitmap q)) = Some page"
    for np page km and q :: "'a data_pool_scheme"
    by (rule loop_hit [OF that(1) Suc.prems(2,3) that(2,3)], rule Suc.IH)
  have store: "loop_ok (Suc n) b (Some page) r q km" if inv: "pool_inv {page} q km"
    for page km and q :: "'a data_pool_scheme"
  proof (cases "find_first_zero_bit (data_bitmap q) = unat (data_pages q)")
    case False
    show ?thesis
    proof (cases "data_pages_array q (find_first_zero_bit (data_bitmap q))")
      case None
      show ?thesis by (rule loop_store [OF inv Suc.prems(2,3) False None], rule Suc.IH) simp
    qed (use hit [of "Some page" q km] inv False in simp)
  qed (use loop_full [of "Some page" q km r n b] inv Suc.prems(2) in simp)
  show ?case
  proof (cases "find_first_zero_bit (data_bitmap q) = unat (data_pages q)")
    case False
    show ?thesis
    proof (cases "data_pages_array q (find_first_zero_bit (data_bitmap q))")
      case None
      show ?thesis
      proof (cases np)
        case (Some page)
        then show ?thesis using store Suc.prems(1) by simp
      next
        case P: None
        show ?thesis
          unfolding P by (rule loop_alloc [OF _ Suc.prems(2,3) False None store]) (use Suc.prems(1) P in simp)
      qed
    qed (use hit [OF Suc.prems(1) False] in simp)
  qed (use loop_full [OF Suc.prems(1,2)] in simp)
qed

section \<open>Releasing slots\<close>

text \<open>
  \<open>released S q km q' km'\<close>: the slots in \<open>S\<close> are free in \<open>q'\<close>; pages may have been dropped
  from these slots, and nothing else changed.
\<close>

definition released :: "nat set \<Rightarrow> 'a data_pool_scheme \<Rightarrow> kmem \<Rightarrow> 'a data_pool_scheme \<Rightarrow> kmem \<Rightarrow> bool" where
  "released S q km q' km' \<longleftrightarrow>
     length (data_bitmap q') = length (data_bitmap q) \<and>
     (\<forall>i < length (data_bitmap q). data_bitmap q' ! i \<longleftrightarrow> data_bitmap q ! i \<and> i \<notin> S) \<and>
     data_pages_array q' \<subseteq>\<^sub>m data_pages_array q \<and>
     (\<forall>i. i \<notin> S \<longrightarrow> data_pages_array q' i = data_pages_array q i) \<and>
     pool_frame q q' \<and> user_ptes q' \<subseteq>\<^sub>m user_ptes q \<and>
     (\<forall>p. (\<forall>i \<in> S. data_pages_array q i \<noteq> Some p) \<longrightarrow> km_pages km' p = km_pages km p)"

lemma released_refl: "released {} q km q km"
  by (simp add: released_def)

lemma released_trans:
  assumes a: "released S q km q1 km1" and b: "released T q1 km1 q2 km2"
  shows "released (S \<union> T) q km q2 km2"
proof -
  have le: "data_pages_array q1 \<subseteq>\<^sub>m data_pages_array q" using a by (simp add: released_def)
  then have "\<forall>i \<in> T. data_pages_array q1 i \<noteq> Some p" if "\<forall>i \<in> S \<union> T. data_pages_array q i \<noteq> Some p" for p
    using that by (metis Un_iff domI map_le_def)
  moreover have "data_pages_array q2 \<subseteq>\<^sub>m data_pages_array q" "user_ptes q2 \<subseteq>\<^sub>m user_ptes q" "pool_frame q q2"
    using a b map_le_trans pool_frame_trans unfolding released_def by blast+
  ultimately show ?thesis
    using a b unfolding released_def by auto
qed

lemma unmap_range_ok:
  "inode_set q \<Longrightarrow> \<exists>pt. ubbd_kring_unmap_range q off n = Some (q\<lparr>user_ptes := pt\<rparr>) \<and> pt \<subseteq>\<^sub>m user_ptes q"
  by (simp add: ubbd_kring_unmap_range_def Let_def)
    (rule exI, rule conjI, rule refl, auto simp: map_le_def split: if_splits)

text \<open>A single release: no oops as long as the kring device has been opened.\<close>

lemma release_page_ok:
  assumes inv: "pool_inv {} q km" and pi: "ubbd_req_get_pi r b = Some i" "unat i < length (data_bitmap q)"
    and ino: "inode_set q"
  shows "\<exists>q' km'. ubbd_release_page q r b km = Some (q', km') \<and> pool_inv {} q' km' \<and>
    released {unat i} q km q' km'"
proof -
  define q1 where "q1 = q\<lparr>data_bitmap := (data_bitmap q)[unat i := False]\<rparr>"
  have inv1: "pool_inv {} q1 km" unfolding q1_def by (rule pool_inv_clear_bit [OF inv])
  have rel1: "released {unat i} q km q1 km"
    using pi(2) by (auto simp: released_def q1_def nth_update_if)
  show ?thesis
  proof (cases "data_pages_allocated q > data_pages_reserved q \<and> data_pages_array q (unat i) \<noteq> None")
    case False
    then have "ubbd_release_page q r b km = Some (q1, km)"
      using pi by (auto simp: ubbd_release_page_def clear_bit_q_def q1_def)
    then show ?thesis using inv1 rel1 by blast
  next
    case True
    then obtain p where p: "data_pages_array q1 (unat i) = Some p" by (auto simp: q1_def)
    obtain pt where un: "ubbd_kring_unmap_range q1 (release_off q1 i) 2 = Some (q1\<lparr>user_ptes := pt\<rparr>)"
        and pt: "pt \<subseteq>\<^sub>m user_ptes q1"
      using unmap_range_ok [of q1] ino by (auto simp: q1_def)
    define q3 where "q3 = q1\<lparr>user_ptes := pt, data_pages_array := (data_pages_array q1)(unat i := None)\<rparr>"
    have "pool_inv {p} q3 km"
      using pool_inv_erase [OF inv1 p] pi(2) by (simp add: q3_def q1_def pool_inv_def)
    then obtain q4 km4 where fr: "release_page0 q3 p km = Some (q4, km4)" "pool_inv {} q4 km4"
        "q4 = q3\<lparr>data_pages_allocated := data_pages_allocated q3 - 1\<rparr>"
        "km4 = km\<lparr>km_pages := (km_pages km)(p := None)\<rparr>"
      using pool_inv_free [of p "{}" q3 km] by auto
    have "ubbd_release_page q r b km = Some (q4, km4)"
      using pi p True un fr(1) by (simp add: ubbd_release_page_def clear_bit_q_def q1_def q3_def)
    moreover have "released {unat i} q km q4 km4"
      using rel1 p pt fr(3,4) unfolding released_def
      by (auto simp: q3_def q1_def map_le_def split: if_splits)
    ultimately show ?thesis using fr(2) by blast
  qed
qed

text \<open>A sequence of releases; both release loops of the driver are instances.\<close>

fun release_seq ::
  "nat list \<Rightarrow> ubbd_request \<Rightarrow> 'a data_pool_scheme \<Rightarrow> kmem \<Rightarrow> ('a data_pool_scheme \<times> kmem) option" where
  "release_seq [] r q km = Some (q, km)"
| "release_seq (b # bs) r q km = do {
     (q1, km1) \<leftarrow> ubbd_release_page q r b km;
     release_seq bs r q1 km1
   }"

lemma release_down_seq: "release_down b r = release_seq (rev [0..<b]) r"
  by (induction b) (auto intro!: ext)

lemma release_seq_ok:
  assumes "pool_inv {} q km" and "inode_set q"
    and "\<forall>b \<in> set bs. \<exists>i. ubbd_req_get_pi r b = Some i \<and> unat i < length (data_bitmap q)"
  shows "\<exists>q' km'. release_seq bs r q km = Some (q', km') \<and> pool_inv {} q' km' \<and>
    released ((\<lambda>b. unat (the (ubbd_req_get_pi r b))) ` set bs) q km q' km'"
  using assms
proof (induction bs arbitrary: q km)
  case Nil
  then show ?case by (simp add: released_refl)
next
  case (Cons b bs)
  then obtain i where i: "ubbd_req_get_pi r b = Some i" "unat i < length (data_bitmap q)" by auto
  obtain q1 km1 where s1: "ubbd_release_page q r b km = Some (q1, km1)" "pool_inv {} q1 km1"
      "released {unat i} q km q1 km1"
    using release_page_ok [OF Cons.prems(1) i Cons.prems(2)] by auto
  then have "inode_set q1" "length (data_bitmap q1) = length (data_bitmap q)"
    using Cons.prems(2) pool_frameD(4) [of q q1] by (auto simp: released_def)
  then obtain q' km' where s2: "release_seq bs r q1 km1 = Some (q', km')" "pool_inv {} q' km'"
      "released ((\<lambda>b. unat (the (ubbd_req_get_pi r b))) ` set bs) q1 km1 q' km'"
    using Cons.IH [OF s1(2)] Cons.prems(3) by auto
  show ?case
    using s1(1) s2 released_trans [OF s1(3) s2(3)] i by auto
qed

section \<open>Getting all pages of a request\<close>

definition rq_segs :: "ubbd_request \<Rightarrow> nat" where
  "rq_segs r = length (concat (rq_bio (ur_req r)))"

definition slots_taken :: "nat \<Rightarrow> 'a data_pool_scheme \<Rightarrow> nat list" where
  "slots_taken n q = fst (first_fit n (data_bitmap q))"

text \<open>A page in hand at the end of the loop is given back.\<close>

lemma spare_released:
  assumes "loop_result n 0 {} r q km (ret, b, np, r1, q1, km1)"
  shows "\<exists>q2 km2. (case np of None \<Rightarrow> Some (q1, km1) | Some p \<Rightarrow> release_page0 q1 p km1) = Some (q2, km2) \<and>
    loop_result n 0 {} r q km (ret, b, None, r1, q2, km2)"
proof (cases np)
  case None
  then show ?thesis using assms by simp
next
  case (Some p)
  have inv: "pool_inv {p} q1 km1" and p: "p \<notin> dom (km_pages km)"
    using assms Some by (auto simp: loop_result_def)
  obtain q2 km2 where rel: "release_page0 q1 p km1 = Some (q2, km2)" "pool_inv {} q2 km2"
      "q2 = q1\<lparr>data_pages_allocated := data_pages_allocated q1 - 1\<rparr>"
      "km2 = km1\<lparr>km_pages := (km_pages km1)(p := None)\<rparr>"
    using pool_inv_free [of p "{}" q1 km1] inv by auto
  have "got k 0 {} r q km r1 q2 km2" if "got k 0 {} r q km r1 q1 km1" for k
    using that p unfolding got_def rel(3,4) by auto
  then show ?thesis
    using assms rel(1,2) Some by (auto simp: loop_result_def)
qed

text \<open>What a failed acquisition leaves behind.\<close>

definition unchanged_use ::
  "ubbd_request \<Rightarrow> 'a data_pool_scheme \<Rightarrow> kmem \<Rightarrow> ubbd_request \<Rightarrow> 'a data_pool_scheme \<Rightarrow> kmem \<Rightarrow> bool" where
  "unchanged_use r q km r' q' km' \<longleftrightarrow>
     data_bitmap q' = data_bitmap q \<and> pool_frame q q' \<and> req_frame r r' \<and>
     (\<forall>i < length (data_bitmap q). data_bitmap q ! i \<longrightarrow> data_pages_array q' i = data_pages_array q i) \<and>
     user_ptes q' \<subseteq>\<^sub>m user_ptes q \<and>
     ran (data_pages_array q') \<subseteq> ran (data_pages_array q) \<union> - dom (km_pages km) \<and>
     (\<forall>p \<in> dom (km_pages km).
        (\<forall>i < length (data_bitmap q). data_pages_array q i = Some p \<longrightarrow> data_bitmap q ! i) \<longrightarrow>
        km_pages km' p = km_pages km p)"

lemma got_slots:
  assumes "got k 0 X r q km r' q' km'"
  shows "distinct (slots_taken k q)" "length (slots_taken k q) = k"
    "i \<in> set (slots_taken k q) \<Longrightarrow> i < length (data_bitmap q) \<and> \<not> data_bitmap q ! i"
    "i < length (data_bitmap q) \<Longrightarrow> data_bitmap q' ! i \<longleftrightarrow> data_bitmap q ! i \<or> i \<in> set (slots_taken k q)"
    "length (data_bitmap q') = length (data_bitmap q)"
    "j < k \<Longrightarrow> ubbd_req_get_pi r' j = Some (word_of_nat (slots_taken k q ! j))"
  using assms first_fit_slots [of k "data_bitmap q"] by (auto simp: got_def slots_taken_def)

lemma unat_of_slot: "pool_inv X q km \<Longrightarrow> i < length (data_bitmap q) \<Longrightarrow> unat (word_of_nat i :: u32) = i"
  by (simp add: pool_inv_def unat_of_nat take_bit_nat_eq_self)

lemma got_image:
  assumes "got k 0 X r q km r' q' km'" and "pool_inv Y q km"
  shows "(\<lambda>b. unat (the (ubbd_req_get_pi r' b))) ` {0..<k} = set (slots_taken k q)"
proof -
  have "unat (the (ubbd_req_get_pi r' b)) = slots_taken k q ! b" if "b < k" for b
    using got_slots(6) [OF assms(1) that] got_slots(2) [OF assms(1)]
      unat_of_slot [OF assms(2)] got_slots(3) [OF assms(1)] that by (metis nth_mem option.sel)
  then have "(\<lambda>b. unat (the (ubbd_req_get_pi r' b))) ` {0..<k} = (\<lambda>b. slots_taken k q ! b) ` {0..<k}"
    by simp
  then show ?thesis using got_slots(2) [OF assms(1)] by (auto simp: set_conv_nth)
qed

lemma release_undoes_got:
  assumes g: "got k 0 {} r q km r1 q1 km1" and inv: "pool_inv {} q km" and inv1: "pool_inv {} q1 km1"
    and rel: "released (set (slots_taken k q)) q1 km1 q' km'"
  shows "unchanged_use r q km r1 q' km'"
proof -
  note s = got_slots [OF g]
  have "data_bitmap q' ! i = data_bitmap q ! i" if "i < length (data_bitmap q)" for i
    using that rel s(3,4) [of i] s(5) unfolding released_def by auto
  then have bm: "data_bitmap q' = data_bitmap q"
    using rel s(5) by (intro nth_equalityI) (auto simp: released_def)
  have le: "data_pages_array q \<subseteq>\<^sub>m data_pages_array q1" using g by (simp add: got_def)
  have ar: "data_pages_array q' i = data_pages_array q i"
    if i: "i < length (data_bitmap q)" "data_bitmap q ! i" for i
  proof -
    have "i \<in> dom (data_pages_array q)" using inv i by (auto simp: pool_inv_def)
    moreover have "i \<notin> set (slots_taken k q)" using s(3) i by blast
    ultimately show ?thesis using rel le unfolding released_def map_le_def by metis
  qed
  have pg: "km_pages km' p = km_pages km p" if p: "p \<in> dom (km_pages km)"
    "\<forall>i < length (data_bitmap q). data_pages_array q i = Some p \<longrightarrow> data_bitmap q ! i" for p
  proof -
    have "data_pages_array q1 i \<noteq> Some p" if i: "i \<in> set (slots_taken k q)" for i
    proof
      assume a: "data_pages_array q1 i = Some p"
      then have "p \<in> ran (data_pages_array q)" using g p(1) unfolding got_def by (auto simp: ran_def)
      then obtain j where j: "data_pages_array q j = Some p" by (auto simp: ran_def)
      then have "data_pages_array q1 j = Some p" using le by (metis domI map_le_def)
      then have "j = i" using a inv1 by (auto simp: pool_inv_def inj_on_def dom_def)
      then show False using p(2) s(3) [OF i] j by blast
    qed
    then have "km_pages km' p = km_pages km1 p" using rel unfolding released_def by blast
    then show ?thesis using g p(1) by (simp add: got_def)
  qed
  have "pool_frame q q'" "req_frame r r1" "user_ptes q' \<subseteq>\<^sub>m user_ptes q"
    using g rel pool_frame_trans unfolding got_def released_def by (blast, blast, metis)
  moreover have "ran (data_pages_array q') \<subseteq> ran (data_pages_array q) \<union> - dom (km_pages km)"
  proof -
    have "ran (data_pages_array q') \<subseteq> ran (data_pages_array q1)"
      using rel by (auto simp: released_def ran_def map_le_def) (metis domI)
    then show ?thesis using g by (auto simp: got_def)
  qed
  ultimately show ?thesis using bm ar pg by (simp add: unchanged_use_def)
qed

lemma get_data_pages_cases:
  fixes q :: "'a data_pool_scheme"
  assumes inv: "pool_inv {} q km" and r: "pi_ok r" "rq_segs r \<le> pi_cap r"
    and bio: "rq_bio (ur_req r) \<noteq> []" and ino: "inode_set q"
  obtains (ok) r' q' km' where "ubbd_get_data_pages q r km = Some (0, r', q', km')"
      "pool_inv {} q' km'" "got (rq_segs r) 0 {} r q km r' q' km'"
  | (nomem) r' q' km' where "ubbd_get_data_pages q r km = Some (- ENOMEM, r', q', km')"
      "pool_inv {} q' km'" "unchanged_use r q km r' q' km'"
proof -
  obtain ret b np r1 q1 km1 where l: "get_pages_loop (rq_segs r) 0 None r q km = Some (ret, b, np, r1, q1, km1)"
      "loop_result (rq_segs r) 0 {} r q km (ret, b, np, r1, q1, km1)"
    using get_pages_loop_ok [of None q km r 0 "rq_segs r"] inv r by (metis add_0 option.set(1) prod_cases6)
  obtain q2 km2 where sp: "(case np of None \<Rightarrow> Some (q1, km1) | Some p \<Rightarrow> release_page0 q1 p km1) = Some (q2, km2)"
      and l2: "loop_result (rq_segs r) 0 {} r q km (ret, b, None, r1, q2, km2)"
    using spare_released [OF l(2)] by blast
  then obtain k where k: "b = k" "got k 0 {} r q km r1 q2 km2" "ret = 0 \<and> k = rq_segs r \<or> ret = - ENOMEM"
      and inv2: "pool_inv {} q2 km2"
    by (auto simp: loop_result_def)
  show ?thesis
  proof (cases "ret = 0")
    case True
    then have "ubbd_get_data_pages q r km = Some (0, r1, q2, km2)"
      using l(1) sp bio by (simp add: ubbd_get_data_pages_def rq_segs_def)
    then show ?thesis using ok k inv2 True by auto
  next
    case False
    note s = got_slots [OF k(2)]
    have "\<exists>i. ubbd_req_get_pi r1 j = Some i \<and> unat i < length (data_bitmap q2)" if "j < k" for j
      using that s(2,3,5,6) unat_of_slot [OF inv] by (metis nth_mem)
    then have pre: "\<forall>j \<in> set (rev [0..<k]). \<exists>i. ubbd_req_get_pi r1 j = Some i \<and> unat i < length (data_bitmap q2)"
      by simp
    have "inode_set q2" using k(2) ino pool_frameD(4) [of q q2] by (simp add: got_def)
    from release_seq_ok [OF inv2 this pre] obtain q3 km3 where
      rel: "release_down k r1 q2 km2 = Some (q3, km3)" "pool_inv {} q3 km3"
        "released (set (slots_taken k q)) q2 km2 q3 km3"
      using got_image [OF k(2) inv] by (auto simp: release_down_seq)
    have "ubbd_get_data_pages q r km = Some (- ENOMEM, r1, q3, km3)"
      using l(1) sp bio rel(1) False k(1,3) by (simp add: ubbd_get_data_pages_def rq_segs_def)
    then show ?thesis using nomem rel(2) release_undoes_got [OF k(2) inv inv2 rel(3)] by blast
  qed
qed

text \<open>Without allocation failures the loop succeeds as long as there are free slots.\<close>

lemma loop_no_fail:
  assumes "get_pages_loop n b np r q km = Some (ret, b', np', r', q', km')"
    and "km_oracle km = []" and "n \<le> free_slots (data_bitmap q)"
    and "length (data_bitmap q) = unat (data_pages q)"
  shows "ret = 0"
  using assms
proof (induction n b np r q km rule: get_pages_loop.induct)
  case (2 n b np r q km)
  let ?i = "find_first_zero_bit (data_bitmap q)"
  have i: "?i < length (data_bitmap q)"
    using 2(6) free_slots_zero [of "data_bitmap q"] ffz_le [of "data_bitmap q"] by linarith
  have fs: "n \<le> free_slots ((data_bitmap q)[?i := True])"
    using 2(6) free_slots_set [OF i ffz_clear [OF i]] by simp
  have t: "take_oracle km = (True, km)" using 2(5) by (simp add: take_oracle_def)
  show ?case
    using 2(4) i fs 2(5-7) t 2(1-3)
    by (subst (asm) get_pages_loop.simps)
      (auto simp: Let_def set_bit_q_def ubbd_xa_store_page_def ubbd_alloc_page_def alloc_page_def
        bind_eq_Some_conv split: option.splits)
qed simp

end
