(* ===== verification/Page_Maps.thy ===== *)
theory Page_Maps
  imports Data_Pages
begin

text \<open>
  What the page pool promises to its users: the acquisition of the pages of a request is
  total and atomic, slots are handed out first-fit, released pages are kept up to the
  reserve, and the backend's address space never keeps a translation to a page the
  driver has given up, as long as the byte offset of a slot fits an \<open>int\<close>.
\<close>

section \<open>Translations of the backend\<close>

definition data_pgoff :: "'a data_pool_scheme \<Rightarrow> nat" where
  "data_pgoff q = unat (data_off q) div 4096"

text \<open>Every translation of the data area leads to the page that backs the slot.\<close>

definition ptes_ok :: "'a data_pool_scheme \<Rightarrow> bool" where
  "ptes_ok q \<longleftrightarrow> (\<forall>i p. user_ptes q (data_pgoff q + i) = Some p \<longrightarrow> data_pages_array q i = Some p)"

definition data_off_ok :: "'a data_pool_scheme \<Rightarrow> bool" where
  "data_off_ok q \<longleftrightarrow> 4096 dvd unat (data_off q) \<and> unat (data_off q) < 2 ^ 62"

lemma sint_pos_u32: "unat (w :: u32) < 2 ^ 31 \<Longrightarrow> sint w = uint w"
  unfolding sint_uint by (rule signed_take_bit_int_eq_self) (auto simp: uint_numeral intro: order_trans [of _ 0])

lemma sint_neg_u32:
  assumes "2 ^ 31 \<le> unat (w :: u32)"
  shows "sint w = uint w - 2 ^ 32"
proof -
  have w: "2 ^ 31 \<le> uint w" "uint w < 2 ^ 32"
    using assms uint_lt2p [of w] by (auto simp: uint_numeral)
  then have "uint w div 2 ^ 31 = 1" by simp
  then have "bit (uint w) 31" by (simp add: bit_iff_odd)
  then show ?thesis
    using signed_take_bit_eq_take_bit_minus [of 31 "uint w"] w
    by (simp add: sint_uint take_bit_int_eq_self)
qed

lemma unat_times_4096: "unat (i :: u32) < 2 ^ 20 \<Longrightarrow> unat (i * 4096) = unat i * 4096"
  by (subst unat_mult_lem [THEN iffD1]) (simp_all)

lemma scast_nonneg: "unat (w :: u32) < 2 ^ 31 \<Longrightarrow> unat (signed w :: u64) = unat w"
  by (simp add: scast_eq sint_pos_u32 unsigned_ucast_eq take_bit_nat_eq_self)

lemma release_off_small:
  assumes "unat i < 2 ^ 19" and "data_off_ok q"
  shows "unat (drop_bit PAGE_SHIFT (release_off q i)) = data_pgoff q + unat i"
proof -
  have "unat (i * 4096) = unat i * 4096" using assms(1) by (intro unat_times_4096) simp
  then have "unat (signed (i * 4096) :: u64) = unat i * 4096" using assms(1) by (simp add: scast_nonneg)
  then have "unat (release_off q i) = unat (data_off q) + unat i * 4096"
    using assms unat_add_lem [of "data_off q" "signed (i * 4096)"]
    by (simp add: release_off_def data_off_ok_def)
  then show ?thesis
    using assms(2) by (simp add: data_pgoff_def data_off_ok_def drop_bit_eq_div unat_div div_plus_div_distrib_dvd_left)
qed

text \<open>The effect of a release that drops the page, field by field.\<close>

lemma release_drops_page:
  assumes pi: "ubbd_req_get_pi r b = Some i" "unat i < length (data_bitmap q)"
    and p: "data_pages_array q (unat i) = Some p" "p \<in> dom (km_pages km)"
    and al: "data_pages_reserved q < data_pages_allocated q" and ino: "inode_set q"
  shows "ubbd_release_page q r b km =
    Some (q\<lparr>data_bitmap := (data_bitmap q)[unat i := False],
            user_ptes := (user_ptes q)(unat (drop_bit PAGE_SHIFT (release_off q i)) := None),
            data_pages_array := (data_pages_array q)(unat i := None),
            data_pages_allocated := data_pages_allocated q - 1\<rparr>,
          km\<lparr>km_pages := (km_pages km)(p := None)\<rparr>)"
proof -
  have un: "(\<lambda>pg. if f \<le> pg \<and> pg < f + (2 + 4095) div 4096 then None else m pg) = m(f := None)"
    for f :: nat and m :: "nat \<rightharpoonup> page_id"
    by (auto simp: fun_eq_iff)
  show ?thesis
    using assms
    by (simp add: ubbd_release_page_def clear_bit_q_def ubbd_kring_unmap_range_def release_page0_def
        free_page_def release_off_def Let_def un [simplified] domIff)
qed

lemma release_keeps_page:
  assumes "ubbd_req_get_pi r b = Some i" "unat i < length (data_bitmap q)"
    and "\<not> data_pages_reserved q < data_pages_allocated q \<or> data_pages_array q (unat i) = None"
  shows "ubbd_release_page q r b km = Some (q\<lparr>data_bitmap := (data_bitmap q)[unat i := False]\<rparr>, km)"
  using assms by (auto simp: ubbd_release_page_def clear_bit_q_def)

lemma release_ptes_ok:
  assumes inv: "pool_inv {} q km" and pi: "ubbd_req_get_pi r b = Some i" "unat i < length (data_bitmap q)"
    and ino: "inode_set q" and small: "unat i < 2 ^ 19" and off: "data_off_ok q" and pt: "ptes_ok q"
    and rel: "ubbd_release_page q r b km = Some (q', km')"
  shows "ptes_ok q'"
proof (cases "data_pages_reserved q < data_pages_allocated q \<and> data_pages_array q (unat i) \<noteq> None")
  case False
  then show ?thesis
    using release_keeps_page [OF pi, of km] rel pt by (auto simp: ptes_ok_def data_pgoff_def)
next
  case True
  then obtain p where p: "data_pages_array q (unat i) = Some p" by blast
  then have live: "p \<in> dom (km_pages km)" using inv by (auto simp: pool_inv_def ran_def)
  show ?thesis
    using release_drops_page [OF pi p live] True ino rel pt release_off_small [OF small off]
    by (auto simp: ptes_ok_def data_pgoff_def simp del: drop_bit_eq_div split: if_splits)
qed

text \<open>Without allocation failures, the number of free slots decides.\<close>

lemma get_data_pages_decided:
  assumes "pool_inv {} q km" and "pi_ok r" and "rq_segs r \<le> pi_cap r"
    and "rq_bio (ur_req r) \<noteq> []" and "inode_set q" and "km_oracle km = []"
  shows "\<exists>r' q' km'. ubbd_get_data_pages q r km =
    Some (if rq_segs r \<le> free_slots (data_bitmap q) then 0 else - ENOMEM, r', q', km')"
proof (cases rule: get_data_pages_cases [OF assms(1-5)])
  case (1 r' q' km')
  then show ?thesis by (auto simp: got_def)
next
  case (2 r' q' km')
  have "\<not> rq_segs r \<le> free_slots (data_bitmap q)"
  proof
    assume fs: "rq_segs r \<le> free_slots (data_bitmap q)"
    obtain ret b np r1 q1 km1 where l: "get_pages_loop (rq_segs r) 0 None r q km = Some (ret, b, np, r1, q1, km1)"
        "loop_result (rq_segs r) 0 {} r q km (ret, b, np, r1, q1, km1)"
      using get_pages_loop_ok [of None q km r 0 "rq_segs r"] assms(1-3) by (metis add_0 option.set(1) prod_cases6)
    have "ret = 0" using loop_no_fail [OF l(1) assms(6) fs] assms(1) by (simp add: pool_inv_def)
    then show False
      using 2(1) l spare_released [OF l(2)] assms(4) by (auto simp: ubbd_get_data_pages_def rq_segs_def)
  qed
  then show ?thesis using 2(1) by auto
qed

section \<open>Properties\<close>

definition bv0 :: bio_vec where
  "bv0 = \<lparr>bv_page = 0, bv_offset = 0, bv_len = 512\<rparr>"

definition ur0 :: ubbd_request where
  "ur0 = \<lparr>ur_req = \<lparr>rq_op = REQ_OP_WRITE, rq_bio = [[bv0, bv0], [bv0]], rq_pos = 0, rq_bytes = 1536, rq_timeout = 0\<rparr>,
     ur_op = UBBD_OP_WRITE, ur_tid = 0, ur_pi_cnt = 3, ur_inline_pi = [0, 0, 0, 0], ur_pi = None, ur_se = None\<rparr>"

definition km0 :: "bool list \<Rightarrow> kmem" where
  "km0 bs = \<lparr>km_pages = [0 \<mapsto> (\<lambda>_. 7), 1 \<mapsto> (\<lambda>_. 0), 2 \<mapsto> (\<lambda>_. 0)], km_next = 3, km_oracle = bs, km_junk = (\<lambda>_. 255)\<rparr>"

text \<open>Four slots, two of them backed, one of these in use.\<close>

definition pool0 :: data_pool where
  "pool0 = \<lparr>cmdr_size = 256, cmd_head = 0, cmd_tail = 0, cmdr_mem = (\<lambda>_. zero_se),
     data_pages = 4, data_pages_allocated = 2, data_pages_reserved = 1,
     data_bitmap = [False, True, False, False], data_pages_array = [1 \<mapsto> 1, 3 \<mapsto> 2],
     data_off = 8192, inode_set = True, user_ptes = [3 \<mapsto> 1, 5 \<mapsto> 2]\<rparr>"

lemma all_less_four: "(\<forall>i < (4 :: nat). P i) \<longleftrightarrow> P 0 \<and> P 1 \<and> P 2 \<and> P 3"
proof -
  have "{i. i < (4 :: nat)} = {0, 1, 2, 3}" by auto
  then show ?thesis by (metis insert_iff mem_Collect_eq singleton_iff)
qed

lemma pool0_inv [simp]: "pool_inv {} pool0 (km0 bs)"
proof -
  have "\<forall>i < 4. [False, True, False, False] ! i \<longrightarrow> i = 1"
    by (simp add: all_less_four)
  then show ?thesis
    by (auto simp: pool_inv_def pool0_def km0_def inj_on_def ran_def split: if_splits)
qed

lemma ur0_ok [simp]: "pi_ok ur0" "rq_segs ur0 = 3" "pi_cap ur0 = 4" "rq_bio (ur_req ur0) \<noteq> []"
  by (simp_all add: pi_ok_def rq_segs_def pi_cap_def ur0_def)

text \<open>C16: Acquiring the pages of a request is total and atomic. Whatever allocations fail, it
  returns; it returns 0 with every segment given a slot, or \<open>-ENOMEM\<close> with the slots in use,
  their pages and their contents as they were. Either way the pool invariant holds: no
  page is leaked, freed twice, or backing two slots.\<close>

theorem get_data_pages_atomic:
  assumes "pool_inv {} q km" and "pi_ok r" and "rq_segs r \<le> pi_cap r"
    and "rq_bio (ur_req r) \<noteq> []" and "inode_set q"
  shows "\<exists>ret r' q' km'. ubbd_get_data_pages q r km = Some (ret, r', q', km') \<and> pool_inv {} q' km' \<and>
     (ret = 0 \<and> got (rq_segs r) 0 {} r q km r' q' km' \<or> ret = - ENOMEM \<and> unchanged_use r q km r' q' km')"
  by (rule get_data_pages_cases [OF assms]) blast+

theorem get_data_pages_atomic_witness:
  "\<exists>ret r' q' km'. ubbd_get_data_pages pool0 ur0 (km0 [True, False]) = Some (ret, r', q', km') \<and> pool_inv {} q' km' \<and>
     (ret = 0 \<and> got (rq_segs ur0) 0 {} ur0 pool0 (km0 [True, False]) r' q' km' \<or>
      ret = - ENOMEM \<and> unchanged_use ur0 pool0 (km0 [True, False]) r' q' km')"
  by (rule get_data_pages_atomic) (simp_all, simp add: pool0_def)

text \<open>A successful acquisition gives the segments distinct slots that were free, in the
  order of the segments; each slot is backed by a live page that backs no other slot, and
  no slot outside them changes its use.\<close>

theorem get_data_pages_slots:
  assumes "pool_inv {} q km" and "pi_ok r" and "rq_segs r \<le> pi_cap r"
    and "rq_bio (ur_req r) \<noteq> []" and "inode_set q"
    and "ubbd_get_data_pages q r km = Some (0, r', q', km')"
  shows "\<exists>slots. length slots = rq_segs r \<and> distinct slots \<and>
     (\<forall>i \<in> set slots. i < unat (data_pages q) \<and> \<not> data_bitmap q ! i) \<and>
     (\<forall>j < rq_segs r. ubbd_req_get_pi r' j = Some (word_of_nat (slots ! j)) \<and>
        (\<exists>p \<in> dom (km_pages km'). ubbd_req_get_page q' r' j = Some p \<and>
           (\<forall>i. data_pages_array q' i = Some p \<longrightarrow> i = slots ! j))) \<and>
     (\<forall>i < unat (data_pages q). data_bitmap q' ! i \<longleftrightarrow> data_bitmap q ! i \<or> i \<in> set slots)"
proof -
  have g: "got (rq_segs r) 0 {} r q km r' q' km'" and inv': "pool_inv {} q' km'"
    by (cases rule: get_data_pages_cases [OF assms(1-5)]; use assms(6) in simp)+
  let ?s = "slots_taken (rq_segs r) q"
  note s = got_slots [OF g]
  have len: "length (data_bitmap q) = unat (data_pages q)" using assms(1) by (simp add: pool_inv_def)
  have pg: "\<exists>p \<in> dom (km_pages km'). ubbd_req_get_page q' r' j = Some p \<and>
      (\<forall>i. data_pages_array q' i = Some p \<longrightarrow> i = ?s ! j)" if j: "j < rq_segs r" for j
  proof -
    have i: "?s ! j < length (data_bitmap q)" "data_bitmap q' ! (?s ! j)"
      using s(2,3,4) j by (metis nth_mem)+
    then have d: "?s ! j \<in> dom (data_pages_array q')" using inv' s(5) by (simp add: pool_inv_def)
    then obtain p where p: "data_pages_array q' (?s ! j) = Some p" by blast
    have "ubbd_req_get_page q' r' j = Some p"
      using s(6) [OF j] unat_of_slot [OF assms(1) i(1)] p by (simp add: ubbd_req_get_page_def)
    moreover have "i = ?s ! j" if "data_pages_array q' i = Some p" for i
      using inv' that p d by (auto simp: pool_inv_def inj_on_def dom_def)
    moreover have "p \<in> dom (km_pages km')" using inv' p by (auto simp: pool_inv_def ran_def)
    ultimately show ?thesis by blast
  qed
  show ?thesis
    using s pg len by (intro exI [of _ ?s]) auto
qed

lemma pool0_free: "free_slots (data_bitmap pool0) = 3"
  by (simp add: pool0_def free_slots_set [of 0] free_slots_set [of 2] free_slots_set [of 3]
      free_slots_zero find_first_zero_bit_def)

lemma km0_oracle [simp]: "km_oracle (km0 bs) = bs"
  by (simp add: km0_def)

theorem get_data_pages_slots_witness:
  "\<exists>r' q' km'. ubbd_get_data_pages pool0 ur0 (km0 []) = Some (0, r', q', km') \<and>
   (\<exists>slots. length slots = rq_segs ur0 \<and> distinct slots \<and>
     (\<forall>i \<in> set slots. i < unat (data_pages pool0) \<and> \<not> data_bitmap pool0 ! i) \<and>
     (\<forall>j < rq_segs ur0. ubbd_req_get_pi r' j = Some (word_of_nat (slots ! j)) \<and>
        (\<exists>p \<in> dom (km_pages km'). ubbd_req_get_page q' r' j = Some p \<and>
           (\<forall>i. data_pages_array q' i = Some p \<longrightarrow> i = slots ! j))) \<and>
     (\<forall>i < unat (data_pages pool0). data_bitmap q' ! i \<longleftrightarrow> data_bitmap pool0 ! i \<or> i \<in> set slots))"
proof -
  have ino: "inode_set pool0" by (simp add: pool0_def)
  then obtain r' q' km' where r: "ubbd_get_data_pages pool0 ur0 (km0 []) = Some (0, r', q', km')"
    using get_data_pages_decided [of pool0 "km0 []" ur0] by (auto simp: pool0_free km0_oracle)
  show ?thesis
    using get_data_pages_slots [OF _ _ _ _ _ r] ino r by (intro exI [of _ r'] exI [of _ q'] exI [of _ km'] conjI) simp_all
qed

text \<open>C17: When no allocation fails, a request gets its pages exactly when there are enough free
  slots: the pool has no other reason to make a request wait.\<close>

theorem get_data_pages_iff_free_slots:
  assumes "pool_inv {} q km" and "pi_ok r" and "rq_segs r \<le> pi_cap r"
    and "rq_bio (ur_req r) \<noteq> []" and "inode_set q" and "km_oracle km = []"
  shows "(\<exists>r' q' km'. ubbd_get_data_pages q r km = Some (0, r', q', km')) \<longleftrightarrow>
    rq_segs r \<le> free_slots (data_bitmap q)"
  using get_data_pages_decided [OF assms] by (auto split: if_splits)

theorem get_data_pages_iff_free_slots_witness:
  "(\<exists>r' q' km'. ubbd_get_data_pages pool0 ur0 (km0 []) = Some (0, r', q', km')) \<longleftrightarrow>
    rq_segs ur0 \<le> free_slots (data_bitmap pool0)"
  by (rule get_data_pages_iff_free_slots) (simp_all, simp_all add: pool0_def km0_def)

text \<open>C22: The translations of the backend stay coherent: releasing a slot whose index is below
  \<open>2 ^ 19\<close> leaves no translation to a page that no longer backs the slot: backend and driver
  always mean the same page by the same offset.\<close>

theorem release_keeps_translations_coherent:
  assumes "pool_inv {} q km" and "ubbd_req_get_pi r b = Some i" and "unat i < unat (data_pages q)"
    and "inode_set q" and "unat i < 2 ^ 19" and "data_off_ok q" and "ptes_ok q"
  shows "\<exists>q' km'. ubbd_release_page q r b km = Some (q', km') \<and> pool_inv {} q' km' \<and> ptes_ok q' \<and>
     \<not> data_bitmap q' ! unat i"
proof -
  have len: "unat i < length (data_bitmap q)" using assms(1,3) by (simp add: pool_inv_def)
  obtain q' km' where r: "ubbd_release_page q r b km = Some (q', km')" "pool_inv {} q' km'"
      "released {unat i} q km q' km'"
    using release_page_ok [OF assms(1,2) len assms(4)] by blast
  then show ?thesis
    using release_ptes_ok [OF assms(1,2) len assms(4-7) r(1)] len by (auto simp: released_def)
qed

theorem release_keeps_translations_coherent_witness:
  "\<exists>q' km'. ubbd_release_page pool0 (ur0\<lparr>ur_inline_pi := [1, 0, 0, 0]\<rparr>) 0 (km0 []) = Some (q', km') \<and>
     pool_inv {} q' km' \<and> ptes_ok q' \<and> \<not> data_bitmap q' ! unat (1 :: u32)"
proof (rule release_keeps_translations_coherent)
  show "ubbd_req_get_pi (ur0\<lparr>ur_inline_pi := [1, 0, 0, 0]\<rparr>) 0 = Some 1"
    by (simp add: ubbd_req_get_pi_def)
  show "ptes_ok pool0" by (auto simp: ptes_ok_def pool0_def data_pgoff_def split: if_splits)
qed (simp_all add: data_off_ok_def, simp_all add: pool0_def)

lemma release_off_large:
  assumes i: "2 ^ 19 \<le> unat i" "unat i < 2 ^ 20" and off: "data_off_ok q"
  shows "unat (drop_bit PAGE_SHIFT (release_off q i)) \<noteq> data_pgoff q + unat i"
proof
  assume eq: "unat (drop_bit PAGE_SHIFT (release_off q i)) = data_pgoff q + unat i"
  define D I where "D = uint (data_off q)" and "I = uint i"
  have u: "uint (i * 4096) = I * 4096" unfolding I_def
    using unat_times_4096 [OF i(2)] by (metis of_nat_mult of_nat_numeral uint_nat)
  have I: "2 ^ 19 \<le> I" "I < 2 ^ 20" unfolding I_def using i by (simp_all add: uint_numeral)
  have D: "0 \<le> D" "D < 2 ^ 62" unfolding D_def using off by (simp_all add: data_off_ok_def uint_numeral)
  have dvd: "D mod 4096 = 0" unfolding D_def
    using off zmod_int [of "unat (data_off q)" 4096] by (simp add: data_off_ok_def)
  have "sint (i * 4096) = I * 4096 - 2 ^ 32"
    using sint_neg_u32 [of "i * 4096"] unat_times_4096 [OF i(2)] i(1) u by simp
  then have "release_off q i = word_of_int (D + (I * 4096 - 2 ^ 32))"
    by (simp add: release_off_def scast_eq D_def)
  then have x: "uint (release_off q i) = (D + (I * 4096 - 2 ^ 32)) mod 2 ^ 64"
    by (simp only: uint_word_of_int) simp
  have "int (unat (release_off q i) div 4096) = int (unat (data_off q) div 4096) + int (unat i)"
    using eq by (simp add: data_pgoff_def drop_bit_eq_div unat_div)
  then have "uint (release_off q i) div 4096 = D div 4096 + I"
    by (simp add: zdiv_int [of _ 4096] D_def I_def)
  moreover have "uint (release_off q i) = D + I * 4096 - 2 ^ 32 \<or> uint (release_off q i) = D + I * 4096 - 2 ^ 32 + 2 ^ 64"
    using x I D mod_add_self2 [of "D + (I * 4096 - 2 ^ 32)" "2 ^ 64"]
    by (cases "D + (I * 4096 - 2 ^ 32) \<ge> 0") (simp_all add: mod_pos_pos_trivial)
  moreover obtain d where "D = 4096 * d" using dvd by auto
  ultimately show False
    using I D by (auto simp: algebra_simps)
qed

text \<open>Without that bound the property fails: for a slot index from \<open>2 ^ 19\<close> on, \<open>page_index * 4096\<close>
  exceeds an \<open>int\<close>, another range is unmapped, the driver gives the page up, and the
  backend keeps its translation to it.\<close>

theorem release_leaves_stale_translation:
  assumes "ubbd_req_get_pi r b = Some i" and "unat i < length (data_bitmap q)"
    and "data_pages_array q (unat i) = Some p" and "p \<in> dom (km_pages km)"
    and "data_pages_reserved q < data_pages_allocated q" and "inode_set q" and "data_off_ok q"
    and "2 ^ 19 \<le> unat i" and "unat i < 2 ^ 20" and "user_ptes q (data_pgoff q + unat i) = Some p"
  shows "\<exists>q' km'. ubbd_release_page q r b km = Some (q', km') \<and>
     p \<notin> dom (km_pages km') \<and> user_ptes q' (data_pgoff q + unat i) = Some p"
  using release_drops_page [OF assms(1-6)] release_off_large [OF assms(8,9,7)] assms(10) by simp

text \<open>A pool with a slot \<open>2 ^ 19\<close> in use, mapped by the backend.\<close>

definition pool_big :: data_pool where
  "pool_big = pool0\<lparr>data_pages := 2 ^ 19 + 1, data_pages_allocated := 1, data_pages_reserved := 0,
     data_bitmap := replicate (2 ^ 19 + 1) True, data_pages_array := [2 ^ 19 \<mapsto> 1],
     user_ptes := [2 ^ 19 + 2 \<mapsto> 1]\<rparr>"

theorem release_leaves_stale_translation_witness:
  "\<exists>q' km'. ubbd_release_page pool_big (ur0\<lparr>ur_inline_pi := [2 ^ 19, 0, 0, 0]\<rparr>) 0 (km0 []) = Some (q', km') \<and>
     1 \<notin> dom (km_pages km') \<and> user_ptes q' (data_pgoff pool_big + unat (2 ^ 19 :: u32)) = Some 1"
proof (rule release_leaves_stale_translation)
  show "ubbd_req_get_pi (ur0\<lparr>ur_inline_pi := [2 ^ 19, 0, 0, 0]\<rparr>) 0 = Some (2 ^ 19)"
    by (simp add: ubbd_req_get_pi_def)
qed (simp_all add: pool_big_def data_off_ok_def data_pgoff_def pool0_def km0_def)

text \<open>A release stops dropping pages at the reserve.\<close>

lemma release_page_reserve:
  assumes inv: "pool_inv {} q km" and rel: "ubbd_release_page q r b km = Some (q', km')"
  shows "min (unat (data_pages_allocated q)) (unat (data_pages_reserved q)) \<le> unat (data_pages_allocated q')"
    "data_pages_reserved q' = data_pages_reserved q"
  using rel
  by (auto simp: ubbd_release_page_def clear_bit_q_def ubbd_kring_unmap_range_def release_page0_def Let_def
      bind_eq_Some_conv unat_simps split: if_splits option.splits)

lemma release_reserve_seq:
  assumes "pool_inv {} q km" and "inode_set q"
    and "\<forall>b \<in> set bs. \<exists>i. ubbd_req_get_pi r b = Some i \<and> unat i < length (data_bitmap q)"
    and "release_seq bs r q km = Some (q', km')"
  shows "min (unat (data_pages_allocated q)) (unat (data_pages_reserved q)) \<le> unat (data_pages_allocated q')"
  using assms
proof (induction bs arbitrary: q km)
  case (Cons b bs)
  then obtain i where i: "ubbd_req_get_pi r b = Some i" "unat i < length (data_bitmap q)" by auto
  obtain q1 km1 where s1: "ubbd_release_page q r b km = Some (q1, km1)" "pool_inv {} q1 km1"
      "released {unat i} q km q1 km1"
    using release_page_ok [OF Cons.prems(1) i Cons.prems(2)] by auto
  have "inode_set q1" "length (data_bitmap q1) = length (data_bitmap q)"
    using s1(3) Cons.prems(2) pool_frameD(4) [of q q1] by (auto simp: released_def)
  then show ?case
    using Cons.IH [OF s1(2)] Cons.prems(3,4) s1(1) release_page_reserve [OF Cons.prems(1) s1(1)] by auto
qed simp

text \<open>A release that has to drop a page before any process has opened the kring device
  dereferences the NULL inode: the driver oopses.\<close>

theorem release_before_open_oops:
  assumes "ubbd_req_get_pi r b = Some i" and "data_pages_array q (unat i) \<noteq> None"
    and "data_pages_reserved q < data_pages_allocated q" and "\<not> inode_set q"
  shows "ubbd_release_page q r b km = None"
  using assms by (auto simp: ubbd_release_page_def clear_bit_q_def ubbd_kring_unmap_range_def)

theorem release_before_open_oops_witness:
  "ubbd_release_page (pool0\<lparr>inode_set := False\<rparr>) (ur0\<lparr>ur_inline_pi := [1, 0, 0, 0]\<rparr>) 0 (km0 []) = None"
  by (rule release_before_open_oops [where i = 1]) (simp_all add: pool0_def ubbd_req_get_pi_def)

end
