(* ===== verification/Request.thy ===== *)
theory Request
  imports Page_Maps
begin

text \<open>
  The request path (\<open>src/ubbd_req.c\<close>): from \<open>queue_rq\<close> through the work item that puts a
  request on the command ring, to the completion ring and the end of the request.

  A request is named by its tag; \<open>pdus\<close> maps a tag to its \<open>struct ubbd_request\<close>. The block
  layer's view is the log of what the driver told it. The whole \<open>struct ubbd_queue\<close> is the
  record of the page pool and the command ring, extended by the fields below.
\<close>

section \<open>State\<close>

datatype queue_status = UBBD_QUEUE_KSTATUS_RUNNING | UBBD_QUEUE_KSTATUS_STOPPING
  | UBBD_QUEUE_KSTATUS_STOPPED | UBBD_QUEUE_KSTATUS_REMOVING

text \<open>What the block layer is told of a request; the errno of an end is what
  \<open>errno_to_blk_status\<close> translates.\<close>

datatype blk_event = Started nat | Requeued nat | Ended nat int

datatype blk_status = BLK_STS_OK | BLK_STS_IOERR | BLK_STS_RESOURCE

record ubbd_ce =
  ce_priv_data :: u64
  ce_result :: int

record ubbd_queue = data_pool +
  q_status :: queue_status
  q_req_tid :: u64
  inflight_reqs :: "nat list"
  pdus :: "nat \<Rightarrow> ubbd_request"
  compr_size :: u32
  compr_head :: u32
  compr_tail :: u32
  compr_mem :: "nat \<Rightarrow> ubbd_ce"
  task_wq :: "nat list"                \<comment> \<open>tags whose work is queued\<close>
  kring_event :: u32                   \<comment> \<open>\<open>idev->event\<close> of the queue's kring device\<close>
  blk_log :: "blk_event list"

definition blk_tell :: "blk_event \<Rightarrow> ubbd_queue \<Rightarrow> ubbd_queue" where
  "blk_tell ev q = q\<lparr>blk_log := blk_log q @ [ev]\<rparr>"

definition ubbd_kring_event_notify :: "ubbd_queue \<Rightarrow> ubbd_queue" where
  "ubbd_kring_event_notify q = q\<lparr>kring_event := kring_event q + 1\<rparr>"

section \<open>Segments and data\<close>

definition ubbd_req_nodata :: "ubbd_request \<Rightarrow> bool option" where
  "ubbd_req_nodata r =
     (case ur_op r of
        UBBD_OP_WRITE \<Rightarrow> Some False
      | UBBD_OP_READ \<Rightarrow> Some False
      | UBBD_OP_DISCARD \<Rightarrow> Some True
      | UBBD_OP_WRITE_ZEROS \<Rightarrow> Some True
      | UBBD_OP_FLUSH \<Rightarrow> Some True
      | _ \<Rightarrow> None)"

text \<open>The sum over the chain of bios of \<open>bio_segments\<close>, in 32 bits.\<close>

definition ubbd_req_segments :: "ubbd_request \<Rightarrow> u32 option" where
  "ubbd_req_segments r = do {
     nodata \<leftarrow> ubbd_req_nodata r;
     if nodata then Some 0
     else Some (foldl (\<lambda>segs bio. segs + word_of_nat (length bio)) 0 (rq_bio (ur_req r)))
   }"

text \<open>\<open>memcpy(dst + off, src + off, len)\<close> between two mapped pages.\<close>

definition page_memcpy :: "page_id \<Rightarrow> page_id \<Rightarrow> nat \<Rightarrow> nat \<Rightarrow> kmem \<Rightarrow> kmem option" where
  "page_memcpy dst src off len km =
     (case (km_pages km dst, km_pages km src) of
        (Some d, Some s) \<Rightarrow>
          if off + len \<le> 4096
          then Some (km\<lparr>km_pages := (km_pages km)(dst \<mapsto>
                 (\<lambda>i. if off \<le> i \<and> i < off + len then s i else d i))\<rparr>)
          else None
      | _ \<Rightarrow> None)"

fun copy_to_loop :: "bio_vec list \<Rightarrow> nat \<Rightarrow> 'a data_pool_scheme \<Rightarrow> ubbd_request \<Rightarrow> kmem \<Rightarrow> kmem option" where
  "copy_to_loop [] bvec_index q r km = Some km"
| "copy_to_loop (bv # bvs) bvec_index q r km = do {
     page \<leftarrow> ubbd_req_get_page q r bvec_index;
     km1 \<leftarrow> page_memcpy page (bv_page bv) (bv_offset bv) (bv_len bv) km;
     copy_to_loop bvs (Suc bvec_index) q r km1
   }"

fun copy_from_loop :: "bio_vec list \<Rightarrow> nat \<Rightarrow> 'a data_pool_scheme \<Rightarrow> ubbd_request \<Rightarrow> kmem \<Rightarrow> kmem option" where
  "copy_from_loop [] bvec_index q r km = Some km"
| "copy_from_loop (bv # bvs) bvec_index q r km = do {
     page \<leftarrow> ubbd_req_get_page q r bvec_index;
     km1 \<leftarrow> page_memcpy (bv_page bv) page (bv_offset bv) (bv_len bv) km;
     copy_from_loop bvs (Suc bvec_index) q r km1
   }"

text \<open>Both walk the chain of bios; an empty chain is a NULL \<open>bio\<close>.\<close>

definition copy_data_to_ubbdreq :: "'a data_pool_scheme \<Rightarrow> ubbd_request \<Rightarrow> kmem \<Rightarrow> kmem option" where
  "copy_data_to_ubbdreq q r km =
     (if rq_bio (ur_req r) = [] then None else copy_to_loop (concat (rq_bio (ur_req r))) 0 q r km)"

definition copy_data_from_ubbdreq :: "'a data_pool_scheme \<Rightarrow> ubbd_request \<Rightarrow> kmem \<Rightarrow> kmem option" where
  "copy_data_from_ubbdreq q r km =
     (if rq_bio (ur_req r) = [] then None else copy_from_loop (concat (rq_bio (ur_req r))) 0 q r km)"

section \<open>Preparing a request\<close>

definition ubbd_get_cmd_size :: "ubbd_h \<Rightarrow> ubbd_request \<Rightarrow> u32" where
  "ubbd_get_cmd_size H r = round_up (sizeof_se H + sizeof_iovec * ur_pi_cnt r) (UBBD_OP_ALIGN_SIZE H)"

definition ubbd_req_pi_alloc :: "ubbd_request \<Rightarrow> kmem \<Rightarrow> int \<times> ubbd_request \<times> kmem" where
  "ubbd_req_pi_alloc r km =
     (let (ok, km1) = take_oracle km in
      if ok then (0, r\<lparr>ur_pi := Some (replicate (unat (ur_pi_cnt r - of_nat UBBD_REQ_INLINE_PI_MAX)) 0)\<rparr>, km1)
      else (- ENOMEM, r, km1))"

definition queue_req_prepare ::
  "ubbd_request \<Rightarrow> 'a data_pool_scheme \<Rightarrow> kmem \<Rightarrow> (int \<times> ubbd_request \<times> 'a data_pool_scheme \<times> kmem) option" where
  "queue_req_prepare r0 q0 km = do {
     segs \<leftarrow> ubbd_req_segments r0;
     let r1 = r0\<lparr>ur_pi_cnt := segs\<rparr>;
     let (ret, r2, km1) = (if ur_pi_cnt r1 > of_nat UBBD_REQ_INLINE_PI_MAX then ubbd_req_pi_alloc r1 km else (0, r1, km));
     if ret \<noteq> 0 then Some (ret, r2, q0, km1)
     else do {
       (ret, r3, q1, km2) \<leftarrow> (if ur_pi_cnt r2 \<noteq> 0 then ubbd_get_data_pages q0 r2 km1 else Some (0, r2, q0, km1));
       if ret \<noteq> 0 then Some (ret, r3, q1, km2)
       else if rq_op (ur_req r3) = REQ_OP_WRITE
       then do { km3 \<leftarrow> copy_data_to_ubbdreq q1 r3 km2; Some (0, r3, q1, km3) }
       else Some (0, r3, q1, km2)
     }
   }"

section \<open>Submitting a request\<close>

text \<open>The entry is written at the head of the ring before the head moves.\<close>

definition queue_req_se_init :: "ubbd_h \<Rightarrow> ubbd_request \<Rightarrow> 'a cmd_ring_scheme \<Rightarrow> (ubbd_request \<times> 'a cmd_ring_scheme) option" where
  "queue_req_se_init H r q = do {
     let offset = push_bit 9 (rq_pos (ur_req r));
     let length0 = ucast (rq_bytes (ur_req r));
     let se = get_submit_entry q;
     q1 \<leftarrow> cmdr_memset se (unat (ubbd_get_cmd_size H r)) q;
     let w1 = hdr_set_op H (ur_op r) (se_len_op (cmdr_mem q1 se));
     let w2 = hdr_set_len H (ubbd_get_cmd_size H r) w1;
     let q2 = cmdr_store se ((cmdr_mem q1 se)\<lparr>se_len_op := w2, se_priv_data := ur_tid r, se_offset := offset,
                se_len := length0, se_iov_cnt := ur_pi_cnt r\<rparr>) q1;
     Some (r\<lparr>ur_se := Some se\<rparr>, q2)
   }"

text \<open>
  \<open>ubbd_set_se_iov\<close>: the iovec of segment \<open>bvec_index\<close> is written behind the entry; a write
  outside the ring is \<open>None\<close>.
\<close>

fun set_iov_loop :: "ubbd_h \<Rightarrow> nat \<Rightarrow> bio_vec list \<Rightarrow> nat \<Rightarrow> ubbd_request \<Rightarrow> 'a data_pool_scheme \<Rightarrow> 'a data_pool_scheme option" where
  "set_iov_loop H se [] bvec_index r q = Some q"
| "set_iov_loop H se (bv # bvs) bvec_index r q = do {
     page_index \<leftarrow> ubbd_req_get_pi r bvec_index;
     if se + unat (sizeof_se H) + unat sizeof_iovec * Suc bvec_index \<le> unat (cmdr_size q)
     then (let e = cmdr_mem q se;
               iov_base = ucast page_index * PAGE_SIZE + data_off q + of_nat (bv_offset bv)
           in set_iov_loop H se bvs (Suc bvec_index) r
                (cmdr_store se (e\<lparr>se_iov := se_iov e @ [(iov_base, of_nat (bv_len bv))]\<rparr>) q))
     else None
   }"

definition ubbd_set_se_iov :: "ubbd_h \<Rightarrow> ubbd_request \<Rightarrow> 'a data_pool_scheme \<Rightarrow> 'a data_pool_scheme option" where
  "ubbd_set_se_iov H r q = do {
     se \<leftarrow> ur_se r;
     if rq_bio (ur_req r) = [] then None
     else set_iov_loop H se (concat (rq_bio (ur_req r))) 0 r q
   }"

definition queue_req_data_init :: "ubbd_h \<Rightarrow> ubbd_request \<Rightarrow> 'a data_pool_scheme \<Rightarrow> 'a data_pool_scheme option" where
  "queue_req_data_init H r q = (if ur_pi_cnt r \<noteq> 0 then ubbd_set_se_iov H r q else Some q)"

text \<open>
  \<open>ubbd_queue_workfn\<close> in the sections between which other code can run: the status check,
  the preparation, the insertion into the inflight list, the section under \<open>cmdr_lock\<close>, and
  the label \<open>end_request\<close>.
\<close>

definition workfn_end_request :: "nat \<Rightarrow> int \<Rightarrow> ubbd_queue \<Rightarrow> ubbd_queue" where
  "workfn_end_request tag ret q =
     (if ret = - ENOMEM \<or> ret = - EBUSY then blk_tell (Requeued tag) q else blk_tell (Ended tag ret) q)"

definition workfn_status :: "ubbd_queue \<Rightarrow> int" where
  "workfn_status q =
     (case q_status q of
        UBBD_QUEUE_KSTATUS_RUNNING \<Rightarrow> 0
      | UBBD_QUEUE_KSTATUS_REMOVING \<Rightarrow> - EIO
      | UBBD_QUEUE_KSTATUS_STOPPING \<Rightarrow> - EBUSY
      | UBBD_QUEUE_KSTATUS_STOPPED \<Rightarrow> - EBUSY)"

definition workfn_prepare :: "nat \<Rightarrow> ubbd_queue \<Rightarrow> kmem \<Rightarrow> (int \<times> ubbd_queue \<times> kmem) option" where
  "workfn_prepare tag q km = do {
     (ret, r, q1, km1) \<leftarrow> queue_req_prepare (pdus q tag) q km;
     Some (ret, q1\<lparr>pdus := (pdus q1)(tag := r)\<rparr>, km1)
   }"

definition workfn_inflight :: "nat \<Rightarrow> ubbd_queue \<Rightarrow> ubbd_queue" where
  "workfn_inflight tag q = q\<lparr>inflight_reqs := inflight_reqs q @ [tag]\<rparr>"

definition workfn_submit :: "ubbd_h \<Rightarrow> nat \<Rightarrow> ubbd_queue \<Rightarrow> ubbd_queue option" where
  "workfn_submit H tag q =
     (let command_size = ubbd_get_cmd_size H (pdus q tag) in
      if \<not> submit_ring_space_enough H q command_size
      then Some (workfn_end_request tag (- ENOMEM) (q\<lparr>inflight_reqs := remove1 tag (inflight_reqs q)\<rparr>))
      else do {
        q1 \<leftarrow> insert_padding H command_size q;
        let q2 = q1\<lparr>q_req_tid := q_req_tid q1 + 1\<rparr>;
        let r1 = (pdus q2 tag)\<lparr>ur_tid := q_req_tid q2\<rparr>;
        (r2, q3) \<leftarrow> queue_req_se_init H r1 q2;
        q4 \<leftarrow> queue_req_data_init H r2 q3;
        let q5 = q4\<lparr>pdus := (pdus q4)(tag := r2)\<rparr>;
        let q6 = q5\<lparr>cmd_head := UPDATE_CMDR_HEAD (cmd_head q5) (ubbd_get_cmd_size H r2) (cmdr_size q5)\<rparr>;
        Some (ubbd_kring_event_notify q6)
      })"

definition ubbd_queue_workfn :: "ubbd_h \<Rightarrow> nat \<Rightarrow> ubbd_queue \<Rightarrow> kmem \<Rightarrow> (ubbd_queue \<times> kmem) option" where
  "ubbd_queue_workfn H tag q km =
     (if workfn_status q \<noteq> 0 then Some (workfn_end_request tag (workfn_status q) q, km)
      else do {
        (ret, q1, km1) \<leftarrow> workfn_prepare tag q km;
        if ret \<noteq> 0 then Some (workfn_end_request tag ret q1, km1)
        else do {
          q2 \<leftarrow> workfn_submit H tag (workfn_inflight tag q1);
          Some (q2, km1)
        }
      })"

text \<open>
  \<open>ubbd_queue_rq\<close>. \<open>zero_ur\<close> is the zeroed \<open>struct ubbd_request\<close>; its back pointer \<open>req\<close> is
  not read before \<open>ubbd_req_init\<close> sets it, and is the request it belongs to.
\<close>

definition zero_ur :: "ubbd_h \<Rightarrow> request \<Rightarrow> ubbd_request" where
  "zero_ur H rq = \<lparr>ur_req = rq, ur_op = op_zero H, ur_tid = 0, ur_pi_cnt = 0,
     ur_inline_pi = replicate UBBD_REQ_INLINE_PI_MAX 0, ur_pi = None, ur_se = None\<rparr>"

definition ubbd_req_init :: "nat \<Rightarrow> ubbd_op \<Rightarrow> request \<Rightarrow> ubbd_queue \<Rightarrow> ubbd_queue" where
  "ubbd_req_init tag oc rq q = q\<lparr>pdus := (pdus q)(tag := (pdus q tag)\<lparr>ur_req := rq, ur_op := oc\<rparr>)\<rparr>"

definition ubbd_queue_rq :: "ubbd_h \<Rightarrow> nat \<Rightarrow> request \<Rightarrow> ubbd_queue \<Rightarrow> blk_status \<times> ubbd_queue" where
  "ubbd_queue_rq H tag rq q =
     (if q_status q = UBBD_QUEUE_KSTATUS_REMOVING then (BLK_STS_IOERR, q)
      else if q_status q = UBBD_QUEUE_KSTATUS_STOPPING \<or> q_status q = UBBD_QUEUE_KSTATUS_STOPPED
      then (BLK_STS_RESOURCE, q)
      else
        let q1 = q\<lparr>pdus := (pdus q)(tag := zero_ur H rq)\<rparr>;
            q2 = blk_tell (Started tag) q1;
            go = (\<lambda>oc. let q3 = ubbd_req_init tag oc rq q2 in
                       (BLK_STS_OK, q3\<lparr>task_wq := task_wq q3 @ [tag]\<rparr>))
        in case rq_op rq of
             REQ_OP_FLUSH \<Rightarrow> go UBBD_OP_FLUSH
           | REQ_OP_DISCARD \<Rightarrow> go UBBD_OP_DISCARD
           | REQ_OP_WRITE_ZEROES \<Rightarrow> go UBBD_OP_WRITE_ZEROS
           | REQ_OP_WRITE \<Rightarrow> go UBBD_OP_WRITE
           | REQ_OP_READ \<Rightarrow> go UBBD_OP_READ
           | _ \<Rightarrow> (BLK_STS_IOERR, q2))"

section \<open>Completing requests\<close>

definition get_complete_entry :: "ubbd_queue \<Rightarrow> nat option" where
  "get_complete_entry q = (if compr_tail q = compr_head q then None else Some (unat (compr_tail q)))"

definition UPDATE_COMPR_TAIL :: "u32 \<Rightarrow> u32 \<Rightarrow> u32 \<Rightarrow> u32" where
  "UPDATE_COMPR_TAIL tail used sz = ((tail mod sz) + used) mod sz"

definition ubbd_req_release :: "ubbd_request \<Rightarrow> 'a data_pool_scheme \<Rightarrow> kmem \<Rightarrow> (ubbd_request \<times> 'a data_pool_scheme \<times> kmem) option" where
  "ubbd_req_release r q km = do {
     (q1, km1) \<leftarrow> release_seq [0..<unat (ur_pi_cnt r)] r q km;
     Some (r\<lparr>ur_pi := None\<rparr>, q1, km1)
   }"

definition fetch_inflight_req :: "u64 \<Rightarrow> ubbd_queue \<Rightarrow> nat option \<times> ubbd_queue" where
  "fetch_inflight_req req_tid q =
     (case find (\<lambda>tag. ur_tid (pdus q tag) = req_tid) (inflight_reqs q) of
        None \<Rightarrow> (None, q)
      | Some tag \<Rightarrow>
          let q1 = q\<lparr>inflight_reqs := remove1 tag (inflight_reqs q)\<rparr> in
          (Some tag,
           if q_status q1 = UBBD_QUEUE_KSTATUS_STOPPING \<and> inflight_reqs q1 = []
           then q1\<lparr>q_status := UBBD_QUEUE_KSTATUS_STOPPED\<rparr> else q1))"

definition complete_inflight_req :: "ubbd_h \<Rightarrow> nat \<Rightarrow> int \<Rightarrow> ubbd_queue \<Rightarrow> kmem \<Rightarrow> (ubbd_queue \<times> kmem) option" where
  "complete_inflight_req H tag ret q km = do {
     se \<leftarrow> ur_se (pdus q tag);
     let q1 = mark_se_done H se q;
     (r, q2, km1) \<leftarrow> ubbd_req_release (pdus q1 tag) q1 km;
     let q3 = blk_tell (Ended tag ret) (q2\<lparr>pdus := (pdus q2)(tag := r)\<rparr>);
     q4 \<leftarrow> advance_cmd_ring H q3;
     Some (q4, km1)
   }"

text \<open>
  One round of the \<open>again\<close> loop for a completion entry, and the loop. The loop of
  \<open>complete_work_fn\<close> is the same text.
\<close>

definition complete_one :: "ubbd_h \<Rightarrow> ubbd_ce \<Rightarrow> ubbd_queue \<Rightarrow> kmem \<Rightarrow> (ubbd_queue \<times> kmem) option" where
  "complete_one H ce q km =
     (case fetch_inflight_req (ce_priv_data ce) q of
        (None, q1) \<Rightarrow> Some (q1, km)
      | (Some tag, q1) \<Rightarrow> do {
          km1 \<leftarrow> (if rq_op (ur_req (pdus q1 tag)) = REQ_OP_READ
                  then copy_data_from_ubbdreq q1 (pdus q1 tag) km else Some km);
          complete_inflight_req H tag (ce_result ce) q1 km1
        })"

partial_function (option) complete_loop :: "ubbd_h \<Rightarrow> ubbd_queue \<Rightarrow> kmem \<Rightarrow> (ubbd_queue \<times> kmem) option" where
  "complete_loop H q km =
     (case get_complete_entry q of
        None \<Rightarrow> Some (q, km)
      | Some off \<Rightarrow>
          Option.bind
            (complete_one H (compr_mem q off)
               (q\<lparr>compr_tail := UPDATE_COMPR_TAIL (compr_tail q) (sizeof_ce H) (compr_size q)\<rparr>) km)
            (\<lambda>(q1, km1). complete_loop H q1 km1))"

definition ubbd_queue_complete :: "ubbd_h \<Rightarrow> ubbd_queue \<Rightarrow> kmem \<Rightarrow> (ubbd_queue \<times> kmem) option" where
  "ubbd_queue_complete H q km =
     (if q_status q = UBBD_QUEUE_KSTATUS_REMOVING then Some (q, km) else complete_loop H q km)"

definition complete_work_fn :: "ubbd_h \<Rightarrow> ubbd_queue \<Rightarrow> kmem \<Rightarrow> (ubbd_queue \<times> kmem) option" where
  "complete_work_fn H q km =
     (if q_status q = UBBD_QUEUE_KSTATUS_REMOVING then Some (q, km) else complete_loop H q km)"

fun end_loop :: "ubbd_h \<Rightarrow> int \<Rightarrow> nat list \<Rightarrow> ubbd_queue \<Rightarrow> kmem \<Rightarrow> (ubbd_queue \<times> kmem) option" where
  "end_loop H ret [] q km = Some (q, km)"
| "end_loop H ret (tag # tags) q km = do {
     (q1, km1) \<leftarrow> complete_inflight_req H tag ret q km;
     end_loop H ret tags q1 km1
   }"

definition ubbd_queue_end_inflight_reqs :: "ubbd_h \<Rightarrow> int \<Rightarrow> ubbd_queue \<Rightarrow> kmem \<Rightarrow> (ubbd_queue \<times> kmem) option" where
  "ubbd_queue_end_inflight_reqs H ret q km = end_loop H ret (inflight_reqs q) (q\<lparr>inflight_reqs := []\<rparr>) km"

end
