(* ===== verification/Request_Inv.thy ===== *)
theory Request_Inv
  imports Request
begin

text \<open>
  The invariant of the request path and what each step does to it: the data copied
  between bios and data pages, the slots each outstanding request owns, and the entry
  each of them has on the command ring.
\<close>

section \<open>Frames\<close>

lemma queue_frameD:
  fixes q q' :: ubbd_queue
  assumes "pool_frame q q'"
  shows "q_status q' = q_status q" "q_req_tid q' = q_req_tid q" "inflight_reqs q' = inflight_reqs q"
    "pdus q' = pdus q" "compr_size q' = compr_size q" "compr_head q' = compr_head q"
    "compr_tail q' = compr_tail q" "compr_mem q' = compr_mem q" "task_wq q' = task_wq q"
    "kring_event q' = kring_event q" "blk_log q' = blk_log q"
proof -
  note c = assms [unfolded pool_frame_def pool_rest_def]
  show "q_status q' = q_status q" using arg_cong [OF c, of q_status] by simp
  show "q_req_tid q' = q_req_tid q" using arg_cong [OF c, of q_req_tid] by simp
  show "inflight_reqs q' = inflight_reqs q" using arg_cong [OF c, of inflight_reqs] by simp
  show "pdus q' = pdus q" using arg_cong [OF c, of pdus] by simp
  show "compr_size q' = compr_size q" using arg_cong [OF c, of compr_size] by simp
  show "compr_head q' = compr_head q" using arg_cong [OF c, of compr_head] by simp
  show "compr_tail q' = compr_tail q" using arg_cong [OF c, of compr_tail] by simp
  show "compr_mem q' = compr_mem q" using arg_cong [OF c, of compr_mem] by simp
  show "task_wq q' = task_wq q" using arg_cong [OF c, of task_wq] by simp
  show "kring_event q' = kring_event q" using arg_cong [OF c, of kring_event] by simp
  show "blk_log q' = blk_log q" using arg_cong [OF c, of blk_log] by simp
qed

text \<open>The pool invariant depends on which pages are live, not on their contents.\<close>

definition same_live :: "kmem \<Rightarrow> kmem \<Rightarrow> bool" where
  "same_live km km' \<longleftrightarrow> dom (km_pages km') = dom (km_pages km) \<and> km_next km' = km_next km"

lemma same_live_pool: "same_live km km' \<Longrightarrow> pool_inv X q km' = pool_inv X q km"
  by (simp add: same_live_def pool_inv_def)

lemma pool_inv_cong:
  assumes "data_bitmap b = data_bitmap a" "data_pages b = data_pages a"
    "data_pages_array b = data_pages_array a" "data_pages_allocated b = data_pages_allocated a"
  shows "pool_inv X b km = pool_inv X a km"
  using assms by (simp add: pool_inv_def)

section \<open>Copying segments\<close>

text \<open>A copy is a destination, a source, an offset and a length; copies run in order.\<close>

type_synonym copy = "page_id \<times> page_id \<times> nat \<times> nat"

fun run_copies :: "copy list \<Rightarrow> kmem \<Rightarrow> kmem option" where
  "run_copies [] km = Some km"
| "run_copies ((dst, src, off, len) # cs) km = do { km1 \<leftarrow> page_memcpy dst src off len km; run_copies cs km1 }"

definition copy_ok :: "kmem \<Rightarrow> copy \<Rightarrow> bool" where
  "copy_ok km c = (case c of (dst, src, off, len) \<Rightarrow>
     dst \<in> dom (km_pages km) \<and> src \<in> dom (km_pages km) \<and> off + len \<le> 4096)"

abbreviation c_dst :: "copy \<Rightarrow> page_id" where "c_dst c \<equiv> fst c"
abbreviation c_src :: "copy \<Rightarrow> page_id" where "c_src c \<equiv> fst (snd c)"
abbreviation c_off :: "copy \<Rightarrow> nat" where "c_off c \<equiv> fst (snd (snd c))"
abbreviation c_len :: "copy \<Rightarrow> nat" where "c_len c \<equiv> snd (snd (snd c))"

abbreviation in_range :: "copy \<Rightarrow> nat \<Rightarrow> bool" where
  "in_range c k \<equiv> c_off c \<le> k \<and> k < c_off c + c_len c"

text \<open>No two copies write the same byte.\<close>

definition copies_disjoint :: "copy list \<Rightarrow> bool" where
  "copies_disjoint cs \<longleftrightarrow>
     (\<forall>i < length cs. \<forall>j < length cs. i \<noteq> j \<longrightarrow> c_dst (cs ! i) = c_dst (cs ! j) \<longrightarrow>
        (\<forall>k. \<not> (in_range (cs ! i) k \<and> in_range (cs ! j) k)))"

definition byte_at :: "kmem \<Rightarrow> page_id \<Rightarrow> nat \<Rightarrow> u8" where
  "byte_at km p k = (case km_pages km p of Some f \<Rightarrow> f k | None \<Rightarrow> 0)"

lemma page_memcpy_ok:
  assumes "copy_ok km (dst, src, off, len)"
  shows "\<exists>km'. page_memcpy dst src off len km = Some km' \<and> same_live km km' \<and>
    (\<forall>p k. byte_at km' p k = (if p = dst \<and> off \<le> k \<and> k < off + len then byte_at km src k else byte_at km p k))"
  using assms
  by (auto simp: copy_ok_def page_memcpy_def same_live_def byte_at_def)

lemma run_copies_ok:
  assumes "\<forall>c \<in> set cs. copy_ok km c"
  shows "\<exists>km'. run_copies cs km = Some km' \<and> same_live km km' \<and>
    (\<forall>p k. (\<forall>c \<in> set cs. \<not> (c_dst c = p \<and> in_range c k)) \<longrightarrow> byte_at km' p k = byte_at km p k)"
  using assms
proof (induction cs arbitrary: km)
  case (Cons c cs)
  obtain dst src off len where c: "c = (dst, src, off, len)" by (metis prod_cases4)
  obtain km1 where m: "page_memcpy dst src off len km = Some km1" "same_live km km1"
      "\<And>p k. byte_at km1 p k = (if p = dst \<and> off \<le> k \<and> k < off + len then byte_at km src k else byte_at km p k)"
    using page_memcpy_ok [of km dst src off len] Cons.prems c by auto
  have "\<forall>c \<in> set cs. copy_ok km1 c"
    using Cons.prems m(2) by (auto simp: copy_ok_def same_live_def)
  from Cons.IH [OF this] obtain km' where km': "run_copies cs km1 = Some km'" "same_live km1 km'"
      "\<forall>p k. (\<forall>c \<in> set cs. \<not> (c_dst c = p \<and> in_range c k)) \<longrightarrow> byte_at km' p k = byte_at km1 p k" by blast
  then show ?case
    using m by (auto simp: c same_live_def)
qed (simp add: same_live_def)

text \<open>Copies whose sources are no destinations, and that do not overlap, all arrive.\<close>

lemma run_copies_data:
  assumes "run_copies cs km = Some km'" and "\<forall>c \<in> set cs. copy_ok km c" and "copies_disjoint cs"
    and "\<forall>c \<in> set cs. \<forall>d \<in> set cs. c_src c \<noteq> c_dst d" and "c \<in> set cs" and "in_range c k"
  shows "byte_at km' (c_dst c) k = byte_at km (c_src c) k"
  using assms
proof (induction cs arbitrary: km)
  case (Cons d cs)
  obtain dst src off len where d: "d = (dst, src, off, len)" by (metis prod_cases4)
  obtain km1 where m: "page_memcpy dst src off len km = Some km1" "same_live km km1"
      "\<And>p k. byte_at km1 p k = (if p = dst \<and> off \<le> k \<and> k < off + len then byte_at km src k else byte_at km p k)"
    using page_memcpy_ok [of km dst src off len] Cons.prems(2) d by auto
  have ok1: "\<forall>c \<in> set cs. copy_ok km1 c"
    using Cons.prems(2) m(2) by (auto simp: copy_ok_def same_live_def)
  have run: "run_copies cs km1 = Some km'" using Cons.prems(1) m(1) by (simp add: d)
  have dj: "copies_disjoint cs" using Cons.prems(3) unfolding copies_disjoint_def
    by (metis Suc_less_eq length_Cons nat.inject nth_Cons_Suc)
  show ?case
  proof (cases "c \<in> set cs")
    case True
    then have "byte_at km' (c_dst c) k = byte_at km1 (c_src c) k"
      using Cons.IH [OF run ok1 dj] Cons.prems(4,6) by auto
    moreover have "c_src c \<noteq> dst" using Cons.prems(4) True d by force
    ultimately show ?thesis by (simp add: m(3))
  next
    case False
    then have c: "c = d" using Cons.prems(5) by auto
    have "\<not> (c_dst e = dst \<and> in_range e k)" if e: "e \<in> set cs" for e
    proof -
      obtain j where j: "j < length cs" "e = cs ! j" using e by (metis in_set_conv_nth)
      have "c_dst d = c_dst e \<longrightarrow> \<not> (in_range d k \<and> in_range e k)"
        using Cons.prems(3) [unfolded copies_disjoint_def, rule_format, of 0 "Suc j"] j by auto
      then show ?thesis using Cons.prems(6) c d by auto
    qed
    then have "byte_at km' dst k = byte_at km1 dst k"
      using run_copies_ok [OF ok1] run by auto
    then show ?thesis using c d m(3) Cons.prems(6) by simp
  qed
qed simp

text \<open>The two copy loops of the driver as lists of copies.\<close>

definition copies_to :: "'a data_pool_scheme \<Rightarrow> ubbd_request \<Rightarrow> nat \<Rightarrow> bio_vec list \<Rightarrow> copy list" where
  "copies_to q r b bvs = map (\<lambda>j. (the (ubbd_req_get_page q r (b + j)), bv_page (bvs ! j), bv_offset (bvs ! j), bv_len (bvs ! j)))
     [0..<length bvs]"

definition copies_from :: "'a data_pool_scheme \<Rightarrow> ubbd_request \<Rightarrow> nat \<Rightarrow> bio_vec list \<Rightarrow> copy list" where
  "copies_from q r b bvs = map (\<lambda>j. (bv_page (bvs ! j), the (ubbd_req_get_page q r (b + j)), bv_offset (bvs ! j), bv_len (bvs ! j)))
     [0..<length bvs]"

lemma map_upt_Suc_shift: "map f [0..<Suc n] = f 0 # map (\<lambda>j. f (Suc j)) [0..<n]"
  by (simp add: upt_conv_Cons map_Suc_upt [symmetric] comp_def del: upt_Suc)

lemma copies_Cons:
  "copies_to q r b (bv # bvs) = (the (ubbd_req_get_page q r b), bv_page bv, bv_offset bv, bv_len bv) # copies_to q r (Suc b) bvs"
  "copies_from q r b (bv # bvs) = (bv_page bv, the (ubbd_req_get_page q r b), bv_offset bv, bv_len bv) # copies_from q r (Suc b) bvs"
  by (simp_all add: copies_to_def copies_from_def map_upt_Suc_shift del: upt_Suc)

lemma copy_loops:
  assumes "\<forall>j < length bvs. ubbd_req_get_page q r (b + j) \<noteq> None"
  shows "copy_to_loop bvs b q r km = run_copies (copies_to q r b bvs) km"
    and "copy_from_loop bvs b q r km = run_copies (copies_from q r b bvs) km"
proof -
  show "copy_to_loop bvs b q r km = run_copies (copies_to q r b bvs) km"
    using assms
  proof (induction bvs arbitrary: b km)
    case (Cons bv bvs)
    have "ubbd_req_get_page q r b \<noteq> None" "\<forall>j < length bvs. ubbd_req_get_page q r (Suc b + j) \<noteq> None"
      using Cons.prems by (force, auto)
    then show ?case using Cons.IH by (auto simp: copies_Cons split: bind_splits)
  qed (simp add: copies_to_def)
  show "copy_from_loop bvs b q r km = run_copies (copies_from q r b bvs) km"
    using assms
  proof (induction bvs arbitrary: b km)
    case (Cons bv bvs)
    have "ubbd_req_get_page q r b \<noteq> None" "\<forall>j < length bvs. ubbd_req_get_page q r (Suc b + j) \<noteq> None"
      using Cons.prems by (force, auto)
    then show ?case using Cons.IH by (auto simp: copies_Cons split: bind_splits)
  qed (simp add: copies_from_def)
qed

section \<open>Preparing a request\<close>

definition data_req :: "ubbd_request \<Rightarrow> bool" where
  "data_req r \<longleftrightarrow> ur_op r = UBBD_OP_READ \<or> ur_op r = UBBD_OP_WRITE"

text \<open>The number of data pages a request needs.\<close>

definition need :: "ubbd_request \<Rightarrow> nat" where
  "need r = (if data_req r then rq_segs r else 0)"

text \<open>
  What the block layer hands over: an operation the driver knows, a bio chain for data
  operations with at most \<open>USHRT_MAX\<close> segments (the limit the driver sets), each within one
  live page that is not a data page of the queue.
\<close>

definition bio_ok :: "'a data_pool_scheme \<Rightarrow> kmem \<Rightarrow> ubbd_request \<Rightarrow> bool" where
  "bio_ok q km r \<longleftrightarrow> (\<forall>bv \<in> set (concat (rq_bio (ur_req r))).
     bv_page bv \<in> dom (km_pages km) - ran (data_pages_array q) \<and> bv_offset bv + bv_len bv \<le> 4096)"

definition rq_wf :: "'a data_pool_scheme \<Rightarrow> kmem \<Rightarrow> ubbd_request \<Rightarrow> bool" where
  "rq_wf q km r \<longleftrightarrow>
     ur_op r \<noteq> UBBD_OP_PAD \<and> (rq_op (ur_req r) = REQ_OP_READ \<longleftrightarrow> ur_op r = UBBD_OP_READ) \<and>
     (rq_op (ur_req r) = REQ_OP_WRITE \<longleftrightarrow> ur_op r = UBBD_OP_WRITE) \<and>
     (data_req r \<longrightarrow> rq_bio (ur_req r) \<noteq> [] \<and> bio_ok q km r) \<and> rq_segs r < 2 ^ 16"

lemma foldl_segs:
  "foldl (\<lambda>segs bio. segs + word_of_nat (length bio)) a bs = a + (word_of_nat (length (concat bs)) :: u32)"
  by (induction bs arbitrary: a) simp_all

lemma segments_need: "ur_op r \<noteq> UBBD_OP_PAD \<Longrightarrow> ubbd_req_segments r = Some (word_of_nat (need r))"
  by (cases "ur_op r")
    (simp_all add: ubbd_req_segments_def ubbd_req_nodata_def need_def data_req_def foldl_segs rq_segs_def)

definition slot_of :: "ubbd_request \<Rightarrow> nat \<Rightarrow> nat" where
  "slot_of r j = unat (the (ubbd_req_get_pi r j))"

definition owned :: "ubbd_request \<Rightarrow> nat set" where
  "owned r = slot_of r ` {0..<unat (ur_pi_cnt r)}"

text \<open>The outcome of a successful preparation.\<close>

definition data_written :: "ubbd_request \<Rightarrow> kmem \<Rightarrow> 'a data_pool_scheme \<Rightarrow> kmem \<Rightarrow> bool" where
  "data_written r km q' km' \<longleftrightarrow> (\<forall>j < need r. \<forall>p k. data_pages_array q' (slot_of r j) = Some p \<longrightarrow>
     (let bv = concat (rq_bio (ur_req r)) ! j in
      bv_offset bv \<le> k \<and> k < bv_offset bv + bv_len bv \<longrightarrow> byte_at km' p k = byte_at km (bv_page bv) k))"

definition prep_req :: "ubbd_request \<Rightarrow> ubbd_request \<Rightarrow> bool" where
  "prep_req r r' \<longleftrightarrow> ur_req r' = ur_req r \<and> ur_op r' = ur_op r \<and> ur_tid r' = ur_tid r \<and> ur_se r' = ur_se r \<and>
     pi_ok r' \<and> unat (ur_pi_cnt r') = need r \<and> need r \<le> pi_cap r' \<and> inj_on (slot_of r') {0..<need r} \<and>
     (\<forall>j < need r. ubbd_req_get_pi r' j \<noteq> None)"

definition prep_ok :: "ubbd_request \<Rightarrow> 'a data_pool_scheme \<Rightarrow> kmem \<Rightarrow> ubbd_request \<Rightarrow> 'a data_pool_scheme \<Rightarrow> kmem \<Rightarrow> bool" where
  "prep_ok r q km r' q' km' \<longleftrightarrow>
     prep_req r r' \<and>
     (\<forall>i \<in> owned r'. i < length (data_bitmap q) \<and> \<not> data_bitmap q ! i) \<and>
     length (data_bitmap q') = length (data_bitmap q) \<and>
     (\<forall>i < length (data_bitmap q). data_bitmap q' ! i \<longleftrightarrow> data_bitmap q ! i \<or> i \<in> owned r') \<and>
     data_pages_array q \<subseteq>\<^sub>m data_pages_array q' \<and>
     ran (data_pages_array q') \<subseteq> ran (data_pages_array q) \<union> - dom (km_pages km) \<and>
     pool_frame q q' \<and> user_ptes q' = user_ptes q \<and>
     (\<forall>p \<in> dom (km_pages km). (\<forall>i \<in> owned r'. data_pages_array q' i \<noteq> Some p) \<longrightarrow> km_pages km' p = km_pages km p) \<and>
     dom (km_pages km) \<subseteq> dom (km_pages km')"

lemma slot_of_slots:
  assumes "got n 0 X r q km r' q' km'" and "pool_inv Y q km0'" and "j < n"
  shows "slot_of r' j = slots_taken n q ! j"
  using got_slots(6) [OF assms(1,3)] unat_of_slot [OF assms(2)] got_slots(2,3) [OF assms(1)] assms(3)
  by (metis nth_mem option.sel slot_of_def)

lemma got_prep:
  assumes g: "got (need r) 0 {} r2 q km1 r' q' km'" and inv: "pool_inv {} q km1"
    and r2: "ur_req r2 = ur_req r" "ur_op r2 = ur_op r" "ur_tid r2 = ur_tid r" "ur_se r2 = ur_se r"
      "unat (ur_pi_cnt r2) = need r" "need r \<le> pi_cap r2"
    and km1: "km_pages km1 = km_pages km"
  shows "prep_ok r q km r' q' km'"
proof -
  note s = got_slots [OF g]
  have rf: "req_frame r2 r'" using g by (simp add: got_def)
  then have cnt: "unat (ur_pi_cnt r') = need r" by (simp add: req_frame_def r2)
  have sl: "slot_of r' j = slots_taken (need r) q ! j" if "j < need r" for j
    by (rule slot_of_slots [OF g inv that])
  have ow: "owned r' = set (slots_taken (need r) q)"
    unfolding owned_def cnt using sl s(2) by (auto simp: set_conv_nth image_iff)
  have "inj_on (slot_of r') {0..<need r}"
    using sl s(1,2) by (auto simp: inj_on_def nth_eq_iff_index_eq)
  then have pr: "prep_req r r'"
    using rf r2 cnt s(6) by (auto simp: prep_req_def req_frame_def)
  have eq: "\<forall>p \<in> dom (km_pages km). km_pages km' p = km_pages km p" using g km1 by (simp add: got_def)
  then have "dom (km_pages km) \<subseteq> dom (km_pages km')" by (auto simp: dom_def)
  then show ?thesis
    using pr g ow s(3-5) eq km1 unfolding prep_ok_def by (auto simp: got_def)
qed

text \<open>The page behind each segment of a prepared request.\<close>

lemma seg_pages:
  assumes inv: "pool_inv {} q km" and pr: "prep_req r r'"
    and used: "\<forall>i \<in> owned r'. i < length (data_bitmap q) \<and> data_bitmap q ! i" and j: "j < need r"
  shows "\<exists>p. ubbd_req_get_page q r' j = Some p \<and> data_pages_array q (slot_of r' j) = Some p \<and>
    p \<in> dom (km_pages km) \<and> p \<in> ran (data_pages_array q) \<and> slot_of r' j \<in> owned r'"
proof -
  have own: "slot_of r' j \<in> owned r'" using j pr by (simp add: owned_def prep_req_def)
  obtain p where p: "data_pages_array q (slot_of r' j) = Some p"
    using inv used own unfolding pool_inv_def by blast
  moreover have "ubbd_req_get_page q r' j = Some p"
    using pr j p by (auto simp: ubbd_req_get_page_def slot_of_def prep_req_def split: option.splits)
  moreover have "p \<in> dom (km_pages km)" "p \<in> ran (data_pages_array q)"
    using inv p by (auto simp: pool_inv_def ran_def)
  ultimately show ?thesis using own by blast
qed

lemma seg_pages_inj:
  assumes inv: "pool_inv {} q km" and pr: "prep_req r r'"
    and used: "\<forall>i \<in> owned r'. i < length (data_bitmap q) \<and> data_bitmap q ! i"
    and ij: "i < need r" "j < need r" "ubbd_req_get_page q r' i = ubbd_req_get_page q r' j"
  shows "i = j"
proof -
  have "data_pages_array q (slot_of r' i) = data_pages_array q (slot_of r' j)"
    "slot_of r' i \<in> dom (data_pages_array q)" "slot_of r' j \<in> dom (data_pages_array q)"
    using seg_pages [OF inv pr used ij(1)] seg_pages [OF inv pr used ij(2)] ij(3) by auto
  then have "slot_of r' i = slot_of r' j" using inv by (auto simp: pool_inv_def inj_on_def)
  then show ?thesis using pr ij by (auto simp: prep_req_def inj_on_def)
qed

text \<open>Copying the data of a write into its pages, and of a read out of them.\<close>

lemma copy_to_ok:
  assumes inv: "pool_inv {} q km" and pr: "prep_req r r'" and n: "need r = rq_segs r"
    and used: "\<forall>i \<in> owned r'. i < length (data_bitmap q) \<and> data_bitmap q ! i"
    and bio: "rq_bio (ur_req r) \<noteq> []" "bio_ok q km r"
  shows "\<exists>km'. copy_data_to_ubbdreq q r' km = Some km' \<and> same_live km km' \<and>
    (\<forall>p k. (\<forall>i \<in> owned r'. data_pages_array q i \<noteq> Some p) \<longrightarrow> byte_at km' p k = byte_at km p k) \<and>
    data_written r' km q km'"
proof -
  let ?bvs = "concat (rq_bio (ur_req r))"
  define cs where "cs = copies_to q r' 0 ?bvs"
  have len: "length ?bvs = need r" "length cs = need r" using n by (simp_all add: rq_segs_def cs_def copies_to_def)
  note pg = seg_pages [OF inv pr used]
  have nth: "cs ! j = (the (ubbd_req_get_page q r' j), bv_page (?bvs ! j), bv_offset (?bvs ! j), bv_len (?bvs ! j))"
    if "j < need r" for j
    using that by (simp add: cs_def copies_to_def len)
  have cs: "\<exists>j < need r. c = cs ! j" if "c \<in> set cs" for c using that len by (metis in_set_conv_nth)
  have bv: "bv_page (?bvs ! j) \<in> dom (km_pages km) - ran (data_pages_array q) \<and> bv_offset (?bvs ! j) + bv_len (?bvs ! j) \<le> 4096"
    if "j < need r" for j
    using that len nth_mem [of j ?bvs] bio(2) unfolding bio_ok_def by metis
  have okj: "copy_ok km (cs ! j)" if "j < need r" for j
    using pg [OF that] bv [OF that] nth [OF that] by (auto simp: copy_ok_def)
  then have ok: "\<forall>c \<in> set cs. copy_ok km c" using cs by metis
  have "i = j" if ij: "i < need r" "j < need r" "c_dst (cs ! i) = c_dst (cs ! j)" for i j
    using seg_pages_inj [OF inv pr used ij(1,2)] pg [OF ij(1)] pg [OF ij(2)] ij nth by auto
  then have dj: "copies_disjoint cs" by (auto simp: copies_disjoint_def len)
  have ran: "c_dst (cs ! j) \<in> ran (data_pages_array q)" "c_src (cs ! j) \<notin> ran (data_pages_array q)" if "j < need r" for j
    using pg [OF that] bv [OF that] nth [OF that] by auto
  have src: "\<forall>c \<in> set cs. \<forall>d \<in> set cs. c_src c \<noteq> c_dst d"
    using cs ran by metis
  have loop: "copy_data_to_ubbdreq q r' km = run_copies cs km"
    using copy_loops(1) [of ?bvs q r' 0 km] pg pr bio(1) len
    by (auto simp: copy_data_to_ubbdreq_def cs_def prep_req_def)
  obtain km' where km': "run_copies cs km = Some km'" "same_live km km'"
      "\<forall>p k. (\<forall>c \<in> set cs. \<not> (c_dst c = p \<and> in_range c k)) \<longrightarrow> byte_at km' p k = byte_at km p k"
    using run_copies_ok [OF ok] by blast
  have fr: "byte_at km' p k = byte_at km p k" if p: "\<forall>i \<in> owned r'. data_pages_array q i \<noteq> Some p" for p k
  proof -
    have "c_dst (cs ! j) \<noteq> p" if "j < need r" for j using pg [OF that] nth [OF that] p by auto
    then show ?thesis using km'(3) cs by metis
  qed
  have "byte_at km' p k = byte_at km (bv_page (?bvs ! j)) k"
    if j: "j < need r" and p: "data_pages_array q (slot_of r' j) = Some p"
      and k: "bv_offset (?bvs ! j) \<le> k" "k < bv_offset (?bvs ! j) + bv_len (?bvs ! j)" for j p k
    using run_copies_data [OF km'(1) ok dj src, of "cs ! j" k] j len(2) k nth [OF j] pg [OF j] p nth_mem [of j cs]
    by auto
  moreover have "need r' = need r" "ur_req r' = ur_req r"
    using pr by (auto simp: need_def data_req_def rq_segs_def prep_req_def)
  ultimately have "data_written r' km q km'" by (auto simp: data_written_def Let_def)
  then show ?thesis using loop km' fr by auto
qed

text \<open>No two segments of the request share a byte.\<close>

definition segs_disjoint :: "ubbd_request \<Rightarrow> bool" where
  "segs_disjoint r \<longleftrightarrow> (let bvs = concat (rq_bio (ur_req r)) in
     \<forall>i < length bvs. \<forall>j < length bvs. i \<noteq> j \<longrightarrow> bv_page (bvs ! i) = bv_page (bvs ! j) \<longrightarrow>
       bv_offset (bvs ! i) + bv_len (bvs ! i) \<le> bv_offset (bvs ! j) \<or>
       bv_offset (bvs ! j) + bv_len (bvs ! j) \<le> bv_offset (bvs ! i))"

definition data_read :: "ubbd_request \<Rightarrow> 'a data_pool_scheme \<Rightarrow> kmem \<Rightarrow> kmem \<Rightarrow> bool" where
  "data_read r q km km' \<longleftrightarrow> (\<forall>j < need r. \<forall>p k. data_pages_array q (slot_of r j) = Some p \<longrightarrow>
     (let bv = concat (rq_bio (ur_req r)) ! j in
      bv_offset bv \<le> k \<and> k < bv_offset bv + bv_len bv \<longrightarrow> byte_at km' (bv_page bv) k = byte_at km p k))"

lemma copy_from_ok:
  assumes inv: "pool_inv {} q km" and pr: "prep_req r r" and n: "need r = rq_segs r"
    and used: "\<forall>i \<in> owned r. i < length (data_bitmap q) \<and> data_bitmap q ! i"
    and bio: "rq_bio (ur_req r) \<noteq> []" "bio_ok q km r"
  shows "\<exists>km'. copy_data_from_ubbdreq q r km = Some km' \<and> same_live km km' \<and>
    (\<forall>p k. p \<notin> bv_page ` set (concat (rq_bio (ur_req r))) \<longrightarrow> byte_at km' p k = byte_at km p k) \<and>
    (segs_disjoint r \<longrightarrow> data_read r q km km')"
proof -
  let ?bvs = "concat (rq_bio (ur_req r))"
  define cs where "cs = copies_from q r 0 ?bvs"
  have len: "length ?bvs = need r" "length cs = need r" using n by (simp_all add: rq_segs_def cs_def copies_from_def)
  note pg = seg_pages [OF inv pr used]
  have nth: "cs ! j = (bv_page (?bvs ! j), the (ubbd_req_get_page q r j), bv_offset (?bvs ! j), bv_len (?bvs ! j))"
    if "j < need r" for j
    using that by (simp add: cs_def copies_from_def len)
  have cs: "\<exists>j < need r. c = cs ! j" if "c \<in> set cs" for c using that len by (metis in_set_conv_nth)
  have bv: "bv_page (?bvs ! j) \<in> dom (km_pages km) - ran (data_pages_array q) \<and> bv_offset (?bvs ! j) + bv_len (?bvs ! j) \<le> 4096"
    if "j < need r" for j
    using that len nth_mem [of j ?bvs] bio(2) unfolding bio_ok_def by metis
  have okj: "copy_ok km (cs ! j)" if "j < need r" for j
    using pg [OF that] bv [OF that] nth [OF that] by (auto simp: copy_ok_def)
  then have ok: "\<forall>c \<in> set cs. copy_ok km c" using cs by metis
  have ran: "c_src (cs ! j) \<in> ran (data_pages_array q)" "c_dst (cs ! j) \<notin> ran (data_pages_array q)" if "j < need r" for j
    using pg [OF that] bv [OF that] nth [OF that] by auto
  have src: "\<forall>c \<in> set cs. \<forall>d \<in> set cs. c_src c \<noteq> c_dst d"
    using cs ran by metis
  have loop: "copy_data_from_ubbdreq q r km = run_copies cs km"
    using copy_loops(2) [of ?bvs q r 0 km] pg bio(1) len by (auto simp: copy_data_from_ubbdreq_def cs_def)
  obtain km' where km': "run_copies cs km = Some km'" "same_live km km'"
      "\<forall>p k. (\<forall>c \<in> set cs. \<not> (c_dst c = p \<and> in_range c k)) \<longrightarrow> byte_at km' p k = byte_at km p k"
    using run_copies_ok [OF ok] by blast
  have fr: "byte_at km' p k = byte_at km p k" if p: "p \<notin> bv_page ` set ?bvs" for p k
  proof -
    have "c_dst (cs ! j) \<noteq> p" if "j < need r" for j using nth [OF that] nth_mem [of j ?bvs] len that p by auto
    then show ?thesis using km'(3) cs by metis
  qed
  have "data_read r q km km'" if sd: "segs_disjoint r"
  proof -
    have dj: "copies_disjoint cs"
    proof -
      have "\<not> (in_range (cs ! i) k \<and> in_range (cs ! j) k)"
        if ij: "i < need r" "j < need r" "i \<noteq> j" "c_dst (cs ! i) = c_dst (cs ! j)" for i j k
        using sd [unfolded segs_disjoint_def Let_def, rule_format, of i j] ij len nth [OF ij(1)] nth [OF ij(2)] by auto
      then show ?thesis unfolding copies_disjoint_def len by blast
    qed
    have "byte_at km' (bv_page (?bvs ! j)) k = byte_at km p k"
      if j: "j < need r" and p: "data_pages_array q (slot_of r j) = Some p"
        and k: "bv_offset (?bvs ! j) \<le> k" "k < bv_offset (?bvs ! j) + bv_len (?bvs ! j)" for j p k
      using run_copies_data [OF km'(1) ok dj src, of "cs ! j" k] j len(2) k nth [OF j] pg [OF j] p nth_mem [of j cs]
      by auto
    then show ?thesis by (auto simp: data_read_def Let_def)
  qed
  then show ?thesis using loop km' fr by auto
qed

lemma dom_of_bytes:
  assumes "same_live km km'" and "\<forall>k. byte_at km' p k = byte_at km p k"
  shows "km_pages km' p = km_pages km p"
proof (cases "km_pages km p")
  case None
  then show ?thesis using assms(1) by (metis domIff same_live_def)
next
  case (Some f)
  then have "p \<in> dom (km_pages km')" using assms(1) by (auto simp: same_live_def)
  then obtain g where g: "km_pages km' p = Some g" by blast
  then show ?thesis using assms(2) Some by (auto simp: byte_at_def)
qed

lemma prep_ok_copied:
  assumes pr: "prep_ok r q km r' q' km1" and live: "same_live km1 km2"
    and fr: "\<forall>p k. (\<forall>i \<in> owned r'. data_pages_array q' i \<noteq> Some p) \<longrightarrow> byte_at km2 p k = byte_at km1 p k"
  shows "prep_ok r q km r' q' km2"
proof -
  have "km_pages km2 p = km_pages km1 p" if "\<forall>i \<in> owned r'. data_pages_array q' i \<noteq> Some p" for p
    using dom_of_bytes [OF live] fr that by blast
  moreover have "dom (km_pages km2) = dom (km_pages km1)" using live by (simp add: same_live_def)
  ultimately show ?thesis using pr by (simp add: prep_ok_def)
qed

lemma bio_ok_prep:
  assumes "bio_ok q km r" and "prep_ok r q km r' q' km'"
  shows "bio_ok q' km' r"
proof -
  have "p \<in> dom (km_pages km') - ran (data_pages_array q')" if "p \<in> dom (km_pages km) - ran (data_pages_array q)" for p
    using that assms(2) unfolding prep_ok_def by blast
  then show ?thesis using assms(1) unfolding bio_ok_def by blast
qed

text \<open>The array of page indices is allocated when the inline array is too small.\<close>

lemma pi_alloc_cases:
  fixes r :: ubbd_request
  assumes r1: "r1 = r\<lparr>ur_pi_cnt := word_of_nat (need r)\<rparr>" and n: "need r < 2 ^ 16"
    and r: "pi_ok r" "ur_pi r = None"
    and al: "(if ur_pi_cnt r1 > of_nat UBBD_REQ_INLINE_PI_MAX then ubbd_req_pi_alloc r1 km else (0, r1, km)) = (ret, r2, km1)"
  shows "km_pages km1 = km_pages km" "km_next km1 = km_next km" "ret = 0 \<or> ret = - ENOMEM"
    "pi_ok r2" "ur_req r2 = ur_req r" "ur_op r2 = ur_op r" "ur_tid r2 = ur_tid r" "ur_se r2 = ur_se r"
    "ur_pi_cnt r2 = word_of_nat (need r)" "ret = 0 \<Longrightarrow> need r \<le> pi_cap r2"
    "km_oracle km = [] \<Longrightarrow> ret = 0 \<and> km_oracle km1 = []"
proof -
  obtain ok km0 where t: "take_oracle km = (ok, km0)" by fastforce
  have km: "km_pages km0 = km_pages km" "km_next km0 = km_next km"
    using take_oracle_frame [of km] t by simp_all
  have u: "unat (word_of_nat (need r) :: u32) = need r"
    using n by (simp add: unat_of_nat take_bit_nat_eq_self)
  have gt: "ur_pi_cnt r1 > of_nat UBBD_REQ_INLINE_PI_MAX \<longleftrightarrow> need r > UBBD_REQ_INLINE_PI_MAX"
    by (simp add: r1 word_less_nat_alt u)
  show "km_pages km1 = km_pages km" "km_next km1 = km_next km" "ret = 0 \<or> ret = - ENOMEM"
    "pi_ok r2" "ur_req r2 = ur_req r" "ur_op r2 = ur_op r" "ur_tid r2 = ur_tid r" "ur_se r2 = ur_se r"
    "ur_pi_cnt r2 = word_of_nat (need r)"
    using al t km r by (auto simp: ubbd_req_pi_alloc_def r1 pi_ok_def split: if_splits)
  show "ret = 0 \<and> km_oracle km1 = []" if "km_oracle km = []"
    using al that by (auto simp: ubbd_req_pi_alloc_def take_oracle_def split: if_splits)
  show "need r \<le> pi_cap r2" if "ret = 0"
  proof (cases "need r > UBBD_REQ_INLINE_PI_MAX")
    case True
    then have "unat (word_of_nat (need r) - 4 :: u32) = need r - 4"
      by (simp add: unat_minus_u32 u)
    then show ?thesis
      using al t that gt True by (auto simp: ubbd_req_pi_alloc_def r1 pi_cap_def split: if_splits)
  next
    case False
    then show ?thesis by (simp add: pi_cap_def)
  qed
qed

lemma need_small: "rq_wf q km r \<Longrightarrow> need r < 2 ^ 16" "rq_wf q km r \<Longrightarrow> unat (word_of_nat (need r) :: u32) = need r"
  by (auto simp: rq_wf_def need_def unat_of_nat take_bit_nat_eq_self)

lemma prepare_unfold:
  assumes wf: "rq_wf q km r" and r1: "r1 = r\<lparr>ur_pi_cnt := word_of_nat (need r)\<rparr>" and cnt: "ur_pi_cnt r2 = word_of_nat (need r)"
    and al: "(if ur_pi_cnt r1 > of_nat UBBD_REQ_INLINE_PI_MAX then ubbd_req_pi_alloc r1 km else (0, r1, km)) = (ret, r2, km1)"
  shows "queue_req_prepare r q km =
      (if ret \<noteq> 0 then Some (ret, r2, q, km1)
       else Option.bind (if need r \<noteq> 0 then ubbd_get_data_pages q r2 km1 else Some (0, r2, q, km1))
        (\<lambda>(ret, r3, q1, km2). if ret \<noteq> 0 then Some (ret, r3, q1, km2)
           else if rq_op (ur_req r3) = REQ_OP_WRITE
           then do { km3 \<leftarrow> copy_data_to_ubbdreq q1 r3 km2; Some (0, r3, q1, km3) }
           else Some (0, r3, q1, km2)))"
proof -
  have segs: "ubbd_req_segments r = Some (word_of_nat (need r))" using wf by (intro segments_need) (simp add: rq_wf_def)
  have nz: "(ur_pi_cnt r2 \<noteq> 0) = (need r \<noteq> 0)" using cnt need_small(2) [OF wf] by (simp add: word_unat_eq_iff)
  show ?thesis unfolding queue_req_prepare_def segs Let_def Option.bind.simps r1 [symmetric] al split_conv nz by (rule refl)
qed

text \<open>The data of a write reaches the slots of the request.\<close>

lemma prepare_write:
  assumes wf: "rq_wf q km r" and wr: "ur_op r = UBBD_OP_WRITE" and inv: "pool_inv {} q1 km2" and pr: "prep_ok r q km r3 q1 km2"
    and got: "got (need r) 0 {} r2 q km1 r3 q1 km2" and km1: "km_pages km1 = km_pages km"
  shows "\<exists>km3. copy_data_to_ubbdreq q1 r3 km2 = Some km3 \<and> pool_inv {} q1 km3 \<and> prep_ok r q km r3 q1 km3 \<and> data_written r3 km q1 km3"
proof -
  have nd: "need r = rq_segs r" "data_req r" using wr by (simp_all add: need_def data_req_def)
  have bio: "rq_bio (ur_req r) \<noteq> []" "bio_ok q km r" using wf nd by (simp_all add: rq_wf_def)
  have us: "\<forall>i \<in> owned r3. i < length (data_bitmap q1) \<and> data_bitmap q1 ! i" and prr: "prep_req r r3" using pr by (simp_all add: prep_ok_def)
  obtain km3 where c: "copy_data_to_ubbdreq q1 r3 km2 = Some km3" "same_live km2 km3"
      "\<forall>p k. (\<forall>i \<in> owned r3. data_pages_array q1 i \<noteq> Some p) \<longrightarrow> byte_at km3 p k = byte_at km2 p k" "data_written r3 km2 q1 km3"
    using copy_to_ok [OF inv prr nd(1) us bio(1) bio_ok_prep [OF bio(2) pr]] by blast
  have same: "byte_at km2 (bv_page bv) k = byte_at km (bv_page bv) k" if "bv \<in> set (concat (rq_bio (ur_req r)))" for bv k
    using that bio(2) got km1 by (auto simp: bio_ok_def got_def byte_at_def)
  have "need r3 = length (concat (rq_bio (ur_req r)))" "ur_req r3 = ur_req r"
    using prr nd by (simp_all add: need_def data_req_def rq_segs_def prep_req_def)
  then have "data_written r3 km q1 km3" using c(4) same nth_mem [of _ "concat (rq_bio (ur_req r))"]
    unfolding data_written_def Let_def by metis
  then show ?thesis using c(1) inv same_live_pool [OF c(2)] prep_ok_copied [OF pr c(2,3)] by blast
qed

lemma prepare_cases:
  fixes q :: "'a data_pool_scheme"
  assumes inv: "pool_inv {} q km" and ino: "inode_set q" and r: "pi_ok r" "ur_pi r = None" and wf: "rq_wf q km r"
  obtains (ok) r' q' km' where "queue_req_prepare r q km = Some (0, r', q', km')" "pool_inv {} q' km'"
      "prep_ok r q km r' q' km'" "ur_op r = UBBD_OP_WRITE \<Longrightarrow> data_written r' km q' km'"
  | (nomem) r' q' km' where "queue_req_prepare r q km = Some (- ENOMEM, r', q', km')" "pool_inv {} q' km'"
      "\<exists>r0. unchanged_use r0 q km r' q' km'" "km_oracle km \<noteq> [] \<or> free_slots (data_bitmap q) < need r"
proof -
  define r1 where "r1 = r\<lparr>ur_pi_cnt := word_of_nat (need r)\<rparr>"
  obtain ret r2 km1 where al: "(if ur_pi_cnt r1 > of_nat UBBD_REQ_INLINE_PI_MAX then ubbd_req_pi_alloc r1 km
      else (0, r1, km)) = (ret, r2, km1)" by (metis prod_cases3)
  note a = pi_alloc_cases [OF r1_def need_small(1) [OF wf] r al]
  note unf = prepare_unfold [OF wf r1_def a(9) al]
  have inv1: "pool_inv {} q km1" using inv a(1,2) by (simp add: pool_inv_def)
  have op: "ur_op r = UBBD_OP_WRITE \<longleftrightarrow> rq_op (ur_req r) = REQ_OP_WRITE" using wf by (auto simp: rq_wf_def)
  have fin: thesis if z: "ret = 0" and g: "(if need r \<noteq> 0 then ubbd_get_data_pages q r2 km1 else Some (0, r2, q, km1)) = Some (0, r3, q1, km2)"
    and inv2: "pool_inv {} q1 km2" and got: "got (need r) 0 {} r2 q km1 r3 q1 km2" for r3 q1 km2
  proof -
    have pr: "prep_ok r q km r3 q1 km2"
      by (rule got_prep [OF got inv1 a(5-8) _ a(10) [OF z] a(1)]) (simp add: a(9) need_small(2) [OF wf])
    then have rq: "ur_req r3 = ur_req r" by (simp add: prep_ok_def prep_req_def)
    show ?thesis
    proof (cases "ur_op r = UBBD_OP_WRITE")
      case False
      then have "queue_req_prepare r q km = Some (0, r3, q1, km2)" unfolding unf g using z op rq by simp
      then show ?thesis using ok inv2 pr False by blast
    next
      case True
      from prepare_write [OF wf True inv2 pr got a(1)] obtain km3 where
        c: "copy_data_to_ubbdreq q1 r3 km2 = Some km3" "pool_inv {} q1 km3" "prep_ok r q km r3 q1 km3" "data_written r3 km q1 km3" by blast
      have "queue_req_prepare r q km = Some (0, r3, q1, km3)" unfolding unf g using z op True rq c(1) by simp
      then show ?thesis using ok c by blast
    qed
  qed
  consider (pi) "ret \<noteq> 0" | (none) "ret = 0" "need r = 0" | (some) "ret = 0" "need r \<noteq> 0" by blast
  then show ?thesis
  proof cases
    case pi
    then have "queue_req_prepare r q km = Some (- ENOMEM, r2, q, km1)" "km_oracle km \<noteq> []" using unf a(3,11) by auto
    moreover have "unchanged_use r2 q km r2 q km1" using a(1,4) by (auto simp: unchanged_use_def req_frame_def)
    ultimately show ?thesis using nomem inv1 by blast
  next
    case none
    show ?thesis by (rule fin [of r2 q km1]) (use none inv1 a(4) in \<open>auto intro: got_0\<close>)
  next
    case some
    then have bio: "rq_bio (ur_req r2) \<noteq> []" "rq_segs r2 = need r" "rq_segs r2 \<le> pi_cap r2"
      using wf a(5) a(10) by (auto simp: need_def rq_wf_def rq_segs_def split: if_splits)
    show ?thesis
    proof (cases rule: get_data_pages_cases [OF inv1 a(4) bio(3,1) ino])
      case (1 r3 q1 km2)
      then show ?thesis using fin [of r3 q1 km2] some bio(2) by simp
    next
      case (2 r3 q1 km2)
      then have "queue_req_prepare r q km = Some (- ENOMEM, r3, q1, km2)" unfolding unf using some by simp
      moreover have "unchanged_use r2 q km r3 q1 km2" using 2(3) a(1) by (simp add: unchanged_use_def)
      moreover have "km_oracle km \<noteq> [] \<or> free_slots (data_bitmap q) < need r"
        using get_data_pages_decided [OF inv1 a(4) bio(3,1) ino] a(11) 2(1) bio(2) by (auto split: if_splits)
      ultimately show ?thesis using nomem 2(2) by blast
    qed
  qed
qed

section \<open>Submitting a request\<close>

text \<open>The entry the driver writes for a request, and the address it gives segment \<open>j\<close>.\<close>

definition iov_of :: "'a data_pool_scheme \<Rightarrow> ubbd_request \<Rightarrow> nat \<Rightarrow> bio_vec \<Rightarrow> u64 \<times> u64" where
  "iov_of q r j bv = (ucast (the (ubbd_req_get_pi r j)) * PAGE_SIZE + data_off q + of_nat (bv_offset bv), of_nat (bv_len bv))"

definition iovs_of :: "'a data_pool_scheme \<Rightarrow> ubbd_request \<Rightarrow> nat \<Rightarrow> bio_vec list \<Rightarrow> (u64 \<times> u64) list" where
  "iovs_of q r b bvs = map (\<lambda>j. iov_of q r (b + j) (bvs ! j)) [0..<length bvs]"

definition se_of :: "ubbd_h \<Rightarrow> 'a data_pool_scheme \<Rightarrow> ubbd_request \<Rightarrow> ubbd_se" where
  "se_of H q r = \<lparr>se_len_op = hdr_set_len H (ubbd_get_cmd_size H r) (hdr_set_op H (ur_op r) 0), se_flags = 0,
     se_priv_data = ur_tid r, se_offset = push_bit 9 (rq_pos (ur_req r)), se_len = ucast (rq_bytes (ur_req r)),
     se_iov_cnt = ur_pi_cnt r,
     se_iov = (if ur_pi_cnt r \<noteq> 0 then iovs_of q r 0 (concat (rq_bio (ur_req r))) else [])\<rparr>"

lemma iovs_of_Cons: "iovs_of q r b (bv # bvs) = iov_of q r b bv # iovs_of q r (Suc b) bvs"
  by (simp add: iovs_of_def map_upt_Suc_shift del: upt_Suc)

lemma iov_of_store [simp]: "iovs_of (cmdr_store se e q) r b bvs = iovs_of q r b bvs"
  by (simp add: iovs_of_def iov_of_def cmdr_store_def)

lemma set_iov_loop_ok:
  assumes "\<forall>j < length bvs. ubbd_req_get_pi r (b + j) \<noteq> None"
    and "se + unat (sizeof_se H) + 16 * (b + length bvs) \<le> unat (cmdr_size q)"
  shows "set_iov_loop H se bvs b r q =
    Some (cmdr_store se ((cmdr_mem q se)\<lparr>se_iov := se_iov (cmdr_mem q se) @ iovs_of q r b bvs\<rparr>) q)"
  using assms
proof (induction bvs arbitrary: b q)
  case Nil
  then show ?case by (simp add: iovs_of_def cmdr_store_def)
next
  case (Cons bv bvs)
  obtain i where i: "ubbd_req_get_pi r b = Some i" using Cons.prems(1) by force
  have "\<forall>j < length bvs. ubbd_req_get_pi r (Suc b + j) \<noteq> None" using Cons.prems(1) by auto
  then show ?case
    using Cons.IH [of "Suc b"] Cons.prems(2) i
    by (simp add: iovs_of_Cons Let_def)
      (simp add: cmdr_store_def iov_of_def iovs_of_def)
qed

lemma cmd_size_bounds:
  assumes H: "ubbd_h_ok H" and n: "unat (ur_pi_cnt r) < 2 ^ 16"
  shows "op_align H dvd unat (ubbd_get_cmd_size H r)"
    "unat (sizeof_se H) + 16 * unat (ur_pi_cnt r) \<le> unat (ubbd_get_cmd_size H r)"
    "unat (ubbd_get_cmd_size H r) < 2 ^ 31" "0 < unat (ubbd_get_cmd_size H r)"
proof -
  let ?k = "op_align_shift H" and ?x = "sizeof_se H + sizeof_iovec * ur_pi_cnt r"
  have s: "0 < unat (sizeof_se H)" "unat (sizeof_se H) < 2 ^ 16" "?k < 16"
    using H by (simp_all add: ubbd_h_ok_def)
  have m: "unat (sizeof_iovec * ur_pi_cnt r) = 16 * unat (ur_pi_cnt r)"
    using n by (subst unat_mult_lem [THEN iffD1]) simp_all
  have x: "unat ?x = unat (sizeof_se H) + 16 * unat (ur_pi_cnt r)"
    using n s m by (subst unat_plus_u32) simp_all
  have k: "(2 :: nat) ^ ?k \<le> 2 ^ 16" using s(3) by (intro power_increasing) simp_all
  have sz: "unat (ubbd_get_cmd_size H r) = (unat ?x + 2 ^ ?k - 1) div 2 ^ ?k * 2 ^ ?k"
    unfolding ubbd_get_cmd_size_def
    by (rule round_up_pow2) (use x s n k in simp_all)
  show "op_align H dvd unat (ubbd_get_cmd_size H r)" unfolding sz by simp
  have "unat ?x \<le> unat (ubbd_get_cmd_size H r)"
  proof -
    have "unat ?x + 2 ^ ?k - 1 < ((unat ?x + 2 ^ ?k - 1) div 2 ^ ?k + 1) * 2 ^ ?k"
      using dividend_less_div_times [of "2 ^ ?k" "unat ?x + 2 ^ ?k - 1"] by (simp add: algebra_simps)
    then show ?thesis unfolding sz by (simp add: algebra_simps)
  qed
  then show "unat (sizeof_se H) + 16 * unat (ur_pi_cnt r) \<le> unat (ubbd_get_cmd_size H r)" using x by simp
  then show "0 < unat (ubbd_get_cmd_size H r)" using s(1) by simp
  have "unat (ubbd_get_cmd_size H r) \<le> unat ?x + 2 ^ ?k - 1" unfolding sz by simp
  then show "unat (ubbd_get_cmd_size H r) < 2 ^ 31" using x n s k by simp
qed

lemma se_of_fits:
  assumes "ubbd_h_ok H" and "unat (ur_pi_cnt r) < 2 ^ 16"
  shows "se_fits H (se_of H q r) (ubbd_get_cmd_size H r)"
  using cmd_size_bounds [OF assms] assms(1) by (simp add: se_fits_def se_of_def)

lemma cmd_size_upd [simp]:
  "ubbd_get_cmd_size H (r\<lparr>ur_tid := x\<rparr>) = ubbd_get_cmd_size H r"
  "ubbd_get_cmd_size H (r\<lparr>ur_se := y\<rparr>) = ubbd_get_cmd_size H r"
  by (simp_all add: ubbd_get_cmd_size_def)

definition se_head :: "ubbd_h \<Rightarrow> ubbd_request \<Rightarrow> ubbd_se" where
  "se_head H r = \<lparr>se_len_op = hdr_set_len H (ubbd_get_cmd_size H r) (hdr_set_op H (ur_op r) 0), se_flags = 0,
     se_priv_data = ur_tid r, se_offset = push_bit 9 (rq_pos (ur_req r)), se_len = ucast (rq_bytes (ur_req r)),
     se_iov_cnt = ur_pi_cnt r, se_iov = []\<rparr>"

lemma se_init_form:
  fixes rg :: "'a cmd_ring_scheme"
  assumes n: "n = ubbd_get_cmd_size H r" "0 < unat n" and h: "h = get_submit_entry rg"
    and fits: "h + unat n \<le> unat (cmdr_size rg)"
  shows "queue_req_se_init H r rg = Some (r\<lparr>ur_se := Some h\<rparr>, rg\<lparr>cmdr_mem :=
    (\<lambda>o1. if h \<le> o1 \<and> o1 < h + unat n then zero_se else cmdr_mem rg o1)(h := se_head H r)\<rparr>)"
proof -
  let ?m = "\<lambda>o1. if h \<le> o1 \<and> o1 < h + unat n then zero_se else cmdr_mem rg o1"
  have ms: "cmdr_memset h (unat n) rg = Some (rg\<lparr>cmdr_mem := ?m\<rparr>)" using fits by (simp add: cmdr_memset_def)
  have z: "?m h = zero_se" using n(2) by simp
  show ?thesis
    unfolding queue_req_se_init_def Let_def h [symmetric] n(1) [symmetric] ms Option.bind.simps
    using n(2) by (simp add: cmdr_store_def se_head_def zero_se_def n(1) [symmetric])
qed

definition with_iovs :: "'a data_pool_scheme \<Rightarrow> ubbd_request \<Rightarrow> ubbd_se \<Rightarrow> ubbd_se" where
  "with_iovs q r e = (if ur_pi_cnt r \<noteq> 0
     then e\<lparr>se_iov := se_iov e @ iovs_of q r 0 (concat (rq_bio (ur_req r)))\<rparr> else e)"

lemma data_init_form:
  assumes se: "ur_se r = Some h" and bnd: "h + unat (sizeof_se H) + 16 * unat (ur_pi_cnt r) \<le> unat (cmdr_size q)"
    and iov: "ur_pi_cnt r \<noteq> 0 \<Longrightarrow> rq_bio (ur_req r) \<noteq> [] \<and>
      length (concat (rq_bio (ur_req r))) = unat (ur_pi_cnt r) \<and>
      (\<forall>j < unat (ur_pi_cnt r). ubbd_req_get_pi r j \<noteq> None)"
  shows "queue_req_data_init H r q = Some (q\<lparr>cmdr_mem := (cmdr_mem q)(h := with_iovs q r (cmdr_mem q h))\<rparr>)"
proof (cases "ur_pi_cnt r = 0")
  case True
  then show ?thesis by (simp add: queue_req_data_init_def with_iovs_def)
next
  case False
  then show ?thesis
    using iov bnd se set_iov_loop_ok [of "concat (rq_bio (ur_req r))" r 0 h H q]
    by (simp add: queue_req_data_init_def ubbd_set_se_iov_def with_iovs_def cmdr_store_def)
qed

lemma se_of_parts: "se_of H q r = with_iovs q r (se_head H r)"
  by (simp add: se_of_def with_iovs_def se_head_def)

lemma se_of_cong:
  "data_off q' = data_off q \<Longrightarrow> se_of H q' r = se_of H q r"
  "se_of H q (r\<lparr>ur_se := y\<rparr>) = se_of H q r"
  by (simp_all add: se_of_def iovs_of_def iov_of_def ubbd_req_get_pi_def cong: option.case_cong)

text \<open>The section under \<open>cmdr_lock\<close> is a publication of the entry on the ring.\<close>

lemma submit_publish:
  fixes q :: ubbd_queue
  assumes H: "ubbd_h_ok H" and room: "submit_ring_space_enough H q n"
    and r0: "r0 = pdus q tag" and n: "n = ubbd_get_cmd_size H r0" and cnt: "unat (ur_pi_cnt r0) < 2 ^ 16"
    and pad: "insert_padding H n q = Some q1" and fits: "unat (cmd_head q1) + unat n \<le> unat (cmdr_size q1)"
    and iov: "ur_pi_cnt r0 \<noteq> 0 \<Longrightarrow> rq_bio (ur_req r0) \<noteq> [] \<and>
      length (concat (rq_bio (ur_req r0))) = unat (ur_pi_cnt r0) \<and>
      (\<forall>j < unat (ur_pi_cnt r0). ubbd_req_get_pi r0 j \<noteq> None)"
    and r: "r = r0\<lparr>ur_tid := q_req_tid q + 1, ur_se := Some (get_submit_entry q1)\<rparr>"
    and pub: "publish (se_of H q r) n q1 = Some q2"
  shows "workfn_submit H tag q =
    Some (ubbd_kring_event_notify (q2\<lparr>q_req_tid := q_req_tid q + 1, pdus := (pdus q)(tag := r)\<rparr>))"
proof -
  let ?h = "get_submit_entry q1" and ?r1 = "r0\<lparr>ur_tid := q_req_tid q + 1\<rparr>"
  define q1t where "q1t = q1\<lparr>q_req_tid := q_req_tid q1 + 1\<rparr>"
  have f: "q1 = q\<lparr>cmd_head := cmd_head q1, cmdr_mem := cmdr_mem q1\<rparr>" by (rule insert_padding_form [OF pad])
  have q1: "cmdr_size q1 = cmdr_size q" "q_req_tid q1 = q_req_tid q" "pdus q1 = pdus q" "data_off q1 = data_off q"
    by (subst f, simp)+
  define m0 where "m0 = (\<lambda>o1. if ?h \<le> o1 \<and> o1 < ?h + unat n then zero_se else cmdr_mem q1 o1)"
  have n0: "0 < unat n" using cmd_size_bounds(4) [OF H cnt] n by simp
  have q1t: "get_submit_entry q1t = ?h" "cmdr_mem q1t = cmdr_mem q1" "cmdr_size q1t = cmdr_size q1"
      "data_off q1t = data_off q" "cmd_head q1t = cmd_head q1"
    by (simp_all add: q1t_def get_submit_entry_def q1)
  have init: "queue_req_se_init H ?r1 q1t = Some (r, q1t\<lparr>cmdr_mem := m0(?h := se_head H ?r1)\<rparr>)"
    using se_init_form [of n H ?r1 ?h q1t] n n0 fits q1t by (simp add: m0_def r get_submit_entry_def cong: if_cong)
  define q3 where "q3 = q1t\<lparr>cmdr_mem := m0(?h := se_head H ?r1)\<rparr>"
  have hr: "se_head H ?r1 = se_head H r" by (simp add: se_head_def r)
  have gp: "ubbd_req_get_pi r j = ubbd_req_get_pi r0 j" for j by (simp add: r ubbd_req_get_pi_def)
  have b: "?h + unat (sizeof_se H) + 16 * unat (ur_pi_cnt r) \<le> unat (cmdr_size q3)"
    using cmd_size_bounds(2) [OF H cnt] fits q1t n by (simp add: q3_def r get_submit_entry_def)
  have data: "queue_req_data_init H r q3 = Some (q3\<lparr>cmdr_mem := (cmdr_mem q3)(?h := with_iovs q3 r (cmdr_mem q3 ?h))\<rparr>)"
    by (rule data_init_form) (use b iov gp in \<open>simp_all add: r\<close>)
  have "with_iovs q3 r (cmdr_mem q3 ?h) = se_of H q r"
    using q1t se_of_cong(1) [of q3 q H r] hr by (simp add: se_of_parts q3_def)
  then have data': "queue_req_data_init H r q3 = Some (q1t\<lparr>cmdr_mem := m0(?h := se_of H q r)\<rparr>)"
    using data by (simp add: q3_def)
  have q2: "q2 = q1\<lparr>cmdr_mem := m0(?h := se_of H q r), cmd_head := UPDATE_CMDR_HEAD (cmd_head q1) n (cmdr_size q1)\<rparr>"
    using pub fits by (simp add: publish_def cmdr_memset_def cmdr_store_def m0_def Let_def get_submit_entry_def)
  have pd: "(pdus q1 tag)\<lparr>ur_tid := q_req_tid q1 + 1\<rparr> = ?r1" by (simp add: q1 r0)
  have szr: "ubbd_get_cmd_size H r = n" by (simp add: r n)
  have "workfn_submit H tag q = Some (ubbd_kring_event_notify
      (q1t\<lparr>cmdr_mem := m0(?h := se_of H q r), pdus := (pdus q1t)(tag := r),
         cmd_head := UPDATE_CMDR_HEAD (cmd_head q1t) n (cmdr_size q1t)\<rparr>))"
    using room pad init data' pd szr
    by (simp add: workfn_submit_def Let_def n [symmetric] r0 [symmetric] q1t_def [symmetric] q3_def [symmetric])
  also have "\<dots> = Some (ubbd_kring_event_notify (q2\<lparr>q_req_tid := q_req_tid q + 1, pdus := (pdus q)(tag := r)\<rparr>))"
    by (simp add: ubbd_kring_event_notify_def) (rule ubbd_queue.equality, simp_all add: q2 q1t_def q1)
  finally show ?thesis .
qed

end
