(* ===== verification/Request_Steps.thy ===== *)
theory Request_Steps
  imports Request_Inv
begin

text \<open>
  The invariant of a queue under the request path, and one lemma per step: a request is
  submitted, completed, or ended by force.
\<close>

section \<open>The invariant\<close>

abbreviation unf :: "ubbd_h \<Rightarrow> ubbd_se list \<Rightarrow> 'a cmd_ring_scheme \<Rightarrow> nat set" where
  "unf H es q \<equiv> unfinished_locs (se_loc H) (se_done H) q es"

text \<open>
  An outstanding request: its slots are in use and recorded in its index array, and its
  entry waits on the ring under its transaction id.
\<close>

definition req_ok :: "ubbd_h \<Rightarrow> ubbd_se list \<Rightarrow> ubbd_queue \<Rightarrow> kmem \<Rightarrow> ubbd_request \<Rightarrow> bool" where
  "req_ok H es q km r \<longleftrightarrow>
     rq_wf q km r \<and> prep_req r r \<and>
     (\<forall>i \<in> owned r. i < length (data_bitmap q) \<and> data_bitmap q ! i) \<and>
     (\<exists>off \<in> unf H es q. ur_se r = Some off \<and> hdr_get_op H (se_len_op (cmdr_mem q off)) = ur_op r \<and>
        se_priv_data (cmdr_mem q off) = ur_tid r)"

definition reqs_apart :: "nat set \<Rightarrow> (nat \<Rightarrow> ubbd_request) \<Rightarrow> bool" where
  "reqs_apart T f \<longleftrightarrow> (\<forall>t \<in> T. \<forall>u \<in> T. t \<noteq> u \<longrightarrow>
     owned (f t) \<inter> owned (f u) = {} \<and> ur_se (f t) \<noteq> ur_se (f u) \<and> ur_tid (f t) \<noteq> ur_tid (f u))"

text \<open>
  \<open>reqs_inv H es T q km\<close>: the requests with tags in \<open>T\<close> are outstanding, and every unfinished
  entry of the ring is padding or belongs to one of them.
\<close>

definition reqs_inv :: "ubbd_h \<Rightarrow> ubbd_se list \<Rightarrow> nat set \<Rightarrow> ubbd_queue \<Rightarrow> kmem \<Rightarrow> bool" where
  "reqs_inv H es T q km \<longleftrightarrow>
     ring_rep H es q \<and> pool_inv {} q km \<and> inode_set q \<and>
     (\<forall>t \<in> T. req_ok H es q km (pdus q t) \<and> ur_tid (pdus q t) \<le> q_req_tid q) \<and> reqs_apart T (pdus q) \<and>
     (\<forall>off \<in> unf H es q. hdr_get_op H (se_len_op (cmdr_mem q off)) = UBBD_OP_PAD \<or>
        (\<exists>t \<in> T. ur_se (pdus q t) = Some off))"

definition queue_inv :: "ubbd_h \<Rightarrow> ubbd_se list \<Rightarrow> ubbd_queue \<Rightarrow> kmem \<Rightarrow> bool" where
  "queue_inv H es q km \<longleftrightarrow> reqs_inv H es (set (inflight_reqs q)) q km \<and> distinct (inflight_reqs q)"

text \<open>No slot is lost: the slots in use are exactly those of the outstanding requests.\<close>

definition slots_exact :: "nat set \<Rightarrow> ubbd_queue \<Rightarrow> bool" where
  "slots_exact T q \<longleftrightarrow> (\<forall>i < length (data_bitmap q). data_bitmap q ! i \<longleftrightarrow> (\<exists>t \<in> T. i \<in> owned (pdus q t)))"

definition queue_rest_eq :: "ubbd_queue \<Rightarrow> ubbd_queue \<Rightarrow> bool" where
  "queue_rest_eq q q' \<longleftrightarrow> q_status q' = q_status q \<and> q_req_tid q' = q_req_tid q \<and>
     inflight_reqs q' = inflight_reqs q \<and> compr_size q' = compr_size q \<and> compr_head q' = compr_head q \<and>
     compr_tail q' = compr_tail q \<and> compr_mem q' = compr_mem q \<and> task_wq q' = task_wq q \<and>
     kring_event q' = kring_event q \<and> data_off q' = data_off q \<and> data_pages q' = data_pages q"

text \<open>
  What a step of one queue leaves to the others: it takes only pages that were free, and
  the pages that are not its own stay live.
\<close>

definition pages_frame :: "'a data_pool_scheme \<Rightarrow> kmem \<Rightarrow> 'a data_pool_scheme \<Rightarrow> kmem \<Rightarrow> bool" where
  "pages_frame q km q' km' \<longleftrightarrow>
     ran (data_pages_array q') \<subseteq> ran (data_pages_array q) \<union> - dom (km_pages km) \<and>
     dom (km_pages km) - ran (data_pages_array q) \<subseteq> dom (km_pages km')"

lemma pages_frame_refl: "data_pages_array q' = data_pages_array q \<Longrightarrow> pages_frame q km q' km"
  by (simp add: pages_frame_def)

lemma pages_frame_trans: "pages_frame q km q1 km1 \<Longrightarrow> pages_frame q1 km1 q2 km2 \<Longrightarrow> pages_frame q km q2 km2"
  unfolding pages_frame_def by blast

lemma pages_frame_shrink:
  assumes "data_pages_array q' \<subseteq>\<^sub>m data_pages_array q"
    and "\<forall>p. p \<notin> ran (data_pages_array q) \<longrightarrow> km_pages km' p = km_pages km p"
  shows "pages_frame q km q' km'"
proof -
  have "ran (data_pages_array q') \<subseteq> ran (data_pages_array q)"
    using assms(1) by (force simp: map_le_def ran_def dom_def)
  then show ?thesis using assms(2) unfolding pages_frame_def by (auto simp: dom_def)
qed

lemma bio_ok_shrink:
  assumes "bio_ok q km r" and "data_pages_array q' \<subseteq>\<^sub>m data_pages_array q"
    and "\<forall>p. p \<notin> ran (data_pages_array q) \<longrightarrow> km_pages km' p = km_pages km p"
  shows "bio_ok q' km' r"
proof -
  have "ran (data_pages_array q') \<subseteq> ran (data_pages_array q)"
    using assms(2) unfolding map_le_def ran_def by (smt (verit) domI mem_Collect_eq subsetI)
  then have "p \<in> dom (km_pages km') - ran (data_pages_array q')" if "p \<in> dom (km_pages km) - ran (data_pages_array q)" for p
    using that assms(3) by (auto simp: dom_def)
  then show ?thesis using assms(1) unfolding bio_ok_def by blast
qed

lemma rq_wf_cong: "rq_wf q km r \<Longrightarrow> (bio_ok q km r \<Longrightarrow> bio_ok q' km' r) \<Longrightarrow> rq_wf q' km' r"
  by (auto simp: rq_wf_def)

section \<open>Completing a request\<close>

lemma owned_slots:
  assumes pr: "prep_req r r" and used: "\<forall>i \<in> owned r. i < length (data_bitmap q) \<and> data_bitmap q ! i"
  shows "\<forall>b \<in> set [0..<unat (ur_pi_cnt r)]. \<exists>i. ubbd_req_get_pi r b = Some i \<and> unat i < length (data_bitmap q)"
proof
  fix b assume "b \<in> set [0..<unat (ur_pi_cnt r)]"
  then have b: "b < need r" and own: "slot_of r b \<in> owned r" using pr by (simp_all add: prep_req_def owned_def)
  obtain i where "ubbd_req_get_pi r b = Some i" using pr b by (auto simp: prep_req_def)
  then show "\<exists>i. ubbd_req_get_pi r b = Some i \<and> unat i < length (data_bitmap q)"
    using used own by (auto simp: slot_of_def)
qed

lemma release_owned:
  assumes inv: "pool_inv {} q km" and ino: "inode_set q" and pr: "prep_req r r"
    and used: "\<forall>i \<in> owned r. i < length (data_bitmap q) \<and> data_bitmap q ! i"
  shows "\<exists>q' km'. ubbd_req_release r q km = Some (r\<lparr>ur_pi := None\<rparr>, q', km') \<and> pool_inv {} q' km' \<and>
    released (owned r) q km q' km'"
  using release_seq_ok [OF inv ino owned_slots [OF pr used]]
  by (auto simp: ubbd_req_release_def owned_def slot_of_def [abs_def])

lemma same_ring_form:
  fixes q q3 :: ubbd_queue
  assumes "ring_rep H es q" and off: "off \<in> unf H es q"
    and ring: "cmdr_size q3 = cmdr_size q" "cmd_head q3 = cmd_head q" "cmd_tail q3 = cmd_tail q"
      "cmdr_mem q3 = (cmdr_mem q)(off := set_done H (cmdr_mem q off))"
  shows "\<exists>q4 es'. advance_cmd_ring H q3 = Some q4 \<and> ring_rep H es' q4 \<and> unf H es' q4 = unf H es q - {off} \<and>
    q4 = q3\<lparr>cmd_tail := cmd_tail q4\<rparr>"
proof -
  define q0 where "q0 = q3\<lparr>cmdr_mem := cmdr_mem q\<rparr>"
  have c: "cmdr_size q0 = cmdr_size q" "cmd_head q0 = cmd_head q" "cmd_tail q0 = cmd_tail q" "cmdr_mem q0 = cmdr_mem q"
    using ring by (simp_all add: q0_def)
  have m: "mark_se_done H off q0 = q3"
    by (simp add: mark_se_done_def cmdr_store_def q0_def set_done_def ring(4) [unfolded set_done_def, symmetric])
  have "ring_rep H es q0" "off \<in> unf H es q0" "unf H es q0 = unf H es q"
    using assms(1) off ring_rep_cong [OF c] by simp_all
  with cr.finish_one [of H es q0 off] obtain q4 es' where "advance_cmd_ring H q3 = Some q4" "ring_rep H es' q4"
      "unf H es' q4 = unf H es q - {off}"
    using m by auto
  then show ?thesis using advance_form by blast
qed

lemma complete_step:
  assumes inv: "reqs_inv H es T q km" and t: "t \<in> T"
  shows "\<exists>q' km' es'. complete_inflight_req H t ret q km = Some (q', km') \<and> reqs_inv H es' (T - {t}) q' km' \<and>
    blk_log q' = blk_log q @ [Ended t ret] \<and> queue_rest_eq q q' \<and>
    (\<forall>u. u \<noteq> t \<longrightarrow> pdus q' u = pdus q u) \<and>
    (\<forall>i < length (data_bitmap q). data_bitmap q' ! i \<longleftrightarrow> data_bitmap q ! i \<and> i \<notin> owned (pdus q t)) \<and>
    length (data_bitmap q') = length (data_bitmap q) \<and>
    (\<forall>p. p \<notin> ran (data_pages_array q) \<longrightarrow> km_pages km' p = km_pages km p) \<and> pages_frame q km q' km'"
proof -
  define r where "r = pdus q t"
  have ok: "req_ok H es q km r" using inv t by (simp add: reqs_inv_def r_def)
  obtain off where off: "off \<in> unf H es q" "ur_se r = Some off" using ok by (auto simp: req_ok_def)
  define q1 where "q1 = mark_se_done H off q"
  have q1: "q1 = q\<lparr>cmdr_mem := (cmdr_mem q)(off := set_done H (cmdr_mem q off))\<rparr>"
    by (simp add: q1_def mark_se_done_def cmdr_store_def set_done_def)
  have inv1: "pool_inv {} q1 km" "inode_set q1"
    using inv by (simp_all add: q1 reqs_inv_def pool_inv_def)
  obtain q2 km1 where rel: "ubbd_req_release r q1 km = Some (r\<lparr>ur_pi := None\<rparr>, q2, km1)" "pool_inv {} q2 km1"
      "released (owned r) q1 km q2 km1"
    using release_owned [OF inv1, of r] ok by (auto simp: req_ok_def q1)
  have fr: "pool_frame q1 q2" using rel(3) by (simp add: released_def)
  define q3 where "q3 = blk_tell (Ended t ret) (q2\<lparr>pdus := (pdus q2)(t := r\<lparr>ur_pi := None\<rparr>)\<rparr>)"
  have ring3: "cmdr_size q3 = cmdr_size q" "cmd_head q3 = cmd_head q" "cmd_tail q3 = cmd_tail q"
      "cmdr_mem q3 = (cmdr_mem q)(off := set_done H (cmdr_mem q off))"
    using pool_frameD [OF fr] by (simp_all add: q3_def blk_tell_def q1)
  have "ring_rep H es q" using inv by (simp add: reqs_inv_def)
  from same_ring_form [OF this off(1) ring3] obtain q4 es' where
    adv: "advance_cmd_ring H q3 = Some q4" "ring_rep H es' q4" "unf H es' q4 = unf H es q - {off}"
      "q4 = q3\<lparr>cmd_tail := cmd_tail q4\<rparr>" by blast
  have run: "complete_inflight_req H t ret q km = Some (q4, km1)"
    using off(2) rel(1) adv(1)
    by (simp add: complete_inflight_req_def r_def [symmetric] Let_def q1_def [symmetric] q3_def)
      (simp add: q1 r_def [symmetric] q3_def)
  have q4: "data_bitmap q4 = data_bitmap q2" "data_pages_array q4 = data_pages_array q2" "data_pages q4 = data_pages q2"
      "data_pages_allocated q4 = data_pages_allocated q2" "inode_set q4 = inode_set q2"
      "cmdr_mem q4 = cmdr_mem q3" "pdus q4 = (pdus q2)(t := r\<lparr>ur_pi := None\<rparr>)" "q_req_tid q4 = q_req_tid q2"
      "blk_log q4 = blk_log q2 @ [Ended t ret]"
    by (subst adv(4), simp add: q3_def blk_tell_def)+
  have rest: "queue_rest_eq q q4"
    using queue_frameD [OF fr] pool_frameD [OF fr] unfolding queue_rest_eq_def
    by (subst adv(4), simp add: q3_def blk_tell_def q1)+
  have pd: "pdus q4 = (pdus q)(t := r\<lparr>ur_pi := None\<rparr>)" "blk_log q4 = blk_log q @ [Ended t ret]"
      "q_req_tid q4 = q_req_tid q" "inode_set q4"
    using q4 queue_frameD [OF fr] pool_frameD [OF fr] inv1(2) by (simp_all add: q1)
  have bm: "\<forall>i < length (data_bitmap q). data_bitmap q4 ! i \<longleftrightarrow> data_bitmap q ! i \<and> i \<notin> owned r"
      "length (data_bitmap q4) = length (data_bitmap q)"
      and le: "data_pages_array q4 \<subseteq>\<^sub>m data_pages_array q"
    using rel(3) q4 by (simp_all add: released_def q1)
  have km: "\<forall>p. p \<notin> ran (data_pages_array q) \<longrightarrow> km_pages km1 p = km_pages km p"
    using rel(3) by (auto simp: released_def q1 ran_def)
  have ok4: "req_ok H es' q4 km1 (pdus q4 u)" if u: "u \<in> T - {t}" for u
  proof -
    have oku: "req_ok H es q km (pdus q u)" and ap: "reqs_apart T (pdus q)" using inv u by (auto simp: reqs_inv_def)
    have dis: "owned (pdus q u) \<inter> owned r = {}" "ur_se (pdus q u) \<noteq> Some off"
      using ap u t off(2) unfolding reqs_apart_def r_def by (blast, metis DiffD1 DiffD2 singletonI)
    have "rq_wf q4 km1 (pdus q u)"
      using oku bio_ok_shrink [OF _ le km] rq_wf_cong unfolding req_ok_def by blast
    then show ?thesis
      using oku dis bm adv(3) u by (auto simp: req_ok_def pd q4(6) ring3(4))
  qed
  have "reqs_apart (T - {t}) (pdus q4)" using inv by (simp add: reqs_inv_def reqs_apart_def pd)
  moreover have "pool_inv {} q4 km1" using rel(2) pool_inv_cong [of q4 q2] q4 by simp
  moreover have "\<forall>o1 \<in> unf H es' q4. hdr_get_op H (se_len_op (cmdr_mem q4 o1)) = UBBD_OP_PAD \<or>
      (\<exists>u \<in> T - {t}. ur_se (pdus q4 u) = Some o1)"
    using inv off(2) unfolding adv(3) by (fastforce simp: reqs_inv_def pd q4(6) ring3(4) r_def)
  ultimately have "reqs_inv H es' (T - {t}) q4 km1"
    using ok4 adv(2) inv pd by (auto simp: reqs_inv_def)
  then show ?thesis
    using run pd(1,2) rest bm km pages_frame_shrink [OF le km] by (intro exI [of _ q4] exI [of _ km1] exI [of _ es']) (simp add: r_def)
qed

lemma slots_exact_drop:
  assumes ex: "slots_exact T q" and ap: "reqs_apart T (pdus q)" and t: "t \<in> T"
    and bm: "\<forall>i < length (data_bitmap q). data_bitmap q' ! i \<longleftrightarrow> data_bitmap q ! i \<and> i \<notin> owned (pdus q t)"
      "length (data_bitmap q') = length (data_bitmap q)"
    and pd: "\<forall>u. u \<noteq> t \<longrightarrow> pdus q' u = pdus q u"
  shows "slots_exact (T - {t}) q'"
  using assms unfolding slots_exact_def reqs_apart_def by (auto; blast)

lemma reqs_inv_cong:
  assumes ring: "cmdr_size b = cmdr_size a" "cmd_head b = cmd_head a" "cmd_tail b = cmd_tail a" "cmdr_mem b = cmdr_mem a"
    and pool: "data_bitmap b = data_bitmap a" "data_pages b = data_pages a"
      "data_pages_array b = data_pages_array a" "data_pages_allocated b = data_pages_allocated a"
    and rest: "inode_set b = inode_set a" "pdus b = pdus a" "q_req_tid b = q_req_tid a"
  shows "reqs_inv H es T b km = reqs_inv H es T a km"
proof -
  have "req_ok H es b km r = req_ok H es a km r" for r
    using ring_rep_cong [OF ring] ring pool by (simp add: req_ok_def rq_wf_def bio_ok_def)
  then show ?thesis
    using ring_rep_cong [OF ring] pool_inv_cong [OF pool] ring rest by (simp add: reqs_inv_def)
qed

lemma reqs_inv_live:
  assumes "same_live km km'" shows "reqs_inv H es T q km' = reqs_inv H es T q km"
proof -
  have "bio_ok q km' r = bio_ok q km r" for r using assms by (simp add: bio_ok_def same_live_def)
  then show ?thesis by (simp add: reqs_inv_def req_ok_def rq_wf_def same_live_pool [OF assms])
qed

section \<open>What completion entries mean\<close>

text \<open>
  The specification: the outstanding requests are pairs of transaction id and tag; an
  entry ends the request it names with its result, an entry for an id that is not
  outstanding is ignored.
\<close>

definition abs_reqs :: "ubbd_queue \<Rightarrow> (u64 \<times> nat) list" where
  "abs_reqs q = map (\<lambda>t. (ur_tid (pdus q t), t)) (inflight_reqs q)"

fun spec_complete :: "ubbd_ce list \<Rightarrow> (u64 \<times> nat) list \<Rightarrow> blk_event list \<times> (u64 \<times> nat) list" where
  "spec_complete [] as = ([], as)"
| "spec_complete (ce # ces) as =
     (case map_of as (ce_priv_data ce) of
        None \<Rightarrow> spec_complete ces as
      | Some t \<Rightarrow>
          let rest = spec_complete ces (filter (\<lambda>x. fst x \<noteq> ce_priv_data ce) as)
          in (Ended t (ce_result ce) # fst rest, snd rest))"

lemma spec_complete_Nil [simp]: "spec_complete ces [] = ([], [])"
  by (induction ces) auto

lemma find_map_of: "find (\<lambda>t. f t = x) ts = map_of (map (\<lambda>t. (f t, t)) ts) x"
  by (induction ts) auto

lemma filter_remove1:
  assumes "distinct ts" and "inj_on f (set ts)" and "t \<in> set ts"
  shows "filter (\<lambda>x. fst x \<noteq> f t) (map (\<lambda>u. (f u, u)) ts) = map (\<lambda>u. (f u, u)) (remove1 t ts)"
proof -
  have "remove1 t ts = filter (\<lambda>u. u \<noteq> t) ts"
    using assms(1) by (simp add: distinct_remove1_removeAll removeAll_filter_not_eq eq_commute [of t])
  moreover have "f u \<noteq> f t \<longleftrightarrow> u \<noteq> t" if "u \<in> set ts" for u using assms(2,3) that by (auto simp: inj_on_def)
  ultimately show ?thesis by (simp add: filter_map comp_def cong: filter_cong)
qed

text \<open>One completion entry.\<close>

definition q_used :: "ubbd_queue \<Rightarrow> bool" where
  "q_used q \<longleftrightarrow> slots_exact (set (inflight_reqs q)) q"

definition compr_same :: "ubbd_queue \<Rightarrow> ubbd_queue \<Rightarrow> bool" where
  "compr_same q q' \<longleftrightarrow> compr_size q' = compr_size q \<and> compr_head q' = compr_head q \<and>
     compr_tail q' = compr_tail q \<and> compr_mem q' = compr_mem q"

text \<open>A stopping queue is stopped by the completion of its last request.\<close>

definition status_next :: "ubbd_queue \<Rightarrow> ubbd_queue \<Rightarrow> bool" where
  "status_next q q' \<longleftrightarrow> q_status q' =
     (if q_status q = UBBD_QUEUE_KSTATUS_STOPPING \<and> abs_reqs q \<noteq> [] \<and> abs_reqs q' = []
      then UBBD_QUEUE_KSTATUS_STOPPED else q_status q)"

text \<open>What completion leaves alone: the requests that stay outstanding and those it does not know.\<close>

definition complete_frame :: "ubbd_queue \<Rightarrow> kmem \<Rightarrow> ubbd_queue \<Rightarrow> kmem \<Rightarrow> bool" where
  "complete_frame q km q' km' \<longleftrightarrow> pages_frame q km q' km' \<and> task_wq q' = task_wq q \<and> q_req_tid q' = q_req_tid q \<and>
     compr_size q' = compr_size q \<and> set (inflight_reqs q') \<subseteq> set (inflight_reqs q) \<and>
     (\<forall>u. u \<notin> set (inflight_reqs q) \<or> u \<in> set (inflight_reqs q') \<longrightarrow> pdus q' u = pdus q u)"

lemma complete_frame_refl: "complete_frame q km q km"
  by (simp add: complete_frame_def pages_frame_refl)

lemma complete_frame_trans: "complete_frame q km q1 km1 \<Longrightarrow> complete_frame q1 km1 q2 km2 \<Longrightarrow> complete_frame q km q2 km2"
  unfolding complete_frame_def using pages_frame_trans [of q km q1 km1 q2 km2] by (auto; blast)

lemma complete_read:
  assumes inv: "reqs_inv H es T q km" and t: "t \<in> T"
  shows "\<exists>km1. (if rq_op (ur_req (pdus q t)) = REQ_OP_READ
      then copy_data_from_ubbdreq q (pdus q t) km else Some km) = Some km1 \<and> same_live km km1 \<and>
    (ur_op (pdus q t) = UBBD_OP_READ \<and> segs_disjoint (pdus q t) \<longrightarrow> data_read (pdus q t) q km km1)"
proof -
  have ok: "req_ok H es q km (pdus q t)" and p: "pool_inv {} q km" using inv t by (auto simp: reqs_inv_def)
  show ?thesis
  proof (cases "ur_op (pdus q t) = UBBD_OP_READ")
    case True
    then have "need (pdus q t) = rq_segs (pdus q t)" "rq_bio (ur_req (pdus q t)) \<noteq> []" "bio_ok q km (pdus q t)"
      "rq_op (ur_req (pdus q t)) = REQ_OP_READ"
      using ok by (simp_all add: need_def data_req_def req_ok_def rq_wf_def)
    then show ?thesis using copy_from_ok [OF p, of "pdus q t"] ok by (auto simp: req_ok_def)
  next
    case False
    then show ?thesis using ok by (auto simp: req_ok_def rq_wf_def same_live_def)
  qed
qed

lemma complete_one_ok:
  assumes inv: "queue_inv H es q km"
  shows "\<exists>q' km' es'. complete_one H ce q km = Some (q', km') \<and> queue_inv H es' q' km' \<and>
    blk_log q' = blk_log q @ fst (spec_complete [ce] (abs_reqs q)) \<and>
    abs_reqs q' = snd (spec_complete [ce] (abs_reqs q)) \<and> compr_same q q' \<and> status_next q q' \<and>
    (q_used q \<longrightarrow> q_used q') \<and> complete_frame q km q' km'"
proof (cases "map_of (abs_reqs q) (ce_priv_data ce)")
  case None
  then have "fetch_inflight_req (ce_priv_data ce) q = (None, q)"
    by (simp add: fetch_inflight_req_def find_map_of abs_reqs_def)
  then show ?thesis using inv None by (auto simp: complete_one_def compr_same_def status_next_def complete_frame_refl)
next
  case (Some t)
  let ?T = "set (inflight_reqs q)" and ?tid = "ce_priv_data ce"
  have t: "t \<in> ?T" "ur_tid (pdus q t) = ?tid" using map_of_SomeD [OF Some] by (auto simp: abs_reqs_def)
  have d: "distinct (inflight_reqs q)" and ri: "reqs_inv H es ?T q km" using inv by (auto simp: queue_inv_def)
  have inj: "inj_on (\<lambda>t. ur_tid (pdus q t)) ?T"
    using ri by (auto simp: reqs_inv_def reqs_apart_def inj_on_def)
  define q1 where "q1 = snd (fetch_inflight_req ?tid q)"
  have f: "fetch_inflight_req ?tid q = (Some t, q1)" and in1: "inflight_reqs q1 = remove1 t (inflight_reqs q)"
    using Some by (auto simp: q1_def fetch_inflight_req_def find_map_of abs_reqs_def Let_def)
  have same: "pdus q1 = pdus q" "data_bitmap q1 = data_bitmap q" "blk_log q1 = blk_log q" "compr_same q q1"
      "data_pages_array q1 = data_pages_array q" "task_wq q1 = task_wq q" "q_req_tid q1 = q_req_tid q"
    using Some by (auto simp: q1_def fetch_inflight_req_def find_map_of abs_reqs_def Let_def compr_same_def)
  have ri1: "reqs_inv H es ?T q1 km"
    using ri Some reqs_inv_cong [of q1 q H es ?T km]
    by (auto simp: q1_def fetch_inflight_req_def find_map_of abs_reqs_def Let_def)
  obtain km1 where c: "(if rq_op (ur_req (pdus q1 t)) = REQ_OP_READ
      then copy_data_from_ubbdreq q1 (pdus q1 t) km else Some km) = Some km1" "same_live km km1"
    using complete_read [OF ri1 t(1)] by blast
  have ri2: "reqs_inv H es ?T q1 km1" using ri1 reqs_inv_live [OF c(2)] by blast
  from complete_step [OF ri2 t(1), of "ce_result ce"] obtain q' km' es' where
    s: "complete_inflight_req H t (ce_result ce) q1 km1 = Some (q', km')" "reqs_inv H es' (?T - {t}) q' km'"
      "blk_log q' = blk_log q1 @ [Ended t (ce_result ce)]" "queue_rest_eq q1 q'"
      "\<forall>u. u \<noteq> t \<longrightarrow> pdus q' u = pdus q1 u"
      "\<forall>i < length (data_bitmap q1). data_bitmap q' ! i \<longleftrightarrow> data_bitmap q1 ! i \<and> i \<notin> owned (pdus q1 t)"
      "length (data_bitmap q') = length (data_bitmap q1)" "pages_frame q1 km1 q' km'" by blast
  have run: "complete_one H ce q km = Some (q', km')" using f c(1) s(1) by (simp add: complete_one_def)
  have in': "inflight_reqs q' = remove1 t (inflight_reqs q)" using s(4) in1 by (simp add: queue_rest_eq_def)
  then have T': "set (inflight_reqs q') = ?T - {t}" using d by simp
  have "abs_reqs q' = map (\<lambda>u. (ur_tid (pdus q u), u)) (remove1 t (inflight_reqs q))"
    unfolding abs_reqs_def in' using s(5) same(1) d by (intro map_cong) auto
  then have ab: "abs_reqs q' = filter (\<lambda>x. fst x \<noteq> ?tid) (abs_reqs q)"
    using filter_remove1 [OF d inj t(1)] t(2) by (simp add: abs_reqs_def)
  have "queue_inv H es' q' km'" using s(2) T' d by (simp add: queue_inv_def in')
  moreover have "q_used q'" if "q_used q"
    using slots_exact_drop [of ?T q t q'] that ri s(5-7) same t(1) by (simp add: q_used_def T' reqs_inv_def)
  moreover have "compr_same q q'" using same(4) s(4) by (simp add: compr_same_def queue_rest_eq_def)
  moreover have "status_next q q'"
  proof -
    have "q_status q1 = (if q_status q = UBBD_QUEUE_KSTATUS_STOPPING \<and> inflight_reqs q1 = []
        then UBBD_QUEUE_KSTATUS_STOPPED else q_status q)"
      using Some in1 by (auto simp: q1_def fetch_inflight_req_def find_map_of abs_reqs_def Let_def)
    moreover have "abs_reqs q' = [] \<longleftrightarrow> inflight_reqs q1 = []" "abs_reqs q \<noteq> []"
      using in' in1 t(1) by (auto simp: abs_reqs_def)
    ultimately show ?thesis using s(4) by (simp add: status_next_def queue_rest_eq_def)
  qed
  moreover have "complete_frame q km q' km'"
    unfolding complete_frame_def T' using s(4,5,8) c(2) same d t(1)
    by (auto simp: pages_frame_def queue_rest_eq_def same_live_def compr_same_def)
  ultimately show ?thesis
    using run s(3) same(3) ab Some by (auto simp: Let_def)
qed

section \<open>The completion loop\<close>

text \<open>The completion ring holds \<open>n\<close> entries between tail and head.\<close>

definition compr_ok :: "ubbd_h \<Rightarrow> nat \<Rightarrow> ubbd_queue \<Rightarrow> bool" where
  "compr_ok H n q \<longleftrightarrow> compr_size q = COMPR_SIZE H \<and> unat (compr_tail q) < unat (compr_size q) \<and>
     unat (compr_head q) = (unat (compr_tail q) + n * unat (sizeof_ce H)) mod unat (compr_size q) \<and>
     n * unat (sizeof_ce H) < unat (compr_size q)"

definition ce_list :: "ubbd_h \<Rightarrow> nat \<Rightarrow> ubbd_queue \<Rightarrow> ubbd_ce list" where
  "ce_list H n q = map (\<lambda>k. compr_mem q ((unat (compr_tail q) + k * unat (sizeof_ce H)) mod unat (compr_size q))) [0..<n]"

lemma spec_complete_Cons:
  "spec_complete (ce # ces) as =
     (fst (spec_complete [ce] as) @ fst (spec_complete ces (snd (spec_complete [ce] as))),
      snd (spec_complete ces (snd (spec_complete [ce] as))))"
  by (auto simp: Let_def split: option.splits)

lemma compr_step:
  assumes H: "ubbd_h_ok H" and c: "compr_ok H (Suc n) q"
  defines "q1 \<equiv> q\<lparr>compr_tail := UPDATE_COMPR_TAIL (compr_tail q) (sizeof_ce H) (compr_size q)\<rparr>"
  shows "get_complete_entry q = Some (unat (compr_tail q))" "compr_ok H n q1"
    "ce_list H (Suc n) q = compr_mem q (unat (compr_tail q)) # ce_list H n q1"
proof -
  let ?s = "unat (compr_size q)" and ?c = "unat (sizeof_ce H)" and ?t = "unat (compr_tail q)"
  have s: "?s \<le> 2 ^ 31" "0 < ?c" using H c by (auto simp: ubbd_h_ok_def compr_ok_def)
  have t: "?t < ?s" "?c + n * ?c < ?s" "unat (compr_head q) = (?t + (?c + n * ?c)) mod ?s"
    using c by (auto simp: compr_ok_def)
  have "unat (compr_head q) \<noteq> ?t" using mod_shift_neq [of 0 "?c + n * ?c" ?s ?t] t s by simp
  then show "get_complete_entry q = Some ?t" by (auto simp: get_complete_entry_def)
  have u: "unat (compr_tail q1) = (?t + ?c) mod ?s"
    using unat_update_head(2) [of "compr_tail q" "compr_size q" "sizeof_ce H"] t s
    by (simp add: q1_def UPDATE_COMPR_TAIL_def UPDATE_CMDR_TAIL_def)
  have q1: "compr_size q1 = compr_size q" "compr_head q1 = compr_head q" "compr_mem q1 = compr_mem q"
    by (simp_all add: q1_def)
  show "compr_ok H n q1"
    using c t u by (auto simp: compr_ok_def q1 mod_simps add.assoc)
  show "ce_list H (Suc n) q = compr_mem q ?t # ce_list H n q1"
    using t by (simp add: ce_list_def map_upt_Suc_shift u q1 mod_simps add.assoc del: upt_Suc)
qed

lemma complete_loop_ok:
  assumes H: "ubbd_h_ok H" and "queue_inv H es q km" and "compr_ok H n q"
  shows "\<exists>q' km' es'. complete_loop H q km = Some (q', km') \<and> queue_inv H es' q' km' \<and>
    blk_log q' = blk_log q @ fst (spec_complete (ce_list H n q) (abs_reqs q)) \<and>
    abs_reqs q' = snd (spec_complete (ce_list H n q) (abs_reqs q)) \<and>
    compr_tail q' = compr_head q \<and> compr_head q' = compr_head q \<and> status_next q q' \<and> (q_used q \<longrightarrow> q_used q') \<and>
    complete_frame q km q' km'"
  using assms(2,3)
proof (induction n arbitrary: es q km)
  case 0
  then have "get_complete_entry q = None" "compr_tail q = compr_head q"
    by (auto simp: compr_ok_def get_complete_entry_def word_unat_eq_iff)
  then show ?case
    using "0.prems"(1) by (subst complete_loop.simps) (auto simp: ce_list_def status_next_def complete_frame_refl)
next
  case (Suc n)
  define q1 where "q1 = q\<lparr>compr_tail := UPDATE_COMPR_TAIL (compr_tail q) (sizeof_ce H) (compr_size q)\<rparr>"
  let ?ce = "compr_mem q (unat (compr_tail q))"
  note st = compr_step [OF H Suc.prems(2), folded q1_def]
  have inv1: "queue_inv H es q1 km" "abs_reqs q1 = abs_reqs q" "blk_log q1 = blk_log q" "compr_head q1 = compr_head q"
      "q_used q1 = q_used q"
    using Suc.prems(1) reqs_inv_cong [of q1 q]
    by (simp_all add: queue_inv_def q1_def abs_reqs_def q_used_def slots_exact_def)
  have sn: "status_next q1 x = status_next q x" for x using inv1(2) by (simp add: status_next_def q1_def)
  have cf: "complete_frame q1 km x y = complete_frame q km x y" for x y by (simp add: complete_frame_def pages_frame_def q1_def)
  obtain q2 km2 es2 where s2: "complete_one H ?ce q1 km = Some (q2, km2)" "queue_inv H es2 q2 km2"
      "blk_log q2 = blk_log q @ fst (spec_complete [?ce] (abs_reqs q))"
      "abs_reqs q2 = snd (spec_complete [?ce] (abs_reqs q))" "compr_same q1 q2" "q_used q \<longrightarrow> q_used q2" "status_next q q2"
      "complete_frame q km q2 km2"
    using complete_one_ok [OF inv1(1), of ?ce] unfolding inv1(2,3,5) sn cf by auto
  have c2: "compr_ok H n q2" "ce_list H n q2 = ce_list H n q1" "compr_head q2 = compr_head q"
    using st(2) s2(5) inv1(4) by (auto simp: compr_ok_def compr_same_def ce_list_def)
  from Suc.IH [OF s2(2) c2(1)] obtain q' km' es' where s3: "complete_loop H q2 km2 = Some (q', km')" "queue_inv H es' q' km'"
      "blk_log q' = blk_log q2 @ fst (spec_complete (ce_list H n q1) (abs_reqs q2))"
      "abs_reqs q' = snd (spec_complete (ce_list H n q1) (abs_reqs q2))"
      "compr_tail q' = compr_head q" "compr_head q' = compr_head q" "q_used q2 \<longrightarrow> q_used q'"
      "status_next q2 q'" "complete_frame q2 km2 q' km'"
    unfolding c2 by blast
  have "complete_loop H q km = Some (q', km')"
    using st(1) s2(1) s3(1) by (subst complete_loop.simps) (simp add: q1_def)
  moreover note sp = spec_complete_Cons [of ?ce "ce_list H n q1" "abs_reqs q", folded st(3) s2(4)]
  moreover have "status_next q q'"
  proof -
    have "abs_reqs q = [] \<Longrightarrow> abs_reqs q2 = []" using s2(4) by simp
    moreover have "abs_reqs q2 = [] \<Longrightarrow> abs_reqs q' = []" using s3(4) by simp
    ultimately show ?thesis using s2(7) s3(8) unfolding status_next_def by presburger
  qed
  ultimately show ?case
    using s2(3,6) s3 complete_frame_trans [OF s2(8) s3(9)] unfolding sp by auto
qed

section \<open>Ending all requests by force\<close>

lemma end_loop_ok:
  assumes "reqs_inv H es (set ts) q km" and "distinct ts"
  shows "\<exists>q' km' es'. end_loop H ret ts q km = Some (q', km') \<and> reqs_inv H es' {} q' km' \<and>
    blk_log q' = blk_log q @ map (\<lambda>t. Ended t ret) ts \<and> queue_rest_eq q q' \<and>
    (slots_exact (set ts) q \<longrightarrow> slots_exact {} q') \<and> pages_frame q km q' km' \<and>
    (\<forall>u. u \<notin> set ts \<longrightarrow> pdus q' u = pdus q u)"
  using assms
proof (induction ts arbitrary: es q km)
  case Nil
  then show ?case by (auto simp: queue_rest_eq_def pages_frame_refl)
next
  case (Cons t ts)
  have T: "set (t # ts) - {t} = set ts" using Cons.prems(2) by auto
  from complete_step [OF Cons.prems(1), of t ret] obtain q1 km1 es1 where
    s1: "complete_inflight_req H t ret q km = Some (q1, km1)" "reqs_inv H es1 (set ts) q1 km1"
      "blk_log q1 = blk_log q @ [Ended t ret]" "queue_rest_eq q q1" "\<forall>u. u \<noteq> t \<longrightarrow> pdus q1 u = pdus q u"
      "\<forall>i < length (data_bitmap q). data_bitmap q1 ! i \<longleftrightarrow> data_bitmap q ! i \<and> i \<notin> owned (pdus q t)"
      "length (data_bitmap q1) = length (data_bitmap q)" "pages_frame q km q1 km1"
    unfolding T by auto
  from Cons.IH [OF s1(2)] Cons.prems(2) obtain q' km' es' where
    s2: "end_loop H ret ts q1 km1 = Some (q', km')" "reqs_inv H es' {} q' km'"
      "blk_log q' = blk_log q1 @ map (\<lambda>t. Ended t ret) ts" "queue_rest_eq q1 q'"
      "slots_exact (set ts) q1 \<longrightarrow> slots_exact {} q'" "pages_frame q1 km1 q' km'"
      "\<forall>u. u \<notin> set ts \<longrightarrow> pdus q' u = pdus q1 u" by auto
  have "slots_exact (set ts) q1" if "slots_exact (set (t # ts)) q"
    using slots_exact_drop [OF that _ _ s1(6,7,5)] Cons.prems(1) unfolding T by (simp add: reqs_inv_def)
  moreover have "queue_rest_eq q q'" using s1(4) s2(4) by (simp add: queue_rest_eq_def)
  ultimately show ?case using s1 s2 pages_frame_trans [OF s1(8) s2(6)] by auto
qed

end
