(* ===== verification/Request_Submit.thy ===== *)
theory Request_Submit
  imports Request_Steps
begin

text \<open>
  Submission against the invariant: the work item of a request that is not outstanding
  adds exactly this request, or leaves the outstanding requests as they were.
\<close>

section \<open>After the preparation\<close>

text \<open>The requests already outstanding are not affected by the preparation of another one.\<close>

lemma reqs_inv_grow:
  fixes q q1 :: ubbd_queue
  assumes inv: "reqs_inv H es T q km" and fr: "pool_frame q q1" and p1: "pool_inv {} q1 km1"
    and bm: "length (data_bitmap q1) = length (data_bitmap q)"
      "\<forall>i < length (data_bitmap q). data_bitmap q ! i \<longrightarrow> data_bitmap q1 ! i"
    and bio: "\<And>r. bio_ok q km r \<Longrightarrow> bio_ok q1 km1 r"
  shows "reqs_inv H es T q1 km1"
proof -
  note f = pool_frameD [OF fr] queue_frameD [OF fr]
  have rc: "ring_rep H es q1 = ring_rep H es q" "unf H es q1 = unf H es q"
    using ring_rep_cong [of q1 q] f by simp_all
  have "req_ok H es q1 km1 r" if "req_ok H es q km r" for r
    using that bm rq_wf_cong [OF _ bio] rc f(8) unfolding req_ok_def by auto
  then show ?thesis
    using inv rc f p1 by (auto simp: reqs_inv_def)
qed

lemma reqs_inv_pdu:
  assumes "reqs_inv H es T q km" and "tag \<notin> T"
  shows "reqs_inv H es T (q\<lparr>pdus := (pdus q)(tag := r)\<rparr>) km"
proof -
  let ?q = "q\<lparr>pdus := (pdus q)(tag := r)\<rparr>"
  have rc: "ring_rep H es ?q = ring_rep H es q" "unf H es ?q = unf H es q"
    using ring_rep_cong [of ?q q] by simp_all
  have "req_ok H es ?q km x = req_ok H es q km x" for x
    using rc by (simp add: req_ok_def rq_wf_def bio_ok_def)
  moreover have "pool_inv {} ?q km = pool_inv {} q km" by (simp add: pool_inv_def)
  moreover have pd: "pdus ?q t = pdus q t" if "t \<in> T" for t using that assms(2) by auto
  ultimately show ?thesis
    using assms rc unfolding reqs_inv_def reqs_apart_def
    by (simp add: pd del: ubbd_queue.simps)
qed

lemma bio_ok_unchanged:
  assumes "unchanged_use r0 q km r1 q1 km1" and "bio_ok q km r"
  shows "bio_ok q1 km1 r"
proof -
  have "p \<in> dom (km_pages km1) - ran (data_pages_array q1)" if p: "p \<in> dom (km_pages km) - ran (data_pages_array q)" for p
  proof -
    have "\<forall>i < length (data_bitmap q). data_pages_array q i = Some p \<longrightarrow> data_bitmap q ! i"
      using p by (auto simp: ran_def)
    then have "km_pages km1 p = km_pages km p" using assms(1) p by (auto simp: unchanged_use_def)
    then show ?thesis using assms(1) p unfolding unchanged_use_def by (auto simp: dom_def)
  qed
  then show ?thesis using assms(2) unfolding bio_ok_def by blast
qed

lemma bio_ok_prepared:
  assumes "prep_ok r0 q km r1 q1 km1" and "bio_ok q km r"
  shows "bio_ok q1 km1 r"
proof -
  have "p \<in> dom (km_pages km1) - ran (data_pages_array q1)" if "p \<in> dom (km_pages km) - ran (data_pages_array q)" for p
    using that assms(1) unfolding prep_ok_def by blast
  then show ?thesis using assms(2) unfolding bio_ok_def by blast
qed

section \<open>Adding a request\<close>

text \<open>The invariant with one more entry on the ring and the request behind it.\<close>

lemma unf_put:
  fixes q q' :: "'a cmd_ring_scheme"
  assumes rep': "ring_rep H (es @ pads @ [e]) q'" and rep: "ring_rep H es q"
    and loc: "\<And>gs. se_loc H q' gs = se_loc H q gs"
    and e: "\<not> se_done H e" and pads: "list_all (is_pad H) pads"
  shows "unf H es q \<subseteq> unf H (es @ pads @ [e]) q'" (is "?A")
    "se_loc H q (es @ pads) \<in> unf H (es @ pads @ [e]) q'" (is "?B")
    "cmdr_mem q' (se_loc H q (es @ pads)) = e" (is "?C")
    "off \<in> unf H es q \<Longrightarrow> cmdr_mem q' off = cmdr_mem q off \<and> off \<noteq> se_loc H q (es @ pads)" (is "_ \<Longrightarrow> ?D")
    "off \<in> unf H (es @ pads @ [e]) q' \<Longrightarrow> off \<in> unf H es q \<or> off = se_loc H q (es @ pads) \<or>
       hdr_get_op H (se_len_op (cmdr_mem q' off)) = UBBD_OP_PAD" (is "_ \<Longrightarrow> ?E")
proof -
  let ?all = "es @ pads @ [e]"
  have nth: "cmdr_mem q' (se_loc H q (take i ?all)) = ?all ! i" if "i < length ?all" for i
    using ring_entry_at [OF rep' that] loc by simp
  have lu: "unf H es q' = unf H es q" by (rule unfinished_locs_cong) (rule loc)
  show ?A using unfinished_locs_append [of "se_loc H" "se_done H" q' es "pads @ [e]"] lu by auto
  show ?C using nth [of "length es + length pads"] by simp
  show ?B
    using e loc unfolding unfinished_locs_def
    by (intro CollectI exI [of _ "length es + length pads"]) simp
  show ?D if "off \<in> unf H es q"
  proof -
    obtain i where i: "i < length es" "off = se_loc H q (take i es)"
      using \<open>off \<in> unf H es q\<close> by (auto simp: unfinished_locs_def)
    have "cmdr_mem q' off = es ! i" using nth [of i] i by (simp add: nth_append)
    moreover have "cmdr_mem q off = es ! i" using ring_entry_at [OF rep i(1)] i(2) by simp
    moreover have "off \<noteq> se_loc H q (es @ pads)"
      using cr.loc_inj_iff [OF rep', of i "length es + length pads"] i loc by simp
    ultimately show ?thesis by simp
  qed
  show ?E if "off \<in> unf H ?all q'"
  proof -
    obtain i where i: "i < length ?all" "\<not> se_done H (?all ! i)" "off = se_loc H q (take i ?all)"
      using \<open>off \<in> unf H ?all q'\<close> loc by (auto simp: unfinished_locs_def)
    consider "i < length es" | "length es \<le> i" "i < length es + length pads" | "i = length es + length pads"
      using i(1) by fastforce
    then show ?thesis
    proof cases
      case 1
      then show ?thesis using i by (auto simp: unfinished_locs_def nth_append)
    next
      case 2
      then have "?all ! i \<in> set pads" by (auto simp: nth_append)
      then show ?thesis using nth [OF i(1)] i(3) pads by (auto simp: list_all_iff is_pad_def)
    next
      case 3
      then show ?thesis using i(3) by simp
    qed
  qed
qed

lemma tid_fresh:
  assumes "x \<le> (t :: u64)" and "t < - 1"
  shows "x \<noteq> t + 1" "x \<le> t + 1" 
proof -
  have "unat t + 1 < 2 ^ 64" using assms(2) by (simp add: word_less_nat_alt unsigned_minus_1_eq_mask mask_eq_exp_minus_1)
  then have "unat (t + 1) = unat t + 1" using unat_add_lem [of t 1] by simp
  then have "x < t + 1" using assms(1) by (simp add: word_less_nat_alt word_le_nat_alt)
  then show "x \<noteq> t + 1" "x \<le> t + 1" by auto
qed

lemma reqs_apart_insert:
  assumes "reqs_apart T f" and "tag \<notin> T"
    and "\<And>t. t \<in> T \<Longrightarrow> owned r \<inter> owned (f t) = {}" "\<And>t. t \<in> T \<Longrightarrow> ur_se (f t) \<noteq> ur_se r"
      "\<And>t. t \<in> T \<Longrightarrow> ur_tid (f t) \<noteq> ur_tid r"
  shows "reqs_apart (insert tag T) (f(tag := r))"
  unfolding reqs_apart_def
proof (intro ballI impI)
  fix t u assume tu: "t \<in> insert tag T" "u \<in> insert tag T" "t \<noteq> u"
  show "owned ((f(tag := r)) t) \<inter> owned ((f(tag := r)) u) = {} \<and>
    ur_se ((f(tag := r)) t) \<noteq> ur_se ((f(tag := r)) u) \<and> ur_tid ((f(tag := r)) t) \<noteq> ur_tid ((f(tag := r)) u)"
  proof (cases "t = tag")
    case True
    then have "u \<in> T" "u \<noteq> tag" using tu by auto
    then show ?thesis using True assms(3-5) [of u] by auto
  next
    case t: False
    then have "t \<in> T" using tu by auto
    then show ?thesis
      using t tu assms(1) assms(3-5) [of t] by (cases "u = tag") (auto simp: reqs_apart_def)
  qed
qed

text \<open>
  The request \<open>r\<close>, prepared and not yet on the ring, becomes outstanding by the publication of
  its entry.
\<close>

lemma reqs_inv_add:
  fixes q q2 :: ubbd_queue
  assumes inv: "reqs_inv H es T q km" and tag: "tag \<notin> T" and tid: "q_req_tid q < - 1"
    and rep: "ring_rep H (es @ pads @ [se_of H q r]) q2" and loc: "\<And>gs. se_loc H q2 gs = se_loc H q gs"
    and pads: "list_all (is_pad H) pads" and q2: "q2 = q\<lparr>cmd_head := h, cmdr_mem := m\<rparr>"
    and r: "ur_tid r = q_req_tid q + 1" "ur_se r = Some (se_loc H q (es @ pads))"
    and wf: "rq_wf q km r" "prep_req r r" and own: "\<forall>i \<in> owned r. i < length (data_bitmap q) \<and> data_bitmap q ! i"
    and dis: "\<forall>t \<in> T. owned r \<inter> owned (pdus q t) = {}"
  shows "reqs_inv H (es @ pads @ [se_of H q r]) (insert tag T)
    (ubbd_kring_event_notify (q2\<lparr>q_req_tid := q_req_tid q + 1, pdus := (pdus q)(tag := r)\<rparr>)) km"
proof -
  define q3 where "q3 = q2\<lparr>q_req_tid := q_req_tid q + 1, pdus := (pdus q)(tag := r)\<rparr>"
  let ?es = "es @ pads @ [se_of H q r]" and ?off = "se_loc H q (es @ pads)"
  have H: "ubbd_h_ok H" and rep0: "ring_rep H es q" using inv by (auto simp: reqs_inv_def ring_rep_def)
  have nd: "\<not> se_done H (se_of H q r)" using H by (simp add: se_of_def)
  note u = unf_put [OF rep rep0 loc nd pads]
  have ring3: "cmdr_size q3 = cmdr_size q2" "cmd_head q3 = cmd_head q2" "cmd_tail q3 = cmd_tail q2" "cmdr_mem q3 = cmdr_mem q2"
    by (simp_all add: q3_def)
  note rc = ring_rep_cong [OF ring3]
  have cnt: "unat (ur_pi_cnt r) < 2 ^ 16" using wf by (auto simp: prep_req_def rq_wf_def need_def)
  have op: "hdr_get_op H (se_len_op (se_of H q r)) = ur_op r" "se_priv_data (se_of H q r) = ur_tid r"
    using ubbd_h_codec(2) [OF H cmd_size_bounds(1) [OF H cnt]] by (simp_all add: se_of_def)
  have f3: "data_bitmap q3 = data_bitmap q" "data_pages_array q3 = data_pages_array q" "data_pages q3 = data_pages q"
      "data_pages_allocated q3 = data_pages_allocated q" "inode_set q3 = inode_set q" "pdus q3 = (pdus q)(tag := r)"
      "q_req_tid q3 = q_req_tid q + 1"
    by (simp_all add: q3_def q2)
  have wf3: "rq_wf q3 km x = rq_wf q km x" for x using f3 by (simp add: rq_wf_def bio_ok_def)
  have new: "req_ok H ?es q3 km r"
    using wf own u(2,3) r(2) op unfolding req_ok_def by (auto simp: wf3 f3 rc ring3)
  have old: "req_ok H ?es q3 km (pdus q t)" if "t \<in> T" for t
  proof -
    have "req_ok H es q km (pdus q t)" using inv that by (simp add: reqs_inv_def)
    then show ?thesis using u(1,4) unfolding req_ok_def by (fastforce simp: wf3 f3 rc ring3)
  qed
  have le: "ur_tid (pdus q t) \<le> q_req_tid q" if "t \<in> T" for t using inv that by (simp add: reqs_inv_def)
  have se: "ur_se (pdus q t) \<noteq> Some ?off" if "t \<in> T" for t
    using inv that u(4) by (fastforce simp: reqs_inv_def req_ok_def)
  have pd: "pdus q3 t = pdus q t" if "t \<in> T" for t using that tag by (auto simp: f3)
  have ap: "reqs_apart (insert tag T) (pdus q3)"
    unfolding f3(6)
  proof (rule reqs_apart_insert [OF _ tag])
    show "reqs_apart T (pdus q)" using inv by (simp add: reqs_inv_def)
    show "ur_tid (pdus q t) \<noteq> ur_tid r" if "t \<in> T" for t using tid_fresh(1) [OF le [OF that] tid] r(1) by simp
    show "ur_se (pdus q t) \<noteq> ur_se r" if "t \<in> T" for t using se [OF that] r(2) by simp
    show "owned r \<inter> owned (pdus q t) = {}" if "t \<in> T" for t using dis that by blast
  qed
  have cover: "\<forall>o1 \<in> unf H ?es q3. hdr_get_op H (se_len_op (cmdr_mem q3 o1)) = UBBD_OP_PAD \<or>
      (\<exists>t \<in> insert tag T. ur_se (pdus q3 t) = Some o1)"
  proof
    fix o1 assume o1: "o1 \<in> unf H ?es q3"
    from u(5) [of o1] o1 consider "o1 \<in> unf H es q" | "o1 = ?off" | "hdr_get_op H (se_len_op (cmdr_mem q2 o1)) = UBBD_OP_PAD"
      by (auto simp: rc)
    then show "hdr_get_op H (se_len_op (cmdr_mem q3 o1)) = UBBD_OP_PAD \<or> (\<exists>t \<in> insert tag T. ur_se (pdus q3 t) = Some o1)"
    proof cases
      case 1
      then show ?thesis using inv u(4) pd by (fastforce simp: reqs_inv_def ring3)
    qed (simp_all add: r f3 ring3)
  qed
  have "pool_inv {} q3 km" using inv pool_inv_cong [of q3 q] f3 by (simp add: reqs_inv_def)
  moreover have "\<forall>t \<in> insert tag T. req_ok H ?es q3 km (pdus q3 t) \<and> ur_tid (pdus q3 t) \<le> q_req_tid q3"
    using new old pd r(1) tid_fresh(2) [OF le tid] by (auto simp: f3)
  ultimately have "reqs_inv H ?es (insert tag T) q3 km"
    using ap cover rep inv unfolding reqs_inv_def by (simp add: rc f3(5))
  then show ?thesis
    using reqs_inv_cong [of "ubbd_kring_event_notify q3" q3] by (simp add: ubbd_kring_event_notify_def q3_def)
qed

section \<open>The work item\<close>

text \<open>What a submission needs: the request is new, well-formed, and ids have not run out.\<close>

definition fresh_req :: "nat \<Rightarrow> ubbd_queue \<Rightarrow> kmem \<Rightarrow> bool" where
  "fresh_req tag q km \<longleftrightarrow> tag \<notin> set (inflight_reqs q) \<and> pi_ok (pdus q tag) \<and> ur_pi (pdus q tag) = None \<and>
     rq_wf q km (pdus q tag) \<and> q_req_tid q < - 1"

lemma slots_exact_pdu:
  assumes "slots_exact T q" and "tag \<notin> T" and "data_bitmap q' = data_bitmap q" and "\<forall>t \<in> T. pdus q' t = pdus q t"
  shows "slots_exact T q'"
  using assms by (simp add: slots_exact_def)

lemma slots_exact_add:
  assumes "slots_exact T q" and "tag \<notin> T" and "\<forall>t \<in> T. pdus q' t = pdus q t" and "pdus q' tag = r"
    and "length (data_bitmap q') = length (data_bitmap q)"
    and "\<forall>i < length (data_bitmap q). data_bitmap q' ! i \<longleftrightarrow> data_bitmap q ! i \<or> i \<in> owned r"
  shows "slots_exact (insert tag T) q'"
  using assms by (auto simp: slots_exact_def)

lemma prep_req_self:
  assumes "prep_req r0 r" and r': "r' = r\<lparr>ur_tid := x, ur_se := y\<rparr>"
  shows "prep_req r' r'" "owned r' = owned r" "slot_of r' j = slot_of r j" "need r' = need r0" "need r = need r0"
    "ur_req r' = ur_req r0" "ur_op r' = ur_op r0" "ur_pi_cnt r' = ur_pi_cnt r" "ubbd_req_get_pi r' j = ubbd_req_get_pi r j"
proof -
  have g: "ubbd_req_get_pi r' = ubbd_req_get_pi r" by (simp add: r' fun_eq_iff ubbd_req_get_pi_def)
  then have s: "slot_of r' = slot_of r" by (simp add: fun_eq_iff slot_of_def)
  have n: "need r' = need r0" "need r = need r0"
    using assms(1) by (simp_all add: r' need_def data_req_def rq_segs_def prep_req_def)
  show "owned r' = owned r" "slot_of r' j = slot_of r j" using s by (simp_all add: owned_def r')
  show "prep_req r' r'" using assms(1) g s n by (simp add: prep_req_def pi_ok_def pi_cap_def r')
  show "need r' = need r0" "need r = need r0" by (fact n)+
  show "ur_req r' = ur_req r0" "ur_op r' = ur_op r0" "ur_pi_cnt r' = ur_pi_cnt r"
      "ubbd_req_get_pi r' j = ubbd_req_get_pi r j"
    using assms(1) g by (simp_all add: r' prep_req_def)
qed

lemma workfn_prepare_cases:
  assumes inv: "queue_inv H es q km" and fresh: "fresh_req tag q km"
  obtains (ok) r q1 km1 where "workfn_prepare tag q km = Some (0, q1\<lparr>pdus := (pdus q)(tag := r)\<rparr>, km1)"
      "prep_ok (pdus q tag) q km r q1 km1" "pool_inv {} q1 km1"
      "ur_op (pdus q tag) = UBBD_OP_WRITE \<Longrightarrow> data_written r km q1 km1"
      "reqs_inv H es (set (inflight_reqs q)) (q1\<lparr>pdus := (pdus q)(tag := r)\<rparr>) km1"
  | (nomem) r q1 km1 where "workfn_prepare tag q km = Some (- ENOMEM, q1\<lparr>pdus := (pdus q)(tag := r)\<rparr>, km1)"
      "\<exists>r0. unchanged_use r0 q km r q1 km1" "km_oracle km \<noteq> [] \<or> free_slots (data_bitmap q) < need (pdus q tag)"
      "reqs_inv H es (set (inflight_reqs q)) (q1\<lparr>pdus := (pdus q)(tag := r)\<rparr>) km1"
proof -
  have ri: "reqs_inv H es (set (inflight_reqs q)) q km" and p: "pool_inv {} q km" "inode_set q"
    using inv by (auto simp: queue_inv_def reqs_inv_def)
  have tag: "tag \<notin> set (inflight_reqs q)" and r: "pi_ok (pdus q tag)" "ur_pi (pdus q tag) = None" "rq_wf q km (pdus q tag)"
    using fresh by (simp_all add: fresh_req_def)
  show ?thesis
  proof (cases rule: prepare_cases [OF p r])
    case (1 r' q1 km1)
    have fr: "pool_frame q q1" using 1(3) by (simp add: prep_ok_def)
    have "reqs_inv H es (set (inflight_reqs q)) q1 km1"
      by (rule reqs_inv_grow [OF ri fr 1(2)]) (use 1(3) bio_ok_prepared [OF 1(3)] in \<open>auto simp: prep_ok_def\<close>)
    from reqs_inv_pdu [OF this tag, of r'] show ?thesis
      using ok [of r' q1 km1] 1 queue_frameD(4) [OF fr] by (simp add: workfn_prepare_def)
  next
    case (2 r' q1 km1)
    then obtain r0 where un: "unchanged_use r0 q km r' q1 km1" by blast
    have fr: "pool_frame q q1" using un by (simp add: unchanged_use_def)
    have "reqs_inv H es (set (inflight_reqs q)) q1 km1"
      by (rule reqs_inv_grow [OF ri fr 2(2)]) (use un bio_ok_unchanged [OF un] in \<open>auto simp: unchanged_use_def\<close>)
    from reqs_inv_pdu [OF this tag, of r'] show ?thesis
      using nomem [of r' q1 km1] 2 queue_frameD(4) [OF fr] by (simp add: workfn_prepare_def)
  qed
qed

text \<open>The section under \<open>cmdr_lock\<close> when there is room.\<close>

lemma submit_ok:
  fixes q1 :: ubbd_queue
  assumes inv: "reqs_inv H es T q1 km" and tag: "tag \<notin> T" and tid: "q_req_tid q1 < - 1"
    and r: "prep_req r0 (pdus q1 tag)" "rq_wf q1 km r0" "owned (pdus q1 tag) \<subseteq> {i. i < length (data_bitmap q1) \<and> data_bitmap q1 ! i}"
      "\<forall>t \<in> T. owned (pdus q1 tag) \<inter> owned (pdus q1 t) = {}"
    and room: "submit_ring_space_enough H q1 (ubbd_get_cmd_size H (pdus q1 tag))"
  shows "\<exists>q' pads r off. workfn_submit H tag q1 = Some q' \<and>
    r = (pdus q1 tag)\<lparr>ur_tid := q_req_tid q1 + 1, ur_se := Some off\<rparr> \<and> list_all (is_pad H) pads \<and>
    reqs_inv H (es @ pads @ [se_of H q1 r]) (insert tag T) q' km \<and> pdus q' = (pdus q1)(tag := r) \<and>
    q_req_tid q' = q_req_tid q1 + 1 \<and> kring_event q' = kring_event q1 + 1 \<and> blk_log q' = blk_log q1 \<and>
    inflight_reqs q' = inflight_reqs q1 \<and> data_bitmap q' = data_bitmap q1 \<and> data_pages_array q' = data_pages_array q1 \<and>
    q_status q' = q_status q1 \<and> cmdr_mem q' off = se_of H q1 r \<and> data_off q' = data_off q1 \<and>
    task_wq q' = task_wq q1 \<and> compr_same q1 q'"
proof -
  let ?r0 = "pdus q1 tag" and ?n = "ubbd_get_cmd_size H (pdus q1 tag)"
  have H: "ubbd_h_ok H" and rep: "ring_rep H es q1" using inv by (auto simp: reqs_inv_def ring_rep_def)
  have cnt: "unat (ur_pi_cnt ?r0) < 2 ^ 16" using r(1,2) by (auto simp: prep_req_def rq_wf_def need_def)
  define e where "e off = se_of H q1 (?r0\<lparr>ur_tid := q_req_tid q1 + 1, ur_se := Some off\<rparr>)" for off
  have e0: "e off = e 0" for off
    unfolding e_def by (metis (no_types) se_of_cong(2))
  have fit: "se_fits H (e 0) ?n" unfolding e_def using se_of_fits [OF H, of "?r0\<lparr>ur_tid := q_req_tid q1 + 1, ur_se := Some 0\<rparr>" q1] cnt by simp
  obtain q2 q3 pads where p: "insert_padding H ?n q1 = Some q2" "publish (e 0) ?n q2 = Some q3"
      "ring_rep H (es @ pads @ [e 0]) q3" "list_all (is_pad H) pads" "\<And>fs. se_loc H q3 fs = se_loc H q1 fs"
      "get_submit_entry q2 = se_loc H q1 (es @ pads)" "unat (cmd_head q2) + unat ?n \<le> unat (cmdr_size q2)"
    using ring_put_loc [OF rep room fit] by blast
  let ?off = "se_loc H q1 (es @ pads)"
  define r where "r = ?r0\<lparr>ur_tid := q_req_tid q1 + 1, ur_se := Some ?off\<rparr>"
  have er: "e 0 = se_of H q1 r" unfolding r_def using e0 [of ?off] by (simp add: e_def)
  have iov: "rq_bio (ur_req ?r0) \<noteq> [] \<and> length (concat (rq_bio (ur_req ?r0))) = unat (ur_pi_cnt ?r0) \<and>
      (\<forall>j < unat (ur_pi_cnt ?r0). ubbd_req_get_pi ?r0 j \<noteq> None)" if "ur_pi_cnt ?r0 \<noteq> 0"
  proof -
    have "need r0 \<noteq> 0" using that assms(4) by (auto simp: prep_req_def word_unat_eq_iff)
    then show ?thesis using assms(4,5) by (auto simp: prep_req_def rq_wf_def need_def rq_segs_def split: if_splits)
  qed
  have sub: "workfn_submit H tag q1 =
      Some (ubbd_kring_event_notify (q3\<lparr>q_req_tid := q_req_tid q1 + 1, pdus := (pdus q1)(tag := r)\<rparr>))"
    by (rule submit_publish [OF H room refl refl cnt p(1,7) iov]) (use p(2,6) er in \<open>simp_all add: r_def\<close>)
  obtain h m where q3: "q3 = q1\<lparr>cmd_head := h, cmdr_mem := m\<rparr>"
  proof -
    have "q3 = q1\<lparr>cmd_head := cmd_head q3, cmdr_mem := cmdr_mem q3\<rparr>"
      by (subst publish_form [OF p(2)], subst insert_padding_form [OF p(1)]) simp
    then show ?thesis using that by blast
  qed
  note self = prep_req_self [OF assms(4) r_def]
  have wf: "rq_wf q1 km r" using assms(5) self(4,6,7)
    by (simp add: rq_wf_def bio_ok_def data_req_def rq_segs_def)
  have "reqs_inv H (es @ pads @ [se_of H q1 r]) (insert tag T)
      (ubbd_kring_event_notify (q3\<lparr>q_req_tid := q_req_tid q1 + 1, pdus := (pdus q1)(tag := r)\<rparr>)) km"
    by (rule reqs_inv_add [OF inv tag tid p(3) [unfolded er] p(5,4) q3 _ _ wf self(1)])
      (use assms(6,7) self(2) in \<open>auto simp: r_def\<close>)
  moreover have "cmdr_mem q3 ?off = se_of H q1 r"
    using ring_entry_at [OF p(3), of "length es + length pads"] p(5) er by simp
  ultimately show ?thesis
    using sub p(4)
    by (intro exI [of _ "ubbd_kring_event_notify (q3\<lparr>q_req_tid := q_req_tid q1 + 1, pdus := (pdus q1)(tag := r)\<rparr>)"]
        exI [of _ pads] exI [of _ r] exI [of _ ?off])
      (auto simp: ubbd_kring_event_notify_def q3 r_def compr_same_def)
qed

text \<open>The size of the command of a request.\<close>

definition need_size :: "ubbd_h \<Rightarrow> ubbd_request \<Rightarrow> u32" where
  "need_size H r = ubbd_get_cmd_size H (r\<lparr>ur_pi_cnt := word_of_nat (need r)\<rparr>)"

lemma prepared_size: "prep_req r0 r \<Longrightarrow> ubbd_get_cmd_size H r = need_size H r0"
proof -
  assume "prep_req r0 r"
  then have "word_of_nat (need r0) = (word_of_nat (unat (ur_pi_cnt r)) :: u32)" by (simp add: prep_req_def)
  then show ?thesis by (simp add: need_size_def ubbd_get_cmd_size_def)
qed

text \<open>The slots of a prepared request were free.\<close>

lemma prepared_free:
  assumes "prep_ok r0 q km r q1 km1"
  shows "need r0 \<le> free_slots (data_bitmap q)" "card (owned r) = need r0"
proof -
  show c: "card (owned r) = need r0"
    using assms by (simp add: owned_def prep_ok_def prep_req_def card_image)
  have "owned r \<subseteq> {i. i < length (data_bitmap q) \<and> \<not> data_bitmap q ! i}" using assms by (auto simp: prep_ok_def)
  then have "card (owned r) \<le> free_slots (data_bitmap q)" unfolding free_slots_def by (intro card_mono) simp_all
  then show "need r0 \<le> free_slots (data_bitmap q)" using c by simp
qed

text \<open>The outcomes of the work item on a running queue.\<close>

definition submitted :: "ubbd_h \<Rightarrow> nat \<Rightarrow> ubbd_se list \<Rightarrow> ubbd_queue \<Rightarrow> kmem \<Rightarrow> ubbd_queue \<Rightarrow> kmem \<Rightarrow> bool" where
  "submitted H tag es q km q' km' \<longleftrightarrow>
     (\<exists>pads off. list_all (is_pad H) pads \<and> ur_se (pdus q' tag) = Some off \<and>
        queue_inv H (es @ pads @ [se_of H q' (pdus q' tag)]) q' km' \<and> cmdr_mem q' off = se_of H q' (pdus q' tag)) \<and>
     inflight_reqs q' = inflight_reqs q @ [tag] \<and> blk_log q' = blk_log q \<and>
     ur_tid (pdus q' tag) = q_req_tid q + 1 \<and> q_req_tid q' = q_req_tid q + 1 \<and>
     ur_req (pdus q' tag) = ur_req (pdus q tag) \<and> ur_op (pdus q' tag) = ur_op (pdus q tag) \<and>
     unat (ur_pi_cnt (pdus q' tag)) = need (pdus q tag) \<and>
     kring_event q' = kring_event q + 1 \<and> q_status q' = q_status q \<and> (\<forall>t. t \<noteq> tag \<longrightarrow> pdus q' t = pdus q t) \<and>
     (ur_op (pdus q tag) = UBBD_OP_WRITE \<longrightarrow> data_written (pdus q' tag) km q' km') \<and>
     (q_used q \<longrightarrow> q_used q')"

definition requeued :: "ubbd_h \<Rightarrow> nat \<Rightarrow> ubbd_se list \<Rightarrow> ubbd_queue \<Rightarrow> ubbd_queue \<Rightarrow> kmem \<Rightarrow> bool" where
  "requeued H tag es q q' km' \<longleftrightarrow> queue_inv H es q' km' \<and> inflight_reqs q' = inflight_reqs q \<and>
     blk_log q' = blk_log q @ [Requeued tag] \<and> q_req_tid q' = q_req_tid q \<and> kring_event q' = kring_event q \<and>
     q_status q' = q_status q \<and> (\<forall>t. t \<noteq> tag \<longrightarrow> pdus q' t = pdus q t)"

text \<open>When the command ring is full, the slots of the request stay in use.\<close>

definition slots_kept :: "nat \<Rightarrow> ubbd_queue \<Rightarrow> ubbd_queue \<Rightarrow> bool" where
  "slots_kept tag q q' \<longleftrightarrow> length (data_bitmap q') = length (data_bitmap q) \<and>
     card (owned (pdus q' tag)) = need (pdus q tag) \<and>
     (\<forall>i \<in> owned (pdus q' tag). i < length (data_bitmap q) \<and> \<not> data_bitmap q ! i) \<and>
     (\<forall>i < length (data_bitmap q). data_bitmap q' ! i \<longleftrightarrow> data_bitmap q ! i \<or> i \<in> owned (pdus q' tag))"

lemma queue_inv_upd:
  "reqs_inv H es (set ts) q km \<Longrightarrow> distinct ts \<Longrightarrow> queue_inv H es (q\<lparr>inflight_reqs := ts\<rparr>) km"
  "reqs_inv H es T q km \<Longrightarrow> reqs_inv H es T (q\<lparr>inflight_reqs := ts\<rparr>) km"
  "reqs_inv H es T (blk_tell ev q) km = reqs_inv H es T q km"
  using reqs_inv_cong [of "q\<lparr>inflight_reqs := ts\<rparr>" q] reqs_inv_cong [of "blk_tell ev q" q]
  by (simp_all add: queue_inv_def blk_tell_def)

lemma workfn_nomem:
  assumes inv: "queue_inv H es q km" and fresh: "fresh_req tag q km"
    and un: "unchanged_use r0 q km r q1 km1" and ri: "reqs_inv H es (set (inflight_reqs q)) (q1\<lparr>pdus := (pdus q)(tag := r)\<rparr>) km1"
  shows "requeued H tag es q (workfn_end_request tag (- ENOMEM) (q1\<lparr>pdus := (pdus q)(tag := r)\<rparr>)) km1"
    "q_used q \<Longrightarrow> q_used (workfn_end_request tag (- ENOMEM) (q1\<lparr>pdus := (pdus q)(tag := r)\<rparr>))"
proof -
  let ?q1 = "q1\<lparr>pdus := (pdus q)(tag := r)\<rparr>"
  have fr: "pool_frame q q1" and bm: "data_bitmap q1 = data_bitmap q" using un by (auto simp: unchanged_use_def)
  note f = queue_frameD [OF fr]
  have e: "workfn_end_request tag (- ENOMEM) ?q1 = blk_tell (Requeued tag) ?q1" by (simp add: workfn_end_request_def)
  show "requeued H tag es q (workfn_end_request tag (- ENOMEM) ?q1) km1"
    using ri inv f unfolding e requeued_def by (simp add: queue_inv_def queue_inv_upd(3)) (simp add: blk_tell_def)
  show "q_used (workfn_end_request tag (- ENOMEM) ?q1)" if "q_used q"
    using that fresh f bm by (auto simp: e q_used_def slots_exact_def blk_tell_def fresh_req_def)
qed

lemma unchanged_frame: "unchanged_use r0 q km r q1 km1 \<Longrightarrow> pages_frame q km q1 km1"
proof -
  assume un: "unchanged_use r0 q km r q1 km1"
  have "p \<in> dom (km_pages km1)" if p: "p \<in> dom (km_pages km) - ran (data_pages_array q)" for p
  proof -
    have "\<forall>i < length (data_bitmap q). data_pages_array q i = Some p \<longrightarrow> data_bitmap q ! i" using p by (auto simp: ran_def)
    then show ?thesis using un p by (auto simp: unchanged_use_def)
  qed
  then show ?thesis using un unfolding pages_frame_def unchanged_use_def by blast
qed

lemma prep_frame: "prep_ok r q km r' q1 km1 \<Longrightarrow> pages_frame q km q1 km1"
  unfolding pages_frame_def prep_ok_def by blast

text \<open>The queue after the preparation, with the request on the inflight list.\<close>

lemma workfn_listed:
  assumes "prep_ok r0 q km r q1 km1" and q2: "q2 = workfn_inflight tag (q1\<lparr>pdus := (pdus q)(tag := r)\<rparr>)"
  shows "pdus q2 = (pdus q)(tag := r)" "inflight_reqs q2 = inflight_reqs q @ [tag]" "blk_log q2 = blk_log q"
    "q_req_tid q2 = q_req_tid q" "data_bitmap q2 = data_bitmap q1" "data_pages_array q2 = data_pages_array q1"
    "kring_event q2 = kring_event q" "q_status q2 = q_status q" "data_off q2 = data_off q" "task_wq q2 = task_wq q" "compr_same q q2"
    "submit_ring_space_enough H q2 n = submit_ring_space_enough H q n"
proof -
  have fr: "pool_frame q q1" using assms(1) by (simp add: prep_ok_def)
  show "pdus q2 = (pdus q)(tag := r)" "inflight_reqs q2 = inflight_reqs q @ [tag]" "blk_log q2 = blk_log q"
    "q_req_tid q2 = q_req_tid q" "data_bitmap q2 = data_bitmap q1" "data_pages_array q2 = data_pages_array q1"
    "kring_event q2 = kring_event q" "q_status q2 = q_status q" "data_off q2 = data_off q" "task_wq q2 = task_wq q" "compr_same q q2"
    "submit_ring_space_enough H q2 n = submit_ring_space_enough H q n"
    using queue_frameD [OF fr] pool_frameD [OF fr] by (simp_all add: q2 workfn_inflight_def compr_same_def submit_ring_space_enough_def)
qed

lemma workfn_full:
  assumes inv: "queue_inv H es q km" and tag: "tag \<notin> set (inflight_reqs q)" and pr: "prep_ok (pdus q tag) q km r q1 km1"
    and q2: "q2 = workfn_inflight tag (q1\<lparr>pdus := (pdus q)(tag := r)\<rparr>)" and ri: "reqs_inv H es (set (inflight_reqs q)) q2 km1"
    and full: "\<not> submit_ring_space_enough H q (ubbd_get_cmd_size H r)"
  shows "\<exists>q'. workfn_submit H tag q2 = Some q' \<and> requeued H tag es q q' km1 \<and> slots_kept tag q q' \<and>
    pages_frame q km q' km1 \<and> task_wq q' = task_wq q \<and> compr_same q q'"
proof -
  note l = workfn_listed [OF pr q2]
  define q3 where "q3 = blk_tell (Requeued tag) (q2\<lparr>inflight_reqs := inflight_reqs q\<rparr>)"
  have s: "workfn_submit H tag q2 = Some q3"
    using full tag by (simp add: workfn_submit_def l(1,2,12) q3_def workfn_end_request_def remove1_append)
  have "distinct (inflight_reqs q)" using inv by (simp add: queue_inv_def)
  then have "queue_inv H es q3 km1"
    using queue_inv_upd(1) [OF ri] by (simp add: queue_inv_def q3_def queue_inv_upd(3)) (simp add: blk_tell_def)
  then have "requeued H tag es q q3 km1" using l by (simp add: requeued_def q3_def blk_tell_def)
  moreover have "slots_kept tag q q3"
    using pr l prepared_free(2) [OF pr] by (simp add: slots_kept_def q3_def blk_tell_def prep_ok_def)
  moreover have "pages_frame q km q3 km1 \<and> task_wq q3 = task_wq q \<and> compr_same q q3"
    using prep_frame [OF pr] l by (simp add: q3_def blk_tell_def pages_frame_def compr_same_def)
  ultimately show ?thesis using s by blast
qed

lemma workfn_room:
  assumes inv: "queue_inv H es q km" and fresh: "fresh_req tag q km" and pr: "prep_ok (pdus q tag) q km r q1 km1"
    and dw: "ur_op (pdus q tag) = UBBD_OP_WRITE \<Longrightarrow> data_written r km q1 km1"
    and q2: "q2 = workfn_inflight tag (q1\<lparr>pdus := (pdus q)(tag := r)\<rparr>)" and ri: "reqs_inv H es (set (inflight_reqs q)) q2 km1"
    and room: "submit_ring_space_enough H q (ubbd_get_cmd_size H r)"
  shows "\<exists>q'. workfn_submit H tag q2 = Some q' \<and> submitted H tag es q km q' km1 \<and>
    pages_frame q km q' km1 \<and> task_wq q' = task_wq q \<and> compr_same q q'"
proof -
  let ?T = "set (inflight_reqs q)"
  note l = workfn_listed [OF pr q2]
  have tag: "tag \<notin> ?T" and d: "distinct (inflight_reqs q)" and tid: "q_req_tid q < - 1"
    using inv fresh by (auto simp: queue_inv_def fresh_req_def)
  have prr: "prep_req (pdus q tag) r" using pr by (simp add: prep_ok_def)
  have "\<forall>i \<in> owned (pdus q t). data_bitmap q ! i" if "t \<in> ?T" for t
    using inv that by (auto simp: queue_inv_def reqs_inv_def req_ok_def)
  then have own: "owned r \<subseteq> {i. i < length (data_bitmap q2) \<and> data_bitmap q2 ! i}" "\<forall>t \<in> ?T. owned r \<inter> owned (pdus q2 t) = {}"
    using pr tag by (auto simp: prep_ok_def l(1,5))
  have "bio_ok q1 km1 (pdus q tag) = bio_ok q2 km1 (pdus q tag)" by (simp add: bio_ok_def l)
  then have w: "rq_wf q2 km1 (pdus q tag)"
    using fresh rq_wf_cong [of q km "pdus q tag" q2 km1] bio_ok_prepared [OF pr, of "pdus q tag"] unfolding fresh_req_def by blast
  from submit_ok [OF ri tag, of "pdus q tag"] prr w own tid room l obtain q' pads r2 off where
    s: "workfn_submit H tag q2 = Some q'" "r2 = r\<lparr>ur_tid := q_req_tid q + 1, ur_se := Some off\<rparr>"
      "list_all (is_pad H) pads" "reqs_inv H (es @ pads @ [se_of H q2 r2]) (insert tag ?T) q' km1"
      "pdus q' = (pdus q2)(tag := r2)" "q_req_tid q' = q_req_tid q + 1" "kring_event q' = kring_event q + 1"
      "blk_log q' = blk_log q" "inflight_reqs q' = inflight_reqs q @ [tag]" "data_bitmap q' = data_bitmap q1"
      "data_pages_array q' = data_pages_array q1" "q_status q' = q_status q" "cmdr_mem q' off = se_of H q2 r2"
      "data_off q' = data_off q" "task_wq q' = task_wq q" "compr_same q2 q'"
    by auto
  have so: "se_of H q2 r2 = se_of H q' r2" using se_of_cong(1) [of q2 q'] s(14) l(9) by simp
  note self = prep_req_self [OF prr s(2)]
  have "queue_inv H (es @ pads @ [se_of H q' r2]) q' km1" using s(4,9) d tag so by (simp add: queue_inv_def)
  moreover have "data_written r2 km q' km1" if "ur_op (pdus q tag) = UBBD_OP_WRITE"
    using dw [OF that] self(3-6) prr s(11) by (simp add: data_written_def prep_req_def)
  moreover have "q_used q'" if "q_used q"
    using that slots_exact_add [of ?T q tag q' r2] pr tag self(2) s(5,9,10) by (simp add: q_used_def prep_ok_def l(1))
  ultimately have "submitted H tag es q km q' km1"
    using s so self(1,4,6,7,8) prr unfolding submitted_def by (auto simp: l(1) prep_req_def)
  moreover have "pages_frame q km q' km1 \<and> task_wq q' = task_wq q \<and> compr_same q q'"
    using prep_frame [OF pr] s(11,15,16) l(11) by (simp add: pages_frame_def compr_same_def)
  ultimately show ?thesis using s(1) by blast
qed

lemma workfn_cases:
  assumes inv: "queue_inv H es q km" and fresh: "fresh_req tag q km" and run: "q_status q = UBBD_QUEUE_KSTATUS_RUNNING"
  obtains (submitted) q' km' where "ubbd_queue_workfn H tag q km = Some (q', km')" "submitted H tag es q km q' km'"
      "submit_ring_space_enough H q (need_size H (pdus q tag))" "need (pdus q tag) \<le> free_slots (data_bitmap q)"
      "pages_frame q km q' km' \<and> task_wq q' = task_wq q \<and> compr_same q q'"
  | (nomem) q' km' where "ubbd_queue_workfn H tag q km = Some (q', km')" "requeued H tag es q q' km'"
      "q_used q \<Longrightarrow> q_used q'" "km_oracle km \<noteq> [] \<or> free_slots (data_bitmap q) < need (pdus q tag)"
      "pages_frame q km q' km' \<and> task_wq q' = task_wq q \<and> compr_same q q'"
  | (full) q' km' where "ubbd_queue_workfn H tag q km = Some (q', km')" "requeued H tag es q q' km'"
      "slots_kept tag q q'" "\<not> submit_ring_space_enough H q (need_size H (pdus q tag))"
      "need (pdus q tag) \<le> free_slots (data_bitmap q)" "pages_frame q km q' km' \<and> task_wq q' = task_wq q \<and> compr_same q q'"
proof -
  have tag: "tag \<notin> set (inflight_reqs q)" using fresh by (simp add: fresh_req_def)
  have st: "workfn_status q = 0" using run by (simp add: workfn_status_def)
  show ?thesis
  proof (cases rule: workfn_prepare_cases [OF inv fresh])
    case (2 r q1 km1)
    then have "ubbd_queue_workfn H tag q km =
        Some (workfn_end_request tag (- ENOMEM) (q1\<lparr>pdus := (pdus q)(tag := r)\<rparr>), km1)"
      using st by (simp add: ubbd_queue_workfn_def)
    moreover obtain r0 where un: "unchanged_use r0 q km r q1 km1" using 2(2) by blast
    moreover have "pages_frame q km q' km1 \<and> task_wq q' = task_wq q \<and> compr_same q q'"
      if q': "q' = workfn_end_request tag (- ENOMEM) (q1\<lparr>pdus := (pdus q)(tag := r)\<rparr>)" for q'
      using unchanged_frame [OF un] un queue_frameD(5-9) [of q q1]
      by (simp add: q' unchanged_use_def workfn_end_request_def blk_tell_def pages_frame_def compr_same_def)
    ultimately show ?thesis using nomem workfn_nomem [OF inv fresh _ 2(4)] 2(3) by blast
  next
    case (1 r q1 km1)
    define q2 where "q2 = workfn_inflight tag (q1\<lparr>pdus := (pdus q)(tag := r)\<rparr>)"
    have wf: "workfn_submit H tag q2 = Some q' \<Longrightarrow> ubbd_queue_workfn H tag q km = Some (q', km1)" for q'
      using 1(1) st by (simp add: ubbd_queue_workfn_def q2_def)
    have ri: "reqs_inv H es (set (inflight_reqs q)) q2 km1" using queue_inv_upd(2) [OF 1(5)] by (simp add: q2_def workfn_inflight_def)
    have sz: "ubbd_get_cmd_size H r = need_size H (pdus q tag)" using prepared_size [of "pdus q tag" r H] 1(2) by (simp add: prep_ok_def)
    note free = prepared_free(1) [OF 1(2)]
    show ?thesis
    proof (cases "submit_ring_space_enough H q (ubbd_get_cmd_size H r)")
      case False
      then show ?thesis using full wf workfn_full [OF inv tag 1(2) q2_def ri] sz free by metis
    next
      case True
      then show ?thesis using submitted wf workfn_room [OF inv fresh 1(2,4) q2_def ri] sz free by metis
    qed
  qed
qed

end
