(* ===== verification/Request_Props.thy ===== *)
theory Request_Props
  imports Request_Submit
begin

text \<open>
  The properties of the request path: what the work item does with a request, what the
  completion loop does with the completion ring, what a forced end leaves behind, and
  the ways in which the driver can fail here.
\<close>

section \<open>A concrete queue\<close>

text \<open>
  One write of one segment outstanding (tag 0, transaction 1, slot 1), its completion on the
  completion ring; tag 1 is a write of three segments about to be submitted.
\<close>

definition e_w :: "u32 \<Rightarrow> ubbd_se" where
  "e_w len = zero_se\<lparr>se_len_op := len OR 2, se_priv_data := 1\<rparr>"

definition r_out :: ubbd_request where
  "r_out = ur0\<lparr>ur_req := (ur_req ur0)\<lparr>rq_bio := [[bv0]]\<rparr>, ur_tid := 1, ur_pi_cnt := 1,
     ur_inline_pi := [1, 0, 0, 0], ur_se := Some 0\<rparr>"

definition queue1 :: "u32 \<Rightarrow> ubbd_queue" where
  "queue1 len = \<lparr>cmdr_size = 256, cmd_head = len, cmd_tail = 0, cmdr_mem = (\<lambda>_. zero_se)(0 := e_w len),
     data_pages = 4, data_pages_allocated = 2, data_pages_reserved = 1,
     data_bitmap = [False, True, False, False], data_pages_array = [1 \<mapsto> 1, 3 \<mapsto> 2],
     data_off = 8192, inode_set = True, user_ptes = Map.empty,
     q_status = UBBD_QUEUE_KSTATUS_RUNNING, q_req_tid = 1, inflight_reqs = [0],
     pdus = (\<lambda>_. ur0\<lparr>ur_pi_cnt := 0\<rparr>)(0 := r_out),
     compr_size = 64, compr_head = 16, compr_tail = 0,
     compr_mem = (\<lambda>_. \<lparr>ce_priv_data = 1, ce_result = 0\<rparr>),
     task_wq = [], kring_event = 0, blk_log = []\<rparr>"

lemma queue1_pool: "pool_inv {} (queue1 len) (km0 bs)"
  using pool0_inv [of bs] by (simp add: pool_inv_def pool0_def queue1_def)

lemma queue1_ring:
  assumes "len = 56 \<or> len = 168"
  shows "ring_rep H0 [e_w len] (queue1 len)" "unf H0 [e_w len] (queue1 len) = {0}"
  using assms
  by (auto simp: ring_rep_def ring_inv_def queue1_def elen_def e_w_def zero_se_def unfinished_locs_code se_loc_def)

lemma r_out_facts [simp]:
  "owned r_out = {1}" "need r_out = 1" "data_req r_out" "rq_segs r_out = 1" "prep_req r_out r_out"
  by (simp_all add: owned_def slot_of_def ubbd_req_get_pi_def r_out_def ur0_def need_def data_req_def rq_segs_def
      prep_req_def pi_ok_def pi_cap_def inj_on_def)

lemma queue1_inv:
  assumes "len = 56 \<or> len = 168"
  shows "queue_inv H0 [e_w len] (queue1 len) (km0 bs)"
proof -
  have wf: "rq_wf (queue1 len) (km0 bs) r_out"
    by (auto simp: rq_wf_def bio_ok_def) (auto simp: r_out_def ur0_def queue1_def km0_def bv0_def ran_def split: if_splits)
  have "hdr_get_op H0 (se_len_op (e_w len)) = UBBD_OP_WRITE" "se_priv_data (e_w len) = 1"
    using assms by (auto simp: e_w_def code_op_def)
  moreover have "ur_se r_out = Some 0" "ur_op r_out = UBBD_OP_WRITE" "ur_tid r_out = 1"
    by (simp_all add: r_out_def ur0_def)
  ultimately have "req_ok H0 [e_w len] (queue1 len) (km0 bs) r_out"
    using wf queue1_ring [OF assms] by (simp add: req_ok_def) (simp add: queue1_def)
  then show ?thesis
    using queue1_ring [OF assms] queue1_pool
    by (simp add: queue_inv_def reqs_inv_def reqs_apart_def) (simp add: queue1_def r_out_def)
qed

lemma one_not_last: "(1 :: u64) < - 1"
  by (simp add: word_less_nat_alt unsigned_minus_1_eq_mask mask_eq_exp_minus_1)

lemma queue1_fresh: "fresh_req 1 (queue1 len) (km0 bs)"
proof -
  have "rq_wf (queue1 len) (km0 bs) (ur0\<lparr>ur_pi_cnt := 0\<rparr>)"
    by (auto simp: rq_wf_def bio_ok_def ur0_def queue1_def km0_def bv0_def ran_def rq_segs_def split: if_splits)
  then show ?thesis
    by (simp add: fresh_req_def) (simp add: queue1_def pi_ok_def ur0_def one_not_last)
qed

lemma queue1_used: "q_used (queue1 len)"
proof -
  have "\<forall>i < 4. [False, True, False, False] ! i \<longleftrightarrow> i = 1" by (simp add: all_less_four)
  then show ?thesis by (simp add: q_used_def slots_exact_def) (simp add: queue1_def)
qed

lemma queue1_free: "free_slots (data_bitmap (queue1 len)) = 3" "need (pdus (queue1 len) 1) = 3"
  using pool0_free by (simp_all add: queue1_def pool0_def need_def data_req_def rq_segs_def ur0_def)

lemma queue1_size: "need_size H0 (pdus (queue1 len) 1) = 88"
  unfolding need_size_def queue1_free by (simp add: ubbd_get_cmd_size_def round_up_def)

section \<open>Properties\<close>

text \<open>C11: The work item of a request on a running queue returns, whatever allocations fail, and
  does one of three things: it submits the request (one new outstanding request under a
  fresh transaction id, its entry appended to the command ring behind at most padding, the
  backend notified, the data of a write in its data pages), or it hands the request back
  to the block layer. The queue invariant holds in every case.\<close>

theorem workfn_submits_or_requeues:
  assumes "queue_inv H es q km" and "fresh_req tag q km" and "q_status q = UBBD_QUEUE_KSTATUS_RUNNING"
  shows "\<exists>q' km'. ubbd_queue_workfn H tag q km = Some (q', km') \<and>
     (submitted H tag es q km q' km' \<or> requeued H tag es q q' km')"
  by (rule workfn_cases [OF assms]) blast+

theorem workfn_submits_or_requeues_witness:
  "\<exists>q' km'. ubbd_queue_workfn H0 1 (queue1 56) (km0 [False]) = Some (q', km') \<and>
     (submitted H0 1 [e_w 56] (queue1 56) (km0 [False]) q' km' \<or> requeued H0 1 [e_w 56] (queue1 56) q' km')"
  by (rule workfn_submits_or_requeues [OF queue1_inv queue1_fresh]) (simp_all add: queue1_def)

text \<open>C13: A request is never held back without need: when no allocation fails, there are enough
  free slots and the command fits the ring, the work item submits it.\<close>

theorem workfn_submits_when_room:
  assumes "queue_inv H es q km" and "fresh_req tag q km" and "q_status q = UBBD_QUEUE_KSTATUS_RUNNING"
    and "km_oracle km = []" and "need (pdus q tag) \<le> free_slots (data_bitmap q)"
    and "submit_ring_space_enough H q (need_size H (pdus q tag))"
  shows "\<exists>q' km'. ubbd_queue_workfn H tag q km = Some (q', km') \<and> submitted H tag es q km q' km'"
  by (rule workfn_cases [OF assms(1-3)]) (use assms(4-6) in auto)

theorem workfn_submits_when_room_witness:
  "\<exists>q' km'. ubbd_queue_workfn H0 1 (queue1 56) (km0 []) = Some (q', km') \<and>
     submitted H0 1 [e_w 56] (queue1 56) (km0 []) q' km'"
proof (rule workfn_submits_when_room [OF queue1_inv queue1_fresh])
  show "submit_ring_space_enough H0 (queue1 56) (need_size H0 (pdus (queue1 56) 1))"
    unfolding queue1_size by (simp add: submit_ring_space_enough_def queue1_def)
  show "need (pdus (queue1 56) 1) \<le> free_slots (data_bitmap (queue1 56))" unfolding queue1_free by simp
qed (simp_all, simp add: queue1_def)

text \<open>C37: A request turned away for lack of ring space keeps its data slots: it goes back to the
  block layer with as many slots marked in use as it has segments, owned by no outstanding
  request, and the next \<open>queue_rq\<close> overwrites the record of them.\<close>

theorem ring_full_leaks_slots:
  assumes "queue_inv H es q km" and "fresh_req tag q km" and "q_status q = UBBD_QUEUE_KSTATUS_RUNNING"
    and "km_oracle km = []" and "0 < need (pdus q tag)" and "need (pdus q tag) \<le> free_slots (data_bitmap q)"
    and "\<not> submit_ring_space_enough H q (need_size H (pdus q tag))" and "q_used q"
  shows "\<exists>q' km'. ubbd_queue_workfn H tag q km = Some (q', km') \<and> requeued H tag es q q' km' \<and>
     free_slots (data_bitmap q) = free_slots (data_bitmap q') + need (pdus q tag) \<and> \<not> q_used q'"
proof (cases rule: workfn_cases [OF assms(1-3)])
  case (3 q' km')
  let ?O = "owned (pdus q' tag)" and ?F = "{i. i < length (data_bitmap q) \<and> \<not> data_bitmap q ! i}"
  have k: "card ?O = need (pdus q tag)" "?O \<subseteq> ?F" "length (data_bitmap q') = length (data_bitmap q)"
      "\<And>i. i < length (data_bitmap q) \<Longrightarrow> data_bitmap q' ! i \<longleftrightarrow> data_bitmap q ! i \<or> i \<in> ?O"
    using 3(3) by (auto simp: slots_kept_def)
  have "{i. i < length (data_bitmap q') \<and> \<not> data_bitmap q' ! i} = ?F - ?O" using k by auto
  then have "free_slots (data_bitmap q') = card ?F - card ?O"
    using k(2) unfolding free_slots_def by (simp add: card_Diff_subset finite_subset)
  moreover have "card ?O \<le> card ?F" using k(2) by (intro card_mono) simp_all
  ultimately have "free_slots (data_bitmap q) = free_slots (data_bitmap q') + need (pdus q tag)"
    using k(1) by (simp add: free_slots_def)
  moreover have "\<not> q_used q'"
  proof -
    have "?O \<noteq> {}" using k(1) assms(5) by auto
    then obtain i where i: "i \<in> ?O" by blast
    then have i': "i < length (data_bitmap q)" "\<not> data_bitmap q ! i" "data_bitmap q' ! i" using k by auto
    have tag: "tag \<notin> set (inflight_reqs q)" using assms(2) by (simp add: fresh_req_def)
    then have "i \<notin> owned (pdus q' t)" if "t \<in> set (inflight_reqs q')" for t
      using that 3(2) assms(8) i'(1,2) by (auto simp: requeued_def q_used_def slots_exact_def)
    then show ?thesis using i'(1,3) k(3) by (auto simp: q_used_def slots_exact_def)
  qed
  ultimately show ?thesis using 3(1,2) by blast
qed (use assms(4-7) in auto)

theorem ring_full_leaks_slots_witness:
  "\<exists>q' km'. ubbd_queue_workfn H0 1 (queue1 168) (km0 []) = Some (q', km') \<and> requeued H0 1 [e_w 168] (queue1 168) q' km' \<and>
     free_slots (data_bitmap (queue1 168)) = free_slots (data_bitmap q') + need (pdus (queue1 168) 1) \<and> \<not> q_used q'"
proof (rule ring_full_leaks_slots [OF queue1_inv queue1_fresh])
  show "\<not> submit_ring_space_enough H0 (queue1 168) (need_size H0 (pdus (queue1 168) 1))"
    unfolding queue1_size by (simp add: submit_ring_space_enough_def queue1_def)
  show "need (pdus (queue1 168) 1) \<le> free_slots (data_bitmap (queue1 168))" "0 < need (pdus (queue1 168) 1)"
    unfolding queue1_free by simp_all
qed (simp_all add: queue1_used, simp add: queue1_def)

text \<open>C10: The completion of requests refines its specification. On a well-formed completion
  ring of \<open>n\<close> entries the loop returns; every entry that names an outstanding transaction ends
  that request once, with the entry's result, in ring order; entries that name none are
  ignored; the ring is consumed, and the slots of the ended requests are free again.\<close>

theorem complete_refines_spec:
  assumes "ubbd_h_ok H" and "queue_inv H es q km" and "compr_ok H n q" and "q_status q \<noteq> UBBD_QUEUE_KSTATUS_REMOVING"
  shows "\<exists>q' km' es'. ubbd_queue_complete H q km = Some (q', km') \<and> queue_inv H es' q' km' \<and>
     blk_log q' = blk_log q @ fst (spec_complete (ce_list H n q) (abs_reqs q)) \<and>
     abs_reqs q' = snd (spec_complete (ce_list H n q) (abs_reqs q)) \<and>
     compr_tail q' = compr_head q' \<and> (q_used q \<longrightarrow> q_used q')"
  using complete_loop_ok [OF assms(1-3)] assms(4) by (auto simp: ubbd_queue_complete_def)

theorem complete_refines_spec_witness:
  "\<exists>q' km' es'. ubbd_queue_complete H0 (queue1 56) (km0 []) = Some (q', km') \<and> queue_inv H0 es' q' km' \<and>
     blk_log q' = blk_log (queue1 56) @ fst (spec_complete (ce_list H0 1 (queue1 56)) (abs_reqs (queue1 56))) \<and>
     abs_reqs q' = snd (spec_complete (ce_list H0 1 (queue1 56)) (abs_reqs (queue1 56))) \<and>
     compr_tail q' = compr_head q' \<and> (q_used (queue1 56) \<longrightarrow> q_used q')"
  by (rule complete_refines_spec [OF H0_ok queue1_inv]) (simp_all add: compr_ok_def queue1_def)



text \<open>C18: Ending the inflight requests by force ends every outstanding request exactly once with
  the given error, in order, leaves none outstanding, and gives all data slots back.\<close>

theorem end_inflight_ends_all:
  assumes "queue_inv H es q km"
  shows "\<exists>q' km' es'. ubbd_queue_end_inflight_reqs H ret q km = Some (q', km') \<and> queue_inv H es' q' km' \<and>
     inflight_reqs q' = [] \<and> blk_log q' = blk_log q @ map (\<lambda>t. Ended t ret) (inflight_reqs q) \<and>
     (q_used q \<longrightarrow> (\<forall>i < length (data_bitmap q'). \<not> data_bitmap q' ! i))"
proof -
  let ?q = "q\<lparr>inflight_reqs := []\<rparr>"
  have ri: "reqs_inv H es (set (inflight_reqs q)) ?q km" and d: "distinct (inflight_reqs q)"
    using assms queue_inv_upd(2) by (auto simp: queue_inv_def)
  from end_loop_ok [OF ri d, of ret] obtain q' km' es' where
    s: "end_loop H ret (inflight_reqs q) ?q km = Some (q', km')" "reqs_inv H es' {} q' km'"
      "blk_log q' = blk_log q @ map (\<lambda>t. Ended t ret) (inflight_reqs q)" "queue_rest_eq ?q q'"
      "slots_exact (set (inflight_reqs q)) ?q \<longrightarrow> slots_exact {} q'" by auto
  moreover have "slots_exact (set (inflight_reqs q)) ?q" if "q_used q" using that by (simp add: q_used_def slots_exact_def)
  moreover have "inflight_reqs q' = []" using s(4) by (simp add: queue_rest_eq_def)
  ultimately show ?thesis
    by (auto simp: ubbd_queue_end_inflight_reqs_def queue_inv_def slots_exact_def)
qed

theorem end_inflight_ends_all_witness:
  "\<exists>q' km' es'. ubbd_queue_end_inflight_reqs H0 (- EIO) (queue1 56) (km0 []) = Some (q', km') \<and> queue_inv H0 es' q' km' \<and>
     inflight_reqs q' = [] \<and> blk_log q' = blk_log (queue1 56) @ map (\<lambda>t. Ended t (- EIO)) (inflight_reqs (queue1 56)) \<and>
     (q_used (queue1 56) \<longrightarrow> (\<forall>i < length (data_bitmap q'). \<not> data_bitmap q' ! i))"
  by (rule end_inflight_ends_all [OF queue1_inv]) simp

text \<open>\<open>queue_rq\<close> accepts a request for a running queue exactly when its operation is one the
  driver supports; it then establishes what the work item needs and queues it, and touches
  neither the rings nor the page pool.\<close>

theorem queue_rq_prepares_work:
  assumes "q_status q = UBBD_QUEUE_KSTATUS_RUNNING" and "tag \<notin> set (inflight_reqs q)" and "q_req_tid q < - 1"
    and "length (concat (rq_bio rq)) < 2 ^ 16"
    and "rq_op rq = REQ_OP_READ \<or> rq_op rq = REQ_OP_WRITE \<Longrightarrow> rq_bio rq \<noteq> [] \<and> bio_ok q km (zero_ur H rq)"
    and "ubbd_queue_rq H tag rq q = (st, q')"
  shows "(st = BLK_STS_OK \<longleftrightarrow> rq_op rq \<noteq> REQ_OP_OTHER) \<and> st \<noteq> BLK_STS_RESOURCE \<and>
     (st = BLK_STS_OK \<longrightarrow> fresh_req tag q' km \<and> task_wq q' = task_wq q @ [tag] \<and> ur_req (pdus q' tag) = rq) \<and>
     q' = q\<lparr>pdus := (pdus q)(tag := pdus q' tag), task_wq := task_wq q', blk_log := blk_log q @ [Started tag]\<rparr>"
proof -
  have eqs: "fresh_req tag (q\<lparr>blk_log := l, pdus := f, task_wq := ts\<rparr>) km = fresh_req tag (q\<lparr>pdus := f\<rparr>) km" for f ts l
    by (simp add: fresh_req_def rq_wf_def bio_ok_def)
  have wf: "fresh_req tag (q\<lparr>pdus := (pdus q)(tag := (zero_ur H rq)\<lparr>ur_req := rq, ur_op := oc\<rparr>)\<rparr>) km"
    if "oc \<noteq> UBBD_OP_PAD" "rq_op rq = REQ_OP_READ \<longleftrightarrow> oc = UBBD_OP_READ" "rq_op rq = REQ_OP_WRITE \<longleftrightarrow> oc = UBBD_OP_WRITE" for oc
    using that assms(2-5) by (auto simp: fresh_req_def rq_wf_def zero_ur_def pi_ok_def data_req_def rq_segs_def bio_ok_def)
  show ?thesis
    using assms(1,6) wf
    by (cases "rq_op rq") (auto simp: ubbd_queue_rq_def blk_tell_def ubbd_req_init_def Let_def eqs)
qed

theorem queue_rq_prepares_work_witness:
  "\<exists>st q'. ubbd_queue_rq H0 1 (ur_req ur0) (queue1 56) = (st, q') \<and>
    (st = BLK_STS_OK \<longleftrightarrow> rq_op (ur_req ur0) \<noteq> REQ_OP_OTHER) \<and> st \<noteq> BLK_STS_RESOURCE \<and>
     (st = BLK_STS_OK \<longrightarrow> fresh_req 1 q' (km0 []) \<and> task_wq q' = task_wq (queue1 56) @ [1] \<and> ur_req (pdus q' 1) = ur_req ur0) \<and>
     q' = (queue1 56)\<lparr>pdus := (pdus (queue1 56))(1 := pdus q' 1), task_wq := task_wq q',
            blk_log := blk_log (queue1 56) @ [Started 1]\<rparr>"
proof -
  obtain st q' where r: "ubbd_queue_rq H0 1 (ur_req ur0) (queue1 56) = (st, q')" by fastforce
  have b: "bio_ok (queue1 56) (km0 []) (zero_ur H0 (ur_req ur0))"
    by (auto simp: bio_ok_def zero_ur_def ur0_def queue1_def km0_def bv0_def ran_def split: if_splits)
  have "q_status (queue1 56) = UBBD_QUEUE_KSTATUS_RUNNING" "(1 :: nat) \<notin> set (inflight_reqs (queue1 56))"
    "q_req_tid (queue1 56) < - 1" "length (concat (rq_bio (ur_req ur0))) < 2 ^ 16" "rq_bio (ur_req ur0) \<noteq> []"
    by (simp_all add: queue1_def one_not_last ur0_def)
  then show ?thesis using queue_rq_prepares_work [OF _ _ _ _ _ r, of "km0 []"] b r by blast
qed

text \<open>A queue that is not running takes no request: \<open>queue_rq\<close> fails it on a queue being
  removed and defers it on a stopped one, and a work item already queued ends its request
  with \<open>-EIO\<close> or hands it back; none of them touches rings, pool or inflight list.\<close>

theorem not_running_takes_no_request:
  assumes "q_status q \<noteq> UBBD_QUEUE_KSTATUS_RUNNING"
  shows "ubbd_queue_rq H tag rq q =
       (if q_status q = UBBD_QUEUE_KSTATUS_REMOVING then BLK_STS_IOERR else BLK_STS_RESOURCE, q) \<and>
     ubbd_queue_workfn H tag q km =
       Some (blk_tell (if q_status q = UBBD_QUEUE_KSTATUS_REMOVING then Ended tag (- EIO) else Requeued tag) q, km)"
  using assms
  by (cases "q_status q") (simp_all add: ubbd_queue_rq_def ubbd_queue_workfn_def workfn_status_def workfn_end_request_def)

theorem not_running_takes_no_request_witness:
  "ubbd_queue_rq H0 1 (ur_req ur0) ((queue1 56)\<lparr>q_status := UBBD_QUEUE_KSTATUS_REMOVING\<rparr>) =
       (BLK_STS_IOERR, (queue1 56)\<lparr>q_status := UBBD_QUEUE_KSTATUS_REMOVING\<rparr>) \<and>
     ubbd_queue_workfn H0 1 ((queue1 56)\<lparr>q_status := UBBD_QUEUE_KSTATUS_REMOVING\<rparr>) (km0 []) =
       Some (blk_tell (Ended 1 (- EIO)) ((queue1 56)\<lparr>q_status := UBBD_QUEUE_KSTATUS_REMOVING\<rparr>), km0 [])"
  using not_running_takes_no_request [of "(queue1 56)\<lparr>q_status := UBBD_QUEUE_KSTATUS_REMOVING\<rparr>" H0 1 "ur_req ur0" "km0 []"]
  by simp

lemma find_snoc: "\<forall>x \<in> set xs. \<not> P x \<Longrightarrow> P t \<Longrightarrow> find P (xs @ [t]) = Some t"
  by (induction xs) auto

text \<open>Between the insertion into the inflight list and the section under \<open>cmdr_lock\<close> a request
  is outstanding without an entry: a completion entry that names its transaction id in that
  window (the id is still 0) makes the driver dereference a NULL entry.\<close>

theorem early_completion_oops:
  assumes "ur_se (pdus q tag) = None" and "ur_tid (pdus q tag) = ce_priv_data ce"
    and "\<forall>t \<in> set (inflight_reqs q). ur_tid (pdus q t) \<noteq> ce_priv_data ce"
  shows "complete_one H ce (workfn_inflight tag q) km = None"
proof -
  have "find (\<lambda>t. ur_tid (pdus q t) = ce_priv_data ce) (inflight_reqs q @ [tag]) = Some tag"
    using assms(2,3) by (intro find_snoc) auto
  then show ?thesis
    using assms(1) 
    by (auto simp: complete_one_def fetch_inflight_req_def workfn_inflight_def complete_inflight_req_def Let_def
        bind_eq_None_conv)
qed

theorem early_completion_oops_witness:
  "complete_one H0 \<lparr>ce_priv_data = 0, ce_result = 0\<rparr> (workfn_inflight 1 (queue1 56)) (km0 []) = None"
  by (rule early_completion_oops) (simp_all add: queue1_def ur0_def r_out_def)

text \<open>The completion loop trusts the head the backend writes: a head at or beyond the end of
  the completion ring is never reached, and with nothing outstanding the loop does not end.\<close>

theorem complete_loops_on_bad_head:
  assumes "compr_size q \<le> compr_head q" and "0 < compr_size q" and "compr_tail q < compr_size q" and "inflight_reqs q = []"
  shows "complete_loop H q km = None"
proof (rule ccontr)
  assume "complete_loop H q km \<noteq> None"
  then obtain res where "complete_loop H q km = Some res" by blast
  define bad where "bad q1 \<longleftrightarrow> compr_size q1 \<le> compr_head q1 \<and> 0 < compr_size q1 \<and> compr_tail q1 < compr_size q1 \<and>
    inflight_reqs q1 = []" for q1 :: ubbd_queue
  have "\<not> bad q"
  proof (rule complete_loop.raw_induct [where P = "\<lambda>H q1 km r. \<not> bad q1", OF _ \<open>complete_loop H q km = Some res\<close>])
    fix f H1 q1 km1 y
    assume IH: "\<And>H q1 km y. f H q1 km = Some y \<Longrightarrow> \<not> bad q1"
      and eq: "(case get_complete_entry q1 of None \<Rightarrow> Some (q1, km1)
        | Some off \<Rightarrow> Option.bind (complete_one H1 (compr_mem q1 off)
               (q1\<lparr>compr_tail := UPDATE_COMPR_TAIL (compr_tail q1) (sizeof_ce H1) (compr_size q1)\<rparr>) km1)
            (\<lambda>(q1, km1). f H1 q1 km1)) = Some y"
    show "\<not> bad q1"
    proof
      assume b: "bad q1"
      let ?q = "q1\<lparr>compr_tail := UPDATE_COMPR_TAIL (compr_tail q1) (sizeof_ce H1) (compr_size q1)\<rparr>"
      have "compr_tail q1 \<noteq> compr_head q1" using b unfolding bad_def by auto
      then have g: "get_complete_entry q1 = Some (unat (compr_tail q1))" by (simp add: get_complete_entry_def)
      have "complete_one H1 (compr_mem q1 (unat (compr_tail q1))) ?q km1 = Some (?q, km1)"
        using b by (simp add: complete_one_def fetch_inflight_req_def bad_def)
      then have "f H1 ?q km1 = Some y" using eq g by simp
      moreover have "bad ?q"
        using b by (simp add: bad_def UPDATE_COMPR_TAIL_def word_less_nat_alt unat_mod)
      ultimately show False using IH by blast
    qed
  qed
  then show False using assms by (simp add: bad_def)
qed

theorem complete_loops_on_bad_head_witness:
  "complete_loop H0 ((queue1 56)\<lparr>inflight_reqs := [], compr_head := 64\<rparr>) (km0 []) = None"
  by (rule complete_loops_on_bad_head) (simp_all add: queue1_def)

text \<open>C20: Giving back the slots of a request never drops the pool below its reserve: at least as
  many pages stay allocated as the smaller of what was allocated and \<open>data_pages_reserved\<close>, and
  exactly the slots of the request become free.\<close>

theorem release_respects_reserve:
  assumes "pool_inv {} q km" and "inode_set q" and "prep_req r r"
    and "\<forall>i \<in> owned r. i < length (data_bitmap q) \<and> data_bitmap q ! i"
  shows "\<exists>q' km'. ubbd_req_release r q km = Some (r\<lparr>ur_pi := None\<rparr>, q', km') \<and> pool_inv {} q' km' \<and>
     min (unat (data_pages_allocated q)) (unat (data_pages_reserved q)) \<le> unat (data_pages_allocated q') \<and>
     (\<forall>i < length (data_bitmap q). data_bitmap q' ! i \<longleftrightarrow> data_bitmap q ! i \<and> i \<notin> owned r)"
proof -
  obtain q' km' where r: "ubbd_req_release r q km = Some (r\<lparr>ur_pi := None\<rparr>, q', km')" "pool_inv {} q' km'"
      "released (owned r) q km q' km'"
    using release_owned [OF assms] by blast
  have seq: "release_seq [0..<unat (ur_pi_cnt r)] r q km = Some (q', km')"
    using r(1) by (auto simp: ubbd_req_release_def bind_eq_Some_conv)
  have "\<forall>b \<in> set [0..<unat (ur_pi_cnt r)]. \<exists>i. ubbd_req_get_pi r b = Some i \<and> unat i < length (data_bitmap q)"
    by (rule owned_slots [OF assms(3,4)])
  from release_reserve_seq [OF assms(1,2) this seq] show ?thesis using r by (auto simp: released_def)
qed

theorem release_respects_reserve_witness:
  "\<exists>q' km'. ubbd_req_release r_out (queue1 56) (km0 []) = Some (r_out\<lparr>ur_pi := None\<rparr>, q', km') \<and> pool_inv {} q' km' \<and>
     min (unat (data_pages_allocated (queue1 56))) (unat (data_pages_reserved (queue1 56))) \<le> unat (data_pages_allocated q') \<and>
     (\<forall>i < length (data_bitmap (queue1 56)). data_bitmap q' ! i \<longleftrightarrow> data_bitmap (queue1 56) ! i \<and> i \<notin> owned r_out)"
  by (rule release_respects_reserve [OF queue1_pool]) (simp_all, simp_all add: queue1_def)

end
