(* ===== verification/Kring.thy ===== *)
theory Kring
  imports Request_Props Machines
begin

text \<open>
  The kring character device of a queue (\<open>src/ubbd_kring.c\<close>): minors, registration, the
  file operations through which the backend waits for requests and reports completions,
  and the mapping through which it reaches the rings and the data pages.
\<close>

section \<open>State\<close>

text \<open>
  \<open>struct ubbd_kring_device\<close>: the event counter, whether \<open>info\<close> is set, the reference
  count of its \<open>struct device\<close>. Device objects are named by keys; a freed object has none.
\<close>

record kring_device =
  kd_minor :: nat
  kd_event :: u32
  kd_info :: bool
  kd_ref :: nat

record kring_sys =
  chrdev_region :: bool              \<comment> \<open>\<open>alloc_chrdev_region\<close> is in effect\<close>
  cdev_live :: nat                   \<comment> \<open>references to the \<open>cdev\<close>\<close>
  class_reg :: bool                  \<comment> \<open>\<open>class_register\<close> is in effect\<close>
  class_registered :: bool           \<comment> \<open>\<open>ubbd_kring_class_registered\<close>\<close>
  idr :: "nat \<rightharpoonup> nat"                 \<comment> \<open>minor to device\<close>
  devs :: "nat \<rightharpoonup> kring_device"
  next_key :: nat
  module_refs :: nat

record kring_listener =
  l_dev :: nat
  l_event_count :: u32

abbreviation KRING_MAX_DEVICES :: nat where "KRING_MAX_DEVICES \<equiv> 1048576"

section \<open>Minors and registration\<close>

text \<open>\<open>idr_alloc\<close> gives the lowest free id below the limit; \<open>mem\<close> says whether it finds memory.\<close>

definition idr_alloc_id :: "(nat \<rightharpoonup> nat) \<Rightarrow> nat option" where
  "idr_alloc_id m = find (\<lambda>i. m i = None) [0..<KRING_MAX_DEVICES]"

definition ubbd_kring_get_minor :: "bool \<Rightarrow> nat \<Rightarrow> kring_sys \<Rightarrow> int \<times> nat \<times> kring_sys" where
  "ubbd_kring_get_minor mem key s =
     (if \<not> mem then (- ENOMEM, 0, s)
      else case idr_alloc_id (idr s) of
             Some i \<Rightarrow> (0, i, s\<lparr>idr := (idr s)(i \<mapsto> key)\<rparr>)
           | None \<Rightarrow> (- EINVAL, 0, s))"

definition ubbd_kring_free_minor :: "nat \<Rightarrow> kring_sys \<Rightarrow> kring_sys" where
  "ubbd_kring_free_minor minor s = s\<lparr>idr := (idr s)(minor := None)\<rparr>"

definition get_device :: "nat \<Rightarrow> kring_sys \<Rightarrow> kring_sys option" where
  "get_device key s = do {
     d \<leftarrow> devs s key;
     Some (s\<lparr>devs := (devs s)(key \<mapsto> d\<lparr>kd_ref := kd_ref d + 1\<rparr>)\<rparr>)
   }"

text \<open>\<open>put_device\<close>: the last reference runs \<open>ubbd_kring_device_release\<close>, which frees the object.\<close>

definition put_device :: "nat \<Rightarrow> kring_sys \<Rightarrow> kring_sys option" where
  "put_device key s = do {
     d \<leftarrow> devs s key;
     if kd_ref d = 0 then None
     else if kd_ref d = 1 then Some (s\<lparr>devs := (devs s)(key := None)\<rparr>)
     else Some (s\<lparr>devs := (devs s)(key \<mapsto> d\<lparr>kd_ref := kd_ref d - 1\<rparr>)\<rparr>)
   }"

text \<open>
  \<open>__ubbd_kring_register_device\<close>: the failures of \<open>kzalloc\<close>, \<open>idr_alloc\<close>, \<open>dev_set_name\<close> and
  \<open>device_add\<close> are arguments. \<open>args_ok\<close>: parent, info, name and version are not \<open>NULL\<close>. The
  last result is \<open>info->ubbd_kring_dev\<close>.
\<close>

definition ubbd_kring_register_device ::
  "bool \<Rightarrow> bool \<Rightarrow> bool \<Rightarrow> int \<Rightarrow> int \<Rightarrow> kring_sys \<Rightarrow> (int \<times> kring_sys \<times> nat option) option" where
  "ubbd_kring_register_device args_ok kz idr_mem name_ret add_ret s =
     (if \<not> class_registered s then Some (- EPROBE_DEFER, s, None)
      else if \<not> args_ok then Some (- EINVAL, s, None)
      else if \<not> kz then Some (- ENOMEM, s, None)
      else
        let key = next_key s; s1 = s\<lparr>next_key := key + 1\<rparr>;
            (ret, minor, s2) = ubbd_kring_get_minor idr_mem key s1
        in if ret \<noteq> 0 then Some (ret, s2, None)
           else
             let s3 = s2\<lparr>devs := (devs s2)(key \<mapsto> \<lparr>kd_minor = minor, kd_event = 0, kd_info = True, kd_ref = 1\<rparr>)\<rparr>;
                 ret = (if name_ret \<noteq> 0 then name_ret else add_ret)
             in if ret \<noteq> 0
                then do { s4 \<leftarrow> put_device key (ubbd_kring_free_minor minor s3); Some (ret, s4, None) }
                else Some (0, s3, Some key))"

text \<open>
  \<open>ubbd_kring_unregister_device\<close> in two parts, since an open can run between them: \<open>info\<close> is
  cleared and \<open>device_unregister\<close> drops the registration's reference; then the minor is
  freed.
\<close>

definition unregister_drop :: "nat \<Rightarrow> kring_sys \<Rightarrow> (nat \<times> kring_sys) option" where
  "unregister_drop key s = do {
     d \<leftarrow> devs s key;
     s1 \<leftarrow> put_device key (s\<lparr>devs := (devs s)(key \<mapsto> d\<lparr>kd_info := False\<rparr>)\<rparr>);
     Some (kd_minor d, s1)
   }"

definition ubbd_kring_unregister_device :: "nat option \<Rightarrow> kring_sys \<Rightarrow> kring_sys option" where
  "ubbd_kring_unregister_device dev s =
     (case dev of
        None \<Rightarrow> Some s
      | Some key \<Rightarrow> do { (minor, s1) \<leftarrow> unregister_drop key s; Some (ubbd_kring_free_minor minor s1) })"

text \<open>The kring part of a queue: \<open>info->name\<close> and \<open>info->ubbd_kring_dev\<close>.\<close>

datatype name_ptr = Name_NULL | Name string | Name_Freed

record kring_info =
  ki_name :: name_ptr
  ki_dev :: "nat option"
  ki_size :: u64

definition ubbd_queue_kring_init ::
  "string option \<Rightarrow> bool \<Rightarrow> bool \<Rightarrow> int \<Rightarrow> int \<Rightarrow> u64 \<Rightarrow> kring_info \<Rightarrow> kring_sys \<Rightarrow> (int \<times> kring_info \<times> kring_sys) option" where
  "ubbd_queue_kring_init name kz idr_mem name_ret add_ret mmap_pages info s =
     (let info1 = info\<lparr>ki_size := push_bit PAGE_SHIFT mmap_pages\<rparr> in
      case name of
        None \<Rightarrow> Some (- ENOMEM, info1\<lparr>ki_name := Name_NULL\<rparr>, s)
      | Some n \<Rightarrow> do {
          (ret, s1, dev) \<leftarrow> ubbd_kring_register_device True kz idr_mem name_ret add_ret s;
          Some (ret, info1\<lparr>ki_name := Name n, ki_dev := (if class_registered s then dev else ki_dev info)\<rparr>, s1)
        })"

text \<open>\<open>ubbd_queue_kring_destroy\<close>: the name is freed first, then the device is unregistered.\<close>

definition destroy_free_name :: "kring_info \<Rightarrow> kring_info" where
  "destroy_free_name info = info\<lparr>ki_name := (if ki_name info = Name_NULL then Name_NULL else Name_Freed)\<rparr>"

definition ubbd_queue_kring_destroy :: "kring_info \<Rightarrow> kring_sys \<Rightarrow> (kring_info \<times> kring_sys) option" where
  "ubbd_queue_kring_destroy info s = do {
     let info1 = destroy_free_name info;
     s1 \<leftarrow> ubbd_kring_unregister_device (ki_dev info1) s;
     Some (info1, s1)
   }"

section \<open>Class and major\<close>

definition ubbd_kring_major_init :: "int \<Rightarrow> bool \<Rightarrow> int \<Rightarrow> kring_sys \<Rightarrow> int \<times> kring_sys" where
  "ubbd_kring_major_init region_ret cdev_ok add_ret s =
     (if region_ret \<noteq> 0 then (region_ret, s)
      else
        let s1 = s\<lparr>chrdev_region := True\<rparr> in
        if \<not> cdev_ok then (- ENOMEM, s1\<lparr>chrdev_region := False\<rparr>)
        else
          let s2 = s1\<lparr>cdev_live := cdev_live s1 + 1\<rparr> in
          if add_ret \<noteq> 0 then (add_ret, (s2\<lparr>cdev_live := cdev_live s2 - 1\<rparr>)\<lparr>chrdev_region := False\<rparr>)
          else (0, s2))"

definition ubbd_kring_major_cleanup :: "kring_sys \<Rightarrow> kring_sys" where
  "ubbd_kring_major_cleanup s = (s\<lparr>chrdev_region := False\<rparr>)\<lparr>cdev_live := cdev_live s - 1\<rparr>"

definition init_ubbd_kring_class :: "int \<Rightarrow> bool \<Rightarrow> int \<Rightarrow> int \<Rightarrow> kring_sys \<Rightarrow> int \<times> kring_sys" where
  "init_ubbd_kring_class region_ret cdev_ok add_ret class_ret s =
     (let (ret, s1) = ubbd_kring_major_init region_ret cdev_ok add_ret s in
      if ret \<noteq> 0 then (ret, s1)
      else if class_ret \<noteq> 0 then (class_ret, ubbd_kring_major_cleanup s1)
      else (0, s1\<lparr>class_reg := True, class_registered := True\<rparr>))"

definition release_ubbd_kring_class :: "kring_sys \<Rightarrow> kring_sys" where
  "release_ubbd_kring_class s = ubbd_kring_major_cleanup (s\<lparr>class_registered := False, class_reg := False\<rparr>)"

definition ubbd_kring_init :: "int \<Rightarrow> bool \<Rightarrow> int \<Rightarrow> int \<Rightarrow> kring_sys \<Rightarrow> int \<times> kring_sys" where
  "ubbd_kring_init region_ret cdev_ok add_ret class_ret s = init_ubbd_kring_class region_ret cdev_ok add_ret class_ret s"

definition ubbd_kring_exit :: "kring_sys \<Rightarrow> kring_sys" where
  "ubbd_kring_exit s = (release_ubbd_kring_class s)\<lparr>idr := Map.empty\<rparr>"

section \<open>File operations\<close>

definition ubbd_kring_dev_open :: "ubbd_queue \<Rightarrow> int \<times> ubbd_queue" where
  "ubbd_kring_dev_open q = (0, q\<lparr>inode_set := True\<rparr>)"

definition ubbd_kring_dev_release :: "ubbd_queue \<Rightarrow> int \<times> ubbd_queue" where
  "ubbd_kring_dev_release q = (0, q)"

text \<open>
  \<open>ubbd_kring_open\<close> on a minor; \<open>q\<close> is the queue behind \<open>info\<close>, \<open>mod_ok\<close> and \<open>mem_ok\<close> the results
  of \<open>try_module_get\<close> and \<open>kmalloc\<close>. On an error everything taken is given back.
\<close>

definition ubbd_kring_open ::
  "nat \<Rightarrow> bool \<Rightarrow> bool \<Rightarrow> kring_sys \<Rightarrow> ubbd_queue \<Rightarrow> (int \<times> kring_listener option \<times> kring_sys \<times> ubbd_queue) option" where
  "ubbd_kring_open minor mod_ok mem_ok s q =
     (case idr s minor of
        None \<Rightarrow> Some (- ENODEV, None, s, q)
      | Some key \<Rightarrow> do {
          s1 \<leftarrow> get_device key s;
          if \<not> mod_ok then do { s2 \<leftarrow> put_device key s1; Some (- ENODEV, None, s2, q) }
          else
            let s2 = s1\<lparr>module_refs := module_refs s1 + 1\<rparr> in
            if \<not> mem_ok
            then do { s3 \<leftarrow> put_device key (s2\<lparr>module_refs := module_refs s2 - 1\<rparr>); Some (- ENOMEM, None, s3, q) }
            else do {
              d \<leftarrow> devs s2 key;
              let listener = \<lparr>l_dev = key, l_event_count = kd_event d\<rparr>;
              let (ret, q1) = (if \<not> kd_info d then (- EINVAL, q) else ubbd_kring_dev_open q);
              if ret \<noteq> 0
              then do { s3 \<leftarrow> put_device key (s2\<lparr>module_refs := module_refs s2 - 1\<rparr>); Some (ret, None, s3, q1) }
              else Some (0, Some listener, s2, q1)
            }
        })"

definition ubbd_kring_release ::
  "kring_listener \<Rightarrow> kring_sys \<Rightarrow> ubbd_queue \<Rightarrow> (int \<times> kring_sys \<times> ubbd_queue) option" where
  "ubbd_kring_release listener s q = do {
     d \<leftarrow> devs s (l_dev listener);
     let (ret, q1) = (if kd_info d then ubbd_kring_dev_release q else (0, q));
     s1 \<leftarrow> put_device (l_dev listener) (s\<lparr>module_refs := module_refs s - 1\<rparr>);
     Some (ret, s1, q1)
   }"

definition EPOLLIN_RDNORM :: nat where "EPOLLIN_RDNORM = 65"

definition ubbd_kring_poll :: "kring_listener \<Rightarrow> kring_sys \<Rightarrow> (nat \<times> kring_listener) option" where
  "ubbd_kring_poll listener s = do {
     d \<leftarrow> devs s (l_dev listener);
     if l_event_count listener \<noteq> kd_event d
     then Some (EPOLLIN_RDNORM, listener\<lparr>l_event_count := kd_event d\<rparr>)
     else Some (0, listener)
   }"

text \<open>
  \<open>ubbd_kring_read\<close>: one round of its loop, \<open>Read_Sleeps\<close> when it calls \<open>schedule\<close>. A user
  buffer that cannot be written is \<open>copy_fails\<close>.
\<close>

datatype read_result = Read_Ret int u32 | Read_Sleeps

definition ubbd_kring_read ::
  "nat \<Rightarrow> bool \<Rightarrow> bool \<Rightarrow> bool \<Rightarrow> kring_listener \<Rightarrow> kring_sys \<Rightarrow> (read_result \<times> kring_listener) option" where
  "ubbd_kring_read count copy_fails nonblock signal listener s =
     (if count \<noteq> 4 then Some (Read_Ret (- EINVAL) 0, listener)
      else do {
        d \<leftarrow> devs s (l_dev listener);
        if \<not> kd_info d then Some (Read_Ret (- EIO) 0, listener)
        else if kd_event d \<noteq> l_event_count listener
        then (if copy_fails then Some (Read_Ret (- EFAULT) 0, listener)
              else Some (Read_Ret 4 (kd_event d), listener\<lparr>l_event_count := kd_event d\<rparr>))
        else if nonblock then Some (Read_Ret (- EAGAIN) 0, listener)
        else if signal then Some (Read_Ret (- ERESTARTSYS) 0, listener)
        else Some (Read_Sleeps, listener)
      })"

text \<open>\<open>ubbd_irqcontrol\<close> and \<open>ubbd_kring_write\<close>: a write from the backend completes requests. A
  device whose \<open>info\<close> is gone is not checked for.\<close>

definition ubbd_irqcontrol :: "ubbd_h \<Rightarrow> ubbd_queue \<Rightarrow> kmem \<Rightarrow> (int \<times> ubbd_queue \<times> kmem) option" where
  "ubbd_irqcontrol H q km =
     (if q_status q = UBBD_QUEUE_KSTATUS_REMOVING then Some (0, q, km)
      else do { (q1, km1) \<leftarrow> ubbd_queue_complete H q km; Some (0, q1, km1) })"

definition ubbd_kring_write ::
  "ubbd_h \<Rightarrow> kring_listener \<Rightarrow> kring_sys \<Rightarrow> ubbd_queue \<Rightarrow> kmem \<Rightarrow> (int \<times> ubbd_queue \<times> kmem) option" where
  "ubbd_kring_write H listener s q km = do {
     d \<leftarrow> devs s (l_dev listener);
     if \<not> kd_info d then None
     else do {
       (retval, q1, km1) \<leftarrow> ubbd_irqcontrol H q km;
       Some (if retval \<noteq> 0 then retval else 4, q1, km1)
     }
   }"

text \<open>The attributes \<open>name\<close> and \<open>event\<close>; reading a freed name is a use after free.\<close>

definition name_show :: "kring_info \<Rightarrow> kring_device \<Rightarrow> (int + string) option" where
  "name_show info d =
     (if \<not> kd_info d then Some (Inl (- EINVAL))
      else case ki_name info of Name n \<Rightarrow> Some (Inr (n @ [CHR 0x0A])) | _ \<Rightarrow> None)"

definition event_show :: "kring_device \<Rightarrow> nat" where
  "event_show d = unat (kd_event d)"

text \<open>\<open>ubbd_kring_event_notify\<close> on the device.\<close>

definition event_notify :: "nat \<Rightarrow> kring_sys \<Rightarrow> kring_sys option" where
  "event_notify key s = do {
     d \<leftarrow> devs s key;
     Some (s\<lparr>devs := (devs s)(key \<mapsto> d\<lparr>kd_event := kd_event d + 1\<rparr>)\<rparr>)
   }"

section \<open>The mapping\<close>

text \<open>
  The mappings of a queue: the flag \<open>UBBD_QUEUE_FLAGS_HAS_BACKEND\<close>, \<open>backend_pid\<close>, the reference
  count of the device, and the live VMAs with their \<open>VM_WRITE\<close> flag.
\<close>

record kring_map =
  km_has_backend :: bool
  km_backend_pid :: int
  km_kref :: nat
  km_vmas :: "bool list"
  km_mmap_pages :: u64

definition ubbd_vma_open :: "bool \<Rightarrow> kring_map \<Rightarrow> kring_map" where
  "ubbd_vma_open w m = m\<lparr>km_kref := km_kref m + 1, km_vmas := km_vmas m @ [w]\<rparr>"

definition ubbd_vma_close :: "nat \<Rightarrow> kring_map \<Rightarrow> kring_map option" where
  "ubbd_vma_close i m =
     (if i < length (km_vmas m)
      then (let w = km_vmas m ! i;
                m1 = (if w then m\<lparr>km_has_backend := False, km_backend_pid := 0\<rparr> else m)
            in Some (m1\<lparr>km_kref := km_kref m1 - 1, km_vmas := take i (km_vmas m1) @ drop (Suc i) (km_vmas m1)\<rparr>))
      else None)"

definition ubbd_kring_dev_mmap :: "u64 \<Rightarrow> bool \<Rightarrow> int \<Rightarrow> kring_map \<Rightarrow> int \<times> kring_map" where
  "ubbd_kring_dev_mmap vma_pages w pid m =
     (if vma_pages \<noteq> km_mmap_pages m then (- EINVAL, m)
      else if km_has_backend m then (- EBUSY, m)
      else (0, ubbd_vma_open w (m\<lparr>km_has_backend := True, km_backend_pid := pid\<rparr>)))"

text \<open>\<open>ubbd_kring_mmap\<close>; \<open>info->mem[0]\<close> has the page-aligned address \<open>addr\<close> and the size of the mapping.\<close>

definition ubbd_kring_mmap ::
  "u64 \<Rightarrow> u64 \<Rightarrow> u64 \<Rightarrow> bool \<Rightarrow> int \<Rightarrow> bool \<Rightarrow> kring_map \<Rightarrow> int \<times> kring_map" where
  "ubbd_kring_mmap vm_start vm_end addr w pid info m =
     (if vm_end < vm_start then (- EINVAL, m)
      else if \<not> info then (- EINVAL, m)
      else
        let requested_pages = drop_bit PAGE_SHIFT (vm_end - vm_start);
            mem_size = push_bit PAGE_SHIFT (km_mmap_pages m);
            actual_pages = drop_bit PAGE_SHIFT ((addr AND mask PAGE_SHIFT) + mem_size + PAGE_SIZE - 1)
        in if requested_pages > actual_pages then (- EINVAL, m)
           else ubbd_kring_dev_mmap requested_pages w pid m)"

text \<open>
  \<open>ubbd_vma_fault\<close>: an offset below \<open>data_off\<close> is a page of the ring area, one above a data
  page; a data page becomes a translation of the backend.
\<close>

datatype fault = Fault_Ring u64 | Fault_Page page_id | VM_FAULT_SIGBUS

definition ubbd_try_get_data_page :: "'a data_pool_scheme \<Rightarrow> u32 \<Rightarrow> page_id option" where
  "ubbd_try_get_data_page q dpi = data_pages_array q (unat dpi)"

definition ubbd_vma_fault :: "u64 \<Rightarrow> 'a data_pool_scheme \<Rightarrow> fault \<times> 'a data_pool_scheme" where
  "ubbd_vma_fault pgoff q =
     (let offset = push_bit PAGE_SHIFT pgoff in
      if offset < data_off q then (Fault_Ring offset, q)
      else
        let dpi = ucast ((offset - data_off q) div PAGE_SIZE) in
        case ubbd_try_get_data_page q dpi of
          None \<Rightarrow> (VM_FAULT_SIGBUS, q)
        | Some p \<Rightarrow> (Fault_Page p, q\<lparr>user_ptes := (user_ptes q)(unat pgoff \<mapsto> p)\<rparr>))"

section \<open>Reference counts\<close>

lemma get_put_device:
  assumes "devs s key = Some d" and "0 < kd_ref d"
  shows "\<exists>s1. get_device key s = Some s1 \<and> put_device key s1 = Some s"
    "put_device key (s\<lparr>devs := (devs s)(key \<mapsto> d\<lparr>kd_ref := kd_ref d + 1\<rparr>), module_refs := x\<rparr>) = Some (s\<lparr>module_refs := x\<rparr>)"
proof -
  have u: "(devs s)(key \<mapsto> d) = devs s" using assms(1) by (simp add: fun_upd_idem)
  show "\<exists>s1. get_device key s = Some s1 \<and> put_device key s1 = Some s"
    "put_device key (s\<lparr>devs := (devs s)(key \<mapsto> d\<lparr>kd_ref := kd_ref d + 1\<rparr>), module_refs := x\<rparr>) = Some (s\<lparr>module_refs := x\<rparr>)"
    using assms by (simp_all add: get_device_def put_device_def u)
qed

text \<open>The invariant of the registry: a minor leads to a live device that knows its minor.\<close>

definition registry_ok :: "kring_sys \<Rightarrow> bool" where
  "registry_ok s \<longleftrightarrow> (\<forall>i key. idr s i = Some key \<longrightarrow> i < KRING_MAX_DEVICES \<and>
     (\<exists>d. devs s key = Some d \<and> kd_minor d = i \<and> 0 < kd_ref d)) \<and>
     (\<forall>key. next_key s \<le> key \<longrightarrow> devs s key = None)"

lemma find_upt: "find P [0..<n] = Some i \<Longrightarrow> i < n \<and> P i \<and> (\<forall>j < i. \<not> P j)"
  by (auto simp: find_Some_iff)

lemma idr_alloc_id_free: "idr_alloc_id m = Some i \<Longrightarrow> i < KRING_MAX_DEVICES \<and> m i = None \<and> (\<forall>j < i. m j \<noteq> None)"
  unfolding idr_alloc_id_def by (drule find_upt) blast

lemma register_early:
  assumes "\<not> (class_registered s \<and> args_ok \<and> kz \<and> idr_mem \<and> idr_alloc_id (idr s) \<noteq> None)"
  shows "\<exists>ret s1. ubbd_kring_register_device args_ok kz idr_mem name_ret add_ret s = Some (ret, s1, None) \<and>
    ret \<noteq> 0 \<and> idr s1 = idr s \<and> devs s1 = devs s"
  using assms by (auto simp: ubbd_kring_register_device_def ubbd_kring_get_minor_def Let_def split: option.splits)

lemma register_late:
  assumes "class_registered s" "args_ok" "kz" "idr_mem" and i: "idr_alloc_id (idr s) = Some i"
    and s1: "s1 = s\<lparr>next_key := next_key s + 1, idr := (idr s)(i \<mapsto> next_key s),
          devs := (devs s)(next_key s \<mapsto> \<lparr>kd_minor = i, kd_event = 0, kd_info = True, kd_ref = 1\<rparr>)\<rparr>"
    and ret: "ret = (if name_ret \<noteq> 0 then name_ret else add_ret)"
  shows "ubbd_kring_register_device args_ok kz idr_mem name_ret add_ret s =
    (if ret = 0 then Some (0, s1, Some (next_key s))
     else Some (ret, s1\<lparr>idr := (idr s)(i := None), devs := (devs s)(next_key s := None)\<rparr>, None))"
  using assms
  by (simp add: ubbd_kring_register_device_def ubbd_kring_get_minor_def put_device_def ubbd_kring_free_minor_def Let_def)

section \<open>Properties\<close>

definition sys0 :: kring_sys where
  "sys0 = \<lparr>chrdev_region = True, cdev_live = 1, class_reg = True, class_registered = True,
     idr = [0 \<mapsto> 0], devs = [0 \<mapsto> \<lparr>kd_minor = 0, kd_event = 5, kd_info = True, kd_ref = 1\<rparr>], next_key = 1, module_refs = 0\<rparr>"

lemma sys0_ok: "registry_ok sys0"
  by (auto simp: registry_ok_def sys0_def split: if_splits)

lemma open_eq:
  assumes "idr s minor = Some key" and d: "devs s key = Some d" "0 < kd_ref d"
  shows "ubbd_kring_open minor mod_ok mem_ok s q = Some
    (if \<not> mod_ok then (- ENODEV, None, s, q)
     else if \<not> mem_ok then (- ENOMEM, None, s, q)
     else if \<not> kd_info d then (- EINVAL, None, s, q)
     else (0, Some \<lparr>l_dev = key, l_event_count = kd_event d\<rparr>,
           s\<lparr>devs := (devs s)(key \<mapsto> d\<lparr>kd_ref := kd_ref d + 1\<rparr>), module_refs := module_refs s + 1\<rparr>, q\<lparr>inode_set := True\<rparr>))"
proof -
  have u: "(devs s)(key \<mapsto> d) = devs s" using d(1) by (simp add: fun_upd_idem)
  show ?thesis
    using assms by (simp add: ubbd_kring_open_def get_device_def put_device_def ubbd_kring_dev_open_def Let_def u)
qed

text \<open>C24: Opening and closing a kring device is balanced. An open that fails for whatever reason
  leaves the reference counts and the registry as they were; one that succeeds hands out a
  listener that is up to date with the event counter, and its release brings the counts
  back.\<close>

theorem open_release_balanced:
  assumes "registry_ok s" and "ubbd_kring_open minor mod_ok mem_ok s q = Some (ret, l, s1, q1)"
  shows "(ret \<noteq> 0 \<longrightarrow> l = None \<and> s1 = s \<and> q1 = q) \<and>
    (ret = 0 \<longrightarrow> (\<exists>ls key d. l = Some ls \<and> idr s minor = Some key \<and> devs s key = Some d \<and> kd_info d \<and>
       l_dev ls = key \<and> l_event_count ls = kd_event d \<and> inode_set q1 \<and>
       ubbd_kring_release ls s1 q1 = Some (0, s, q1)))"
proof (cases "idr s minor")
  case None
  then show ?thesis using assms(2) by (auto simp: ubbd_kring_open_def)
next
  case (Some key)
  then obtain d where d: "devs s key = Some d" "0 < kd_ref d" using assms(1) unfolding registry_ok_def by blast
  show ?thesis
  proof (cases "mod_ok \<and> mem_ok \<and> kd_info d")
    case False
    then show ?thesis using assms(2) open_eq [OF Some d, of mod_ok mem_ok q] by (auto split: if_splits)
  next
    case True
    then have e: "ret = 0" "l = Some \<lparr>l_dev = key, l_event_count = kd_event d\<rparr>" "q1 = q\<lparr>inode_set := True\<rparr>"
        "s1 = s\<lparr>devs := (devs s)(key \<mapsto> d\<lparr>kd_ref := kd_ref d + 1\<rparr>), module_refs := module_refs s + 1\<rparr>"
      using assms(2) open_eq [OF Some d, of mod_ok mem_ok q] by auto
    have "ubbd_kring_release \<lparr>l_dev = key, l_event_count = kd_event d\<rparr> s1 q1 = Some (0, s, q1)"
      using True get_put_device(2) [OF d, of "module_refs s"] d
      by (simp add: ubbd_kring_release_def ubbd_kring_dev_release_def e)
    then show ?thesis using e Some d True by auto
  qed
qed

theorem open_release_balanced_witness:
  "\<exists>ret l s1 q1. ubbd_kring_open 0 True True sys0 (queue1 56) = Some (ret, l, s1, q1) \<and>
    (ret \<noteq> 0 \<longrightarrow> l = None \<and> s1 = sys0 \<and> q1 = queue1 56) \<and>
    (ret = 0 \<longrightarrow> (\<exists>ls key d. l = Some ls \<and> idr sys0 0 = Some key \<and> devs sys0 key = Some d \<and> kd_info d \<and>
       l_dev ls = key \<and> l_event_count ls = kd_event d \<and> inode_set q1 \<and>
       ubbd_kring_release ls s1 q1 = Some (0, sys0, q1)))"
proof -
  obtain r where r: "ubbd_kring_open 0 True True sys0 (queue1 56) = Some r"
    by (simp add: ubbd_kring_open_def sys0_def get_device_def ubbd_kring_dev_open_def Let_def)
  obtain ret l s1 q1 where "r = (ret, l, s1, q1)" by (metis prod_cases4)
  then show ?thesis using r open_release_balanced [OF sys0_ok, of 0 True True "queue1 56" ret l s1 q1] by blast
qed

fun notify_n :: "nat \<Rightarrow> nat \<Rightarrow> kring_sys \<Rightarrow> kring_sys option" where
  "notify_n 0 key s = Some s"
| "notify_n (Suc n) key s = do { s1 \<leftarrow> event_notify key s; notify_n n key s1 }"

lemma notify_n_event:
  assumes "devs s key = Some d"
  shows "notify_n n key s = Some (s\<lparr>devs := (devs s)(key \<mapsto> d\<lparr>kd_event := kd_event d + word_of_nat n\<rparr>)\<rparr>)"
  using assms
proof (induction n arbitrary: s d)
  case 0
  then show ?case by (simp add: fun_upd_idem)
next
  case (Suc n)
  let ?d = "d\<lparr>kd_event := kd_event d + 1\<rparr>"
  have "event_notify key s = Some (s\<lparr>devs := (devs s)(key \<mapsto> ?d)\<rparr>)"
    using Suc.prems by (simp add: event_notify_def)
  then show ?case using Suc.IH [of "s\<lparr>devs := (devs s)(key \<mapsto> ?d)\<rparr>" ?d] by (simp add: add.assoc cong: if_cong)
qed



text \<open>A successful \<open>poll\<close> consumes the event it reports: a read that follows finds nothing new,
  and returns \<open>-EAGAIN\<close> or sleeps until the next request.\<close>

theorem poll_consumes_event:
  assumes "ubbd_kring_poll l s = Some (EPOLLIN_RDNORM, l')" and "devs s (l_dev l) = Some d" and "kd_info d"
  shows "ubbd_kring_read 4 copy_fails True signal l' s = Some (Read_Ret (- EAGAIN) 0, l') \<and>
     ubbd_kring_read 4 copy_fails False False l' s = Some (Read_Sleeps, l')"
  using assms by (auto simp: ubbd_kring_poll_def ubbd_kring_read_def EPOLLIN_RDNORM_def split: if_splits)

theorem poll_consumes_event_witness:
  "ubbd_kring_read 4 False True False \<lparr>l_dev = 0, l_event_count = 5\<rparr> sys0 =
       Some (Read_Ret (- EAGAIN) 0, \<lparr>l_dev = 0, l_event_count = 5\<rparr>) \<and>
     ubbd_kring_read 4 False False False \<lparr>l_dev = 0, l_event_count = 5\<rparr> sys0 = Some (Read_Sleeps, \<lparr>l_dev = 0, l_event_count = 5\<rparr>)"
  by (rule poll_consumes_event [where l = "\<lparr>l_dev = 0, l_event_count = 4\<rparr>"
        and d = "\<lparr>kd_minor = 0, kd_event = 5, kd_info = True, kd_ref = 1\<rparr>"])
    (simp_all add: ubbd_kring_poll_def sys0_def)

lemma register_outcome:
  assumes "registry_ok s"
    and "ubbd_kring_register_device args_ok kz idr_mem name_ret add_ret s = Some (ret, s1, dev)"
  shows "(ret \<noteq> 0 \<longrightarrow> dev = None \<and> idr s1 = idr s \<and> devs s1 = devs s) \<and>
    (ret = 0 \<longrightarrow> (\<exists>key minor. dev = Some key \<and> idr s minor = None \<and> minor < KRING_MAX_DEVICES \<and>
       (\<forall>i < minor. idr s i \<noteq> None) \<and> idr s1 = (idr s)(minor \<mapsto> key) \<and> registry_ok s1 \<and>
       (\<exists>s2. ubbd_kring_unregister_device dev s1 = Some s2 \<and> idr s2 = idr s \<and> devs s2 = devs s)))"
proof -
  have nk: "devs s (next_key s) = None" using assms(1) by (simp add: registry_ok_def)
  then have fu: "(devs s)(next_key s := None) = devs s" by (simp add: fun_upd_idem)
  show ?thesis
  proof (cases "class_registered s \<and> args_ok \<and> kz \<and> idr_mem \<and> idr_alloc_id (idr s) \<noteq> None")
    case False
    then show ?thesis using register_early [OF False, of name_ret add_ret] assms(2) by auto
  next
    case True
    then obtain i where i: "idr_alloc_id (idr s) = Some i" by blast
    have free: "i < KRING_MAX_DEVICES" "idr s i = None" "\<forall>j < i. idr s j \<noteq> None" using idr_alloc_id_free [OF i] by blast+
    have fi: "(idr s)(i := None) = idr s" using free(2) by (simp add: fun_upd_idem)
    define t where "t = s\<lparr>next_key := next_key s + 1, idr := (idr s)(i \<mapsto> next_key s),
          devs := (devs s)(next_key s \<mapsto> \<lparr>kd_minor = i, kd_event = 0, kd_info = True, kd_ref = 1\<rparr>)\<rparr>"
    have reg: "ubbd_kring_register_device args_ok kz idr_mem name_ret add_ret s =
      (if (if name_ret \<noteq> 0 then name_ret else add_ret) = 0 then Some (0, t, Some (next_key s))
       else Some (if name_ret \<noteq> 0 then name_ret else add_ret,
         t\<lparr>idr := (idr s)(i := None), devs := (devs s)(next_key s := None)\<rparr>, None))"
      by (rule register_late [OF _ _ _ _ i t_def refl]) (use True in blast)+
    have "idr s j \<noteq> Some (next_key s)" for j
      using assms(1) nk unfolding registry_ok_def by (metis option.distinct(1))
    then have "registry_ok t"
      using assms(1) free(1) unfolding registry_ok_def t_def by (auto simp del: fun_upd_apply) (auto split: if_splits)
    moreover have "\<exists>s2. ubbd_kring_unregister_device (Some (next_key s)) t = Some s2 \<and> idr s2 = idr s \<and> devs s2 = devs s"
      by (simp add: t_def ubbd_kring_unregister_device_def unregister_drop_def put_device_def ubbd_kring_free_minor_def fi fu)
    ultimately show ?thesis
      using assms(2) reg free fi fu by (auto simp: t_def split: if_splits)
  qed
qed

text \<open>C25: Registration is all or nothing and its own inverse: a failed registration leaves no
  device and no minor behind; a successful one takes the lowest free minor for a new
  device, and unregistering it before anybody opened it restores the registry.\<close>

theorem register_unregister_roundtrip:
  assumes "registry_ok s"
    and "ubbd_kring_register_device args_ok kz idr_mem name_ret add_ret s = Some (ret, s1, dev)"
  shows "(ret \<noteq> 0 \<longrightarrow> dev = None \<and> idr s1 = idr s \<and> devs s1 = devs s) \<and>
    (ret = 0 \<longrightarrow> (\<exists>key minor. dev = Some key \<and> idr s minor = None \<and> minor < KRING_MAX_DEVICES \<and>
       (\<forall>i < minor. idr s i \<noteq> None) \<and> idr s1 = (idr s)(minor \<mapsto> key) \<and> registry_ok s1 \<and>
       (\<exists>s2. ubbd_kring_unregister_device dev s1 = Some s2 \<and> idr s2 = idr s \<and> devs s2 = devs s)))"
  by (rule register_outcome [OF assms])

theorem register_unregister_roundtrip_witness:
  "\<exists>ret s1 dev. ubbd_kring_register_device True True False 0 0 sys0 = Some (ret, s1, dev) \<and>
    (ret \<noteq> 0 \<longrightarrow> dev = None \<and> idr s1 = idr sys0 \<and> devs s1 = devs sys0) \<and>
    (ret = 0 \<longrightarrow> (\<exists>key minor. dev = Some key \<and> idr sys0 minor = None \<and> minor < KRING_MAX_DEVICES \<and>
       (\<forall>i < minor. idr sys0 i \<noteq> None) \<and> idr s1 = (idr sys0)(minor \<mapsto> key) \<and> registry_ok s1 \<and>
       (\<exists>s2. ubbd_kring_unregister_device dev s1 = Some s2 \<and> idr s2 = idr sys0 \<and> devs s2 = devs sys0)))"
proof -
  obtain ret s1 where r: "ubbd_kring_register_device True True False 0 0 sys0 = Some (ret, s1, None)"
    using register_early [of sys0 True True False 0 0] by auto
  show ?thesis using register_unregister_roundtrip [OF sys0_ok r] r by blast
qed

text \<open>C38: Between \<open>device_unregister\<close> and the release of the minor, the minor still leads to the
  freed device: an open in that window uses freed memory, whatever its other outcomes.\<close>

theorem open_during_unregister_uses_freed_device:
  assumes "idr s minor = Some key" and "devs s key = Some d" and "kd_ref d = 1" and "unregister_drop key s = Some (mi, s1)"
  shows "ubbd_kring_open minor mod_ok mem_ok s1 q = None"
  using assms by (auto simp: unregister_drop_def put_device_def ubbd_kring_open_def get_device_def)

theorem open_during_unregister_uses_freed_device_witness:
  "\<exists>mi s1. unregister_drop 0 sys0 = Some (mi, s1) \<and> ubbd_kring_open 0 True True s1 (queue1 56) = None"
proof -
  let ?d = "\<lparr>kd_minor = 0, kd_event = 5, kd_info = True, kd_ref = 1\<rparr>"
  have i: "idr sys0 0 = Some 0" "devs sys0 0 = Some ?d" "kd_ref ?d = 1" by (simp_all add: sys0_def)
  obtain mi s1 where u: "unregister_drop 0 sys0 = Some (mi, s1)"
    using i by (simp add: unregister_drop_def put_device_def)
  show ?thesis using open_during_unregister_uses_freed_device [OF i u] u by blast
qed

section \<open>The mappings as a state machine\<close>

text \<open>
  The backend maps the device, forks (the kernel then calls \<open>vm_ops->open\<close> for the copy), and
  unmaps.
\<close>

inductive map_step :: "kring_map \<Rightarrow> kring_map \<Rightarrow> bool" where
  step_mmap: "ubbd_kring_mmap a b addr w pid info m = (0, m') \<Longrightarrow> map_step m m'"
| step_fork: "i < length (km_vmas m) \<Longrightarrow> map_step m (ubbd_vma_open (km_vmas m ! i) m)"
| step_close: "ubbd_vma_close i m = Some m' \<Longrightarrow> map_step m m'"

text \<open>The same without forks, and with writable mappings only.\<close>

inductive excl_step :: "kring_map \<Rightarrow> kring_map \<Rightarrow> bool" where
  excl_mmap: "ubbd_kring_mmap a b addr True pid info m = (0, m') \<Longrightarrow> excl_step m m'"
| excl_close: "ubbd_vma_close i m = Some m' \<Longrightarrow> excl_step m m'"

inductive_cases map_stepE: "map_step m m'"
inductive_cases excl_stepE: "excl_step m m'"

definition map_init :: "nat \<Rightarrow> kring_map \<Rightarrow> bool" where
  "map_init base m \<longleftrightarrow> \<not> km_has_backend m \<and> km_backend_pid m = 0 \<and> km_kref m = base \<and> km_vmas m = []"

lemma mmap_0:
  "ubbd_kring_mmap a b addr w pid info m = (0, m') \<Longrightarrow>
     \<not> km_has_backend m \<and> m' = ubbd_vma_open w (m\<lparr>km_has_backend := True, km_backend_pid := pid\<rparr>)"
  by (auto simp: ubbd_kring_mmap_def ubbd_kring_dev_mmap_def Let_def split: if_splits)

lemma vma_close_length:
  "i < length xs \<Longrightarrow> length (take i xs @ drop (Suc i) xs) = length xs - 1"
  by simp

interpretation refs: step_invariant "map_init base" map_step "\<lambda>m. km_kref m = base + length (km_vmas m)" for base
proof (unfold_locales, goal_cases)
  case (2 m m')
  from 2(2) show ?case
    by (rule map_stepE) (use 2(1) in \<open>auto dest!: mmap_0 simp: ubbd_vma_open_def ubbd_vma_close_def Let_def split: if_splits\<close>)
qed (simp add: map_init_def)

definition one_backend :: "kring_map \<Rightarrow> bool" where
  "one_backend m \<longleftrightarrow> km_vmas m = [] \<and> \<not> km_has_backend m \<and> km_backend_pid m = 0 \<or> km_vmas m = [True] \<and> km_has_backend m"

interpretation excl: step_invariant "map_init base" excl_step one_backend for base
proof (unfold_locales, goal_cases)
  case (2 m m')
  from 2(2) show ?case
    by (rule excl_stepE)
      (use 2(1) in \<open>auto dest!: mmap_0 simp: one_backend_def ubbd_vma_open_def ubbd_vma_close_def Let_def split: if_splits\<close>)
qed (simp add: map_init_def one_backend_def)

definition map0 :: kring_map where
  "map0 = \<lparr>km_has_backend = False, km_backend_pid = 0, km_kref = 1, km_vmas = [], km_mmap_pages = 5\<rparr>"

text \<open>C28: The device stays referenced by every mapping: in every state the backend can reach by
  mapping, forking and unmapping, the reference count is the initial one plus the number of
  live mappings, so the device is not destroyed under a mapping.\<close>

theorem mappings_hold_references:
  assumes "reach (map_init base) map_step m"
  shows "km_kref m = base + length (km_vmas m)"
  using refs.reach_inv [OF assms] .

theorem mappings_hold_references_witness:
  "km_kref (ubbd_vma_open True map0\<lparr>km_has_backend := True, km_backend_pid := 7\<rparr>) =
     1 + length (km_vmas (ubbd_vma_open True map0\<lparr>km_has_backend := True, km_backend_pid := 7\<rparr>))"
proof (rule mappings_hold_references)
  have "map_step map0 (ubbd_vma_open True map0\<lparr>km_has_backend := True, km_backend_pid := 7\<rparr>)"
    by (rule step_mmap [where a = 0 and b = 20480 and addr = 0 and w = True and pid = 7 and info = True])
      (simp add: ubbd_kring_mmap_def ubbd_kring_dev_mmap_def map0_def ubbd_vma_open_def mask_eq_exp_minus_1)
  moreover have "map_init 1 map0" by (simp add: map_init_def map0_def)
  ultimately show "reach (map_init 1) map_step (ubbd_vma_open True map0\<lparr>km_has_backend := True, km_backend_pid := 7\<rparr>)"
    by (meson reach_init reach_step)
qed

text \<open>One backend at a time: as long as the mapping is writable and not inherited by a fork,
  there is never more than one live mapping, the flag says whether there is one, and a
  second process that maps the device gets \<open>-EBUSY\<close>.\<close>

theorem single_backend:
  assumes "reach (map_init base) excl_step m" and "km_vmas m \<noteq> []"
  shows "km_vmas m = [True] \<and> km_has_backend m \<and> ubbd_kring_dev_mmap (km_mmap_pages m) w pid m = (- EBUSY, m)"
  using excl.reach_inv [OF assms(1)] assms(2) by (auto simp: one_backend_def ubbd_kring_dev_mmap_def)

theorem single_backend_witness:
  "km_vmas (ubbd_vma_open True map0\<lparr>km_has_backend := True, km_backend_pid := 7\<rparr>) = [True] \<and>
   km_has_backend (ubbd_vma_open True map0\<lparr>km_has_backend := True, km_backend_pid := 7\<rparr>) \<and>
   ubbd_kring_dev_mmap (km_mmap_pages (ubbd_vma_open True map0\<lparr>km_has_backend := True, km_backend_pid := 7\<rparr>)) True 8
     (ubbd_vma_open True map0\<lparr>km_has_backend := True, km_backend_pid := 7\<rparr>) =
     (- EBUSY, ubbd_vma_open True map0\<lparr>km_has_backend := True, km_backend_pid := 7\<rparr>)"
proof (rule single_backend)
  have "excl_step map0 (ubbd_vma_open True map0\<lparr>km_has_backend := True, km_backend_pid := 7\<rparr>)"
    by (rule excl_mmap [where a = 0 and b = 20480 and addr = 0 and pid = 7 and info = True])
      (simp add: ubbd_kring_mmap_def ubbd_kring_dev_mmap_def map0_def ubbd_vma_open_def mask_eq_exp_minus_1)
  moreover have "map_init 1 map0" by (simp add: map_init_def map0_def)
  ultimately show "reach (map_init 1) excl_step (ubbd_vma_open True map0\<lparr>km_has_backend := True, km_backend_pid := 7\<rparr>)"
    by (meson reach_init reach_step)
qed (simp add: ubbd_vma_open_def)

text \<open>The flag is not a count. After a fork, unmapping one of the two writable mappings clears
  the flag, and another process can map the device while the first still has it; a
  read-only mapping leaves the flag set after it is gone, and nobody can map again.\<close>

theorem backend_flag_miscounts:
  assumes "map_init base m"
  shows "(\<exists>m1 m2 m3. ubbd_kring_dev_mmap (km_mmap_pages m) True pid1 m = (0, m1) \<and>
       ubbd_vma_close 1 (ubbd_vma_open True m1) = Some m2 \<and> km_vmas m2 = [True] \<and>
       ubbd_kring_dev_mmap (km_mmap_pages m) True pid2 m2 = (0, m3) \<and> km_vmas m3 = [True, True]) \<and>
     (\<exists>m1 m2. ubbd_kring_dev_mmap (km_mmap_pages m) False pid1 m = (0, m1) \<and> ubbd_vma_close 0 m1 = Some m2 \<and>
       km_vmas m2 = [] \<and> (\<forall>pid. fst (ubbd_kring_dev_mmap (km_mmap_pages m) True pid m2) = - EBUSY))"
  using assms
  by (simp add: map_init_def ubbd_kring_dev_mmap_def ubbd_vma_open_def ubbd_vma_close_def)

theorem backend_flag_miscounts_witness:
  "(\<exists>m1 m2 m3. ubbd_kring_dev_mmap (km_mmap_pages map0) True 7 map0 = (0, m1) \<and>
       ubbd_vma_close 1 (ubbd_vma_open True m1) = Some m2 \<and> km_vmas m2 = [True] \<and>
       ubbd_kring_dev_mmap (km_mmap_pages map0) True 8 m2 = (0, m3) \<and> km_vmas m3 = [True, True]) \<and>
   (\<exists>m1 m2. ubbd_kring_dev_mmap (km_mmap_pages map0) False 7 map0 = (0, m1) \<and> ubbd_vma_close 0 m1 = Some m2 \<and>
       km_vmas m2 = [] \<and> (\<forall>pid. fst (ubbd_kring_dev_mmap (km_mmap_pages map0) True pid m2) = - EBUSY))"
proof -
  have i: "map_init 1 map0" by (simp add: map_init_def map0_def)
  show ?thesis by (rule backend_flag_miscounts [OF i])
qed

section \<open>Page faults\<close>

lemma fault_slot:
  assumes off: "data_off_ok q" and pg: "unat pgoff = data_pgoff q + i" and i: "i < 2 ^ 32"
  shows "\<not> push_bit PAGE_SHIFT pgoff < data_off q"
    "unat (ucast ((push_bit PAGE_SHIFT pgoff - data_off q) div PAGE_SIZE) :: u32) = i"
proof -
  obtain d where d: "unat (data_off q) = 4096 * d" "d < 2 ^ 50" using off by (auto simp: data_off_ok_def)
  have p: "unat pgoff = d + i" using pg d by (simp add: data_pgoff_def)
  have o: "unat (push_bit PAGE_SHIFT pgoff) = 4096 * (d + i)"
    using p d(2) i by (simp add: push_bit_eq_mult unat_mult_lem [THEN iffD1])
  show "\<not> push_bit PAGE_SHIFT pgoff < data_off q" unfolding word_less_nat_alt o d(1) by simp
  then have "unat (push_bit PAGE_SHIFT pgoff - data_off q) = 4096 * i"
    using unat_sub [of "data_off q" "push_bit PAGE_SHIFT pgoff"] o d(1) by (simp add: not_less)
  then have "unat ((push_bit PAGE_SHIFT pgoff - data_off q) div PAGE_SIZE) = i" by (simp add: unat_div)
  then show "unat (ucast ((push_bit PAGE_SHIFT pgoff - data_off q) div PAGE_SIZE) :: u32) = i"
    using i by (simp add: unsigned_ucast_eq take_bit_nat_eq_self)
qed

lemma fault_ring:
  assumes off: "data_off_ok q" and pg: "unat pgoff < data_pgoff q"
  shows "push_bit PAGE_SHIFT pgoff < data_off q"
proof -
  obtain d where d: "unat (data_off q) = 4096 * d" "d < 2 ^ 50" using off by (auto simp: data_off_ok_def)
  have p: "unat pgoff < d" using pg d by (simp add: data_pgoff_def)
  then have "unat (push_bit PAGE_SHIFT pgoff) = 4096 * unat pgoff"
    using d(2) by (simp add: push_bit_eq_mult unat_mult_lem [THEN iffD1])
  then show ?thesis using p unfolding word_less_nat_alt d(1) by simp
qed

text \<open>C23: A page fault of the backend inside its mapping is answered with the page it names: a page
  of the ring area below \<open>data_off\<close>, the page that backs slot \<open>i\<close> at the \<open>i\<close>-th data page, and
  \<open>SIGBUS\<close> for a slot without a page; the translations stay coherent.\<close>

theorem vma_fault_coherent:
  assumes "data_off_ok q" and "ptes_ok q" and "unat pgoff < data_pgoff q + unat (data_pages q)"
  shows "fst (ubbd_vma_fault pgoff q) =
      (if unat pgoff < data_pgoff q then Fault_Ring (push_bit PAGE_SHIFT pgoff)
       else case data_pages_array q (unat pgoff - data_pgoff q) of None \<Rightarrow> VM_FAULT_SIGBUS | Some p \<Rightarrow> Fault_Page p) \<and>
    ptes_ok (snd (ubbd_vma_fault pgoff q)) \<and> (\<exists>pt. snd (ubbd_vma_fault pgoff q) = q\<lparr>user_ptes := pt\<rparr>)"
proof (cases "unat pgoff < data_pgoff q")
  case True
  then show ?thesis using fault_ring [OF assms(1) True] assms(2) by (simp add: ubbd_vma_fault_def Let_def) (metis data_pool.surjective data_pool.update_convs(8))
next
  case False
  then obtain i where i: "unat pgoff = data_pgoff q + i" by (metis le_Suc_ex not_less)
  have "i < unat (data_pages q)" using assms(3) i by simp
  then have "i < 2 ^ 32" using less_trans [OF _ unat_lt_2_32] by simp
  note f = fault_slot [OF assms(1) i this]
  show ?thesis
  proof (cases "data_pages_array q i")
    case None
    then show ?thesis using f i assms(2)
      by (simp add: ubbd_vma_fault_def ubbd_try_get_data_page_def Let_def) (metis data_pool.surjective data_pool.update_convs(8))
  next
    case (Some p)
    then show ?thesis using f i assms(2)
      by (auto simp: ubbd_vma_fault_def ubbd_try_get_data_page_def Let_def ptes_ok_def data_pgoff_def)
  qed
qed

theorem vma_fault_coherent_witness:
  "fst (ubbd_vma_fault 5 pool0) =
      (if unat (5 :: u64) < data_pgoff pool0 then Fault_Ring (push_bit PAGE_SHIFT 5)
       else case data_pages_array pool0 (unat (5 :: u64) - data_pgoff pool0) of None \<Rightarrow> VM_FAULT_SIGBUS | Some p \<Rightarrow> Fault_Page p) \<and>
    ptes_ok (snd (ubbd_vma_fault 5 pool0)) \<and> (\<exists>pt. snd (ubbd_vma_fault 5 pool0) = pool0\<lparr>user_ptes := pt\<rparr>)"
  by (rule vma_fault_coherent) (auto simp: data_off_ok_def pool0_def ptes_ok_def data_pgoff_def split: if_splits)

text \<open>Setting up the kring subsystem is all or nothing, and leaving undoes it: when
  \<open>ubbd_kring_init\<close> fails, region, \<open>cdev\<close> and class are as before; after a success \<open>ubbd_kring_exit\<close>
  brings them back.\<close>

theorem kring_init_exit_balanced:
  assumes "\<not> chrdev_region s" and "\<not> class_reg s" and "\<not> class_registered s" and "idr s = Map.empty"
    and "ubbd_kring_init region_ret cdev_ok add_ret class_ret s = (ret, s1)"
  shows "(ret \<noteq> 0 \<longrightarrow> s1 = s) \<and> (ret = 0 \<longrightarrow> class_registered s1 \<and> ubbd_kring_exit s1 = s)"
  using assms
  by (auto simp: ubbd_kring_init_def init_ubbd_kring_class_def ubbd_kring_major_init_def ubbd_kring_major_cleanup_def
      ubbd_kring_exit_def release_ubbd_kring_class_def Let_def split: if_splits)

theorem kring_init_exit_balanced_witness:
  "\<exists>s ret s1. ubbd_kring_init 0 True 0 0 s = (ret, s1) \<and>
     (ret \<noteq> 0 \<longrightarrow> s1 = s) \<and> (ret = 0 \<longrightarrow> class_registered s1 \<and> ubbd_kring_exit s1 = s)"
proof -
  let ?s = "sys0\<lparr>chrdev_region := False, cdev_live := 0, class_reg := False, class_registered := False, idr := Map.empty\<rparr>"
  obtain ret s1 where r: "ubbd_kring_init 0 True 0 0 ?s = (ret, s1)" by fastforce
  show ?thesis using kring_init_exit_balanced [OF _ _ _ _ r] r by auto
qed

text \<open>\<open>ubbd_queue_kring_destroy\<close> frees the name before it unregisters the device: the \<open>name\<close>
  attribute, read in between, uses the freed name.\<close>

theorem name_show_after_free:
  assumes "kd_info d"
  shows "name_show (destroy_free_name info) d = None"
  using assms by (simp add: name_show_def destroy_free_name_def)

theorem name_show_after_free_witness:
  "name_show (destroy_free_name \<lparr>ki_name = Name ''ubbd0-0'', ki_dev = Some 0, ki_size = 0\<rparr>)
     \<lparr>kd_minor = 0, kd_event = 5, kd_info = True, kd_ref = 1\<rparr> = None"
  by (rule name_show_after_free) simp

end
