(* ===== verification/Debugfs.thy ===== *)
theory Debugfs
  imports Ubbd_Prelude "HOL-Library.Sublist"
begin

text \<open>
  The debugfs tree of the driver (\<open>src/ubbd_debugfs.c\<close>): the directories of the devices and
  of their queues, and the two files of a queue. A dentry is its path; \<open>None\<close> is the
  \<open>NULL\<close> or error pointer debugfs hands out and accepts.
\<close>

section \<open>The file system\<close>

type_synonym dentry = "string list option"

record debugfs =
  dfs_entries :: "string list set"
  ubbd_debugfs_root :: dentry
  ubbd_debugfs_devices :: dentry

text \<open>\<open>debugfs_create_dir\<close> and \<open>debugfs_create_file\<close> fail when the parent is an error or the
  name is taken; \<open>debugfs_remove\<close> removes a directory with what it holds.\<close>

definition debugfs_create :: "string \<Rightarrow> dentry \<Rightarrow> debugfs \<Rightarrow> dentry \<times> debugfs" where
  "debugfs_create name parent fs =
     (case parent of
        None \<Rightarrow> (None, fs)
      | Some p \<Rightarrow>
          let path = p @ [name] in
          if path \<in> dfs_entries fs then (None, fs)
          else (Some path, fs\<lparr>dfs_entries := insert path (dfs_entries fs)\<rparr>))"

definition debugfs_remove :: "dentry \<Rightarrow> debugfs \<Rightarrow> debugfs" where
  "debugfs_remove d fs =
     (case d of None \<Rightarrow> fs | Some p \<Rightarrow> fs\<lparr>dfs_entries := {e \<in> dfs_entries fs. \<not> prefix p e}\<rparr>)"

text \<open>\<open>ubbd_debugfs_remove(&dp)\<close>: the pointer is \<open>NULL\<close> afterwards.\<close>

definition ubbd_debugfs_remove :: "dentry \<Rightarrow> debugfs \<Rightarrow> dentry \<times> debugfs" where
  "ubbd_debugfs_remove dp fs = (None, debugfs_remove dp fs)"

section \<open>Module set-up\<close>

definition ubbd_debugfs_init :: "debugfs \<Rightarrow> debugfs" where
  "ubbd_debugfs_init fs =
     (let (d1, fs1) = debugfs_create ''ubbd'' (Some []) fs;
          fs2 = fs1\<lparr>ubbd_debugfs_root := d1\<rparr>;
          (d2, fs3) = debugfs_create ''devices'' (ubbd_debugfs_root fs2) fs2
      in fs3\<lparr>ubbd_debugfs_devices := d2\<rparr>)"

definition ubbd_debugfs_cleanup :: "debugfs \<Rightarrow> debugfs" where
  "ubbd_debugfs_cleanup fs =
     (let (d1, fs1) = ubbd_debugfs_remove (ubbd_debugfs_devices fs) fs;
          fs2 = fs1\<lparr>ubbd_debugfs_devices := d1\<rparr>;
          (d2, fs3) = ubbd_debugfs_remove (ubbd_debugfs_root fs2) fs2
      in fs3\<lparr>ubbd_debugfs_root := d2\<rparr>)"

section \<open>The directory of a device\<close>

text \<open>Decimal digits, as \<open>%u\<close> prints them, and the pointers \<open>q_debugfs_d\<close>, \<open>q_debugfs_status_f\<close>,
  \<open>q_debugfs_req_stats_f\<close> (\<open>None\<close> in a build without \<open>UBBD_REQUEST_STATS\<close>) of a queue and \<open>dev_debugfs_d\<close>, \<open>dev_debugfs_queues_d\<close> of a device.\<close>

fun dec :: "nat \<Rightarrow> string" where
  "dec n = (if n < 10 then [char_of (48 + n)] else dec (n div 10) @ [char_of (48 + n mod 10)])"

declare dec.simps [simp del]

record q_dentries =
  q_debugfs_d :: dentry
  q_debugfs_status_f :: dentry
  q_debugfs_req_stats_f :: dentry

record dev_dentries =
  dev_debugfs_d :: dentry
  dev_debugfs_queues_d :: dentry
  dev_debugfs_qs :: "q_dentries list"

text \<open>The loop of \<open>ubbd_debugfs_add_dev\<close>; \<open>queue_id_buf\<close> has room for seven digits. \<open>stats\<close> is the build
  option \<open>UBBD_REQUEST_STATS\<close>.\<close>

fun add_dev_loop :: "bool \<Rightarrow> nat list \<Rightarrow> dentry \<Rightarrow> debugfs \<Rightarrow> q_dentries list \<times> debugfs" where
  "add_dev_loop stats [] qd fs = ([], fs)"
| "add_dev_loop stats (i # is) qd fs =
     (let (d, fs1) = debugfs_create (take 7 (dec i)) qd fs;
          (f, fs2) = debugfs_create ''status'' d fs1;
          (g, fs3) = (if stats then debugfs_create ''req_stats'' d fs2 else (None, fs2));
          (rest, fs4) = add_dev_loop stats is qd fs3
      in (\<lparr>q_debugfs_d = d, q_debugfs_status_f = f, q_debugfs_req_stats_f = g\<rparr> # rest, fs4))"

definition ubbd_debugfs_add_dev :: "bool \<Rightarrow> string \<Rightarrow> nat \<Rightarrow> debugfs \<Rightarrow> dev_dentries \<times> debugfs" where
  "ubbd_debugfs_add_dev stats name n fs =
     (let (d, fs1) = debugfs_create name (ubbd_debugfs_devices fs) fs;
          (qd, fs2) = debugfs_create ''queues'' d fs1;
          (qs, fs3) = add_dev_loop stats [0..<n] qd fs2
      in (\<lparr>dev_debugfs_d = d, dev_debugfs_queues_d = qd, dev_debugfs_qs = qs\<rparr>, fs3))"

fun remove_dev_loop :: "q_dentries list \<Rightarrow> debugfs \<Rightarrow> q_dentries list \<times> debugfs" where
  "remove_dev_loop [] fs = ([], fs)"
| "remove_dev_loop (q # qs) fs =
     (let (g, fs1) = ubbd_debugfs_remove (q_debugfs_req_stats_f q) fs;
          (f, fs2) = ubbd_debugfs_remove (q_debugfs_status_f q) fs1;
          (d, fs3) = ubbd_debugfs_remove (q_debugfs_d q) fs2;
          (rest, fs4) = remove_dev_loop qs fs3
      in (\<lparr>q_debugfs_d = d, q_debugfs_status_f = f, q_debugfs_req_stats_f = g\<rparr> # rest, fs4))"

definition ubbd_debugfs_remove_dev :: "dev_dentries \<Rightarrow> debugfs \<Rightarrow> dev_dentries \<times> debugfs" where
  "ubbd_debugfs_remove_dev dd fs =
     (let (qs, fs1) = remove_dev_loop (dev_debugfs_qs dd) fs;
          (qd, fs2) = ubbd_debugfs_remove (dev_debugfs_queues_d dd) fs1;
          (d, fs3) = ubbd_debugfs_remove (dev_debugfs_d dd) fs2
      in (\<lparr>dev_debugfs_d = d, dev_debugfs_queues_d = qd, dev_debugfs_qs = qs\<rparr>, fs3))"

section \<open>Request statistics\<close>

text \<open>
  The statistics of a queue, built with \<open>UBBD_REQUEST_STATS\<close>: the number of requests and
  the sums of their times in nanoseconds, in 64 bits.
\<close>

record stats =
  stats_reqs :: u64
  start_to_prepare :: u64
  start_to_submit :: u64
  start_to_complete :: u64
  start_to_release :: u64

text \<open>\<open>ubbd_req_stats\<close>: the times of a request are added, unless it was never started.\<close>

definition ubbd_req_stats :: "u64 \<Rightarrow> stats \<Rightarrow> stats \<Rightarrow> stats" where
  "ubbd_req_stats start_kt r s =
     (if start_kt = 0 then s
      else \<lparr>stats_reqs = stats_reqs s + 1,
            start_to_prepare = start_to_prepare s + start_to_prepare r,
            start_to_submit = start_to_submit s + start_to_submit r,
            start_to_complete = start_to_complete s + start_to_complete r,
            start_to_release = start_to_release s + start_to_release r\<rparr>)"

text \<open>\<open>do_div\<close> divides a 64-bit value by a 32-bit one: the divisor is truncated, and a
  divisor that truncates to zero is a division by zero.\<close>

definition do_div :: "u64 \<Rightarrow> u64 \<Rightarrow> u64 option" where
  "do_div n d = (let d32 = ucast (ucast d :: u32) in if d32 = 0 then None else Some (n div d32))"

definition ubbd_q_req_stats_show :: "stats \<Rightarrow> (u64 \<times> u64 \<times> u64 \<times> u64 \<times> u64) option" where
  "ubbd_q_req_stats_show s =
     (if stats_reqs s \<noteq> 0
      then do {
        p \<leftarrow> do_div (start_to_prepare s) (stats_reqs s);
        u \<leftarrow> do_div (start_to_submit s) (stats_reqs s);
        c \<leftarrow> do_div (start_to_complete s) (stats_reqs s);
        l \<leftarrow> do_div (start_to_release s) (stats_reqs s);
        Some (stats_reqs s, p, u, c, l)
      }
      else Some (stats_reqs s, start_to_prepare s, start_to_submit s, start_to_complete s, start_to_release s))"

definition ubbd_q_req_stats_write :: "char option \<Rightarrow> int \<Rightarrow> stats \<Rightarrow> int \<times> stats" where
  "ubbd_q_req_stats_write ubuf cnt s =
     (case ubuf of
        None \<Rightarrow> (- EFAULT, s)
      | Some buffer \<Rightarrow>
          (cnt, if buffer = CHR ''r'' \<or> buffer = CHR ''R''
                then \<lparr>stats_reqs = 0, start_to_prepare = 0, start_to_submit = 0, start_to_complete = 0,
                      start_to_release = 0\<rparr>
                else s))"

section \<open>Adding and removing a device\<close>

text \<open>What happens below a directory stays below it.\<close>

definition below :: "string list \<Rightarrow> dentry \<Rightarrow> bool" where
  "below p d \<longleftrightarrow> (case d of None \<Rightarrow> True | Some e \<Rightarrow> prefix p e)"

definition same_outside :: "string list \<Rightarrow> debugfs \<Rightarrow> debugfs \<Rightarrow> bool" where
  "same_outside p fs fs' \<longleftrightarrow>
     fs' = fs\<lparr>dfs_entries := dfs_entries fs'\<rparr> \<and> (\<forall>e. \<not> prefix p e \<longrightarrow> (e \<in> dfs_entries fs' \<longleftrightarrow> e \<in> dfs_entries fs))"

lemma same_outside_refl [simp]: "same_outside p fs fs"
  by (simp add: same_outside_def)

lemma same_outside_trans [trans]: "same_outside p fs fs1 \<Longrightarrow> same_outside p fs1 fs2 \<Longrightarrow> same_outside p fs fs2"
  by (auto simp: same_outside_def) (metis debugfs.surjective debugfs.update_convs(1))

lemma create_below:
  assumes "debugfs_create name d fs = (d', fs')" and "below p d"
  shows "below p d' \<and> same_outside p fs fs'"
  using assms by (auto simp: debugfs_create_def below_def same_outside_def Let_def split: option.splits if_splits)

lemma remove_below: "below p d \<Longrightarrow> same_outside p fs (debugfs_remove d fs)"
  by (auto simp: debugfs_remove_def below_def same_outside_def split: option.splits intro: prefix_order.trans)

definition q_below :: "string list \<Rightarrow> q_dentries \<Rightarrow> bool" where
  "q_below p q \<longleftrightarrow> below p (q_debugfs_d q) \<and> below p (q_debugfs_status_f q) \<and> below p (q_debugfs_req_stats_f q)"

lemma add_dev_loop_below:
  "add_dev_loop stats is qd fs = (qs, fs') \<Longrightarrow> below p qd \<Longrightarrow> (\<forall>q \<in> set qs. q_below p q) \<and> same_outside p fs fs'"
proof (induction "is" arbitrary: fs qs)
  case (Cons i "is")
  obtain d fs1 f fs2 g fs3 rest where c: "debugfs_create (take 7 (dec i)) qd fs = (d, fs1)" "debugfs_create ''status'' d fs1 = (f, fs2)"
      "(if stats then debugfs_create ''req_stats'' d fs2 else (None, fs2)) = (g, fs3)" "add_dev_loop stats is qd fs3 = (rest, fs')"
      "qs = \<lparr>q_debugfs_d = d, q_debugfs_status_f = f, q_debugfs_req_stats_f = g\<rparr> # rest"
    using Cons.prems(1) by (auto simp: Let_def split: prod.splits)
  have a: "below p d" "same_outside p fs fs1" using create_below [OF c(1) Cons.prems(2)] by simp_all
  have b: "below p f" "same_outside p fs1 fs2" using create_below [OF c(2) a(1)] by simp_all
  have e: "below p g" "same_outside p fs2 fs3" using c(3) create_below [OF _ a(1), of "''req_stats''" fs2 g fs3] by (auto simp: below_def split: if_splits)
  have "(\<forall>q \<in> set rest. q_below p q) \<and> same_outside p fs3 fs'" by (rule Cons.IH [OF c(4) Cons.prems(2)])
  then show ?case using a b e c(5) by (auto simp: q_below_def intro: same_outside_trans)
qed simp

lemma remove_dev_loop_below: "\<forall>q \<in> set qs. q_below p q \<Longrightarrow> same_outside p fs (snd (remove_dev_loop qs fs))"
proof (induction qs arbitrary: fs)
  case (Cons q qs)
  let ?fs3 = "debugfs_remove (q_debugfs_d q) (debugfs_remove (q_debugfs_status_f q) (debugfs_remove (q_debugfs_req_stats_f q) fs))"
  have "q_below p q" using Cons.prems by simp
  then have "same_outside p fs ?fs3" unfolding q_below_def by (meson same_outside_trans remove_below)
  moreover have "same_outside p ?fs3 (snd (remove_dev_loop qs ?fs3))" using Cons by simp
  ultimately show ?case by (auto simp: Let_def ubbd_debugfs_remove_def split: prod.splits intro: same_outside_trans)
qed simp

text \<open>Removing the directory of a device leaves what was outside it.\<close>

lemma remove_top:
  assumes "same_outside p fs fs'" and "\<forall>e \<in> dfs_entries fs. \<not> prefix p e"
  shows "debugfs_remove (Some p) fs' = fs"
proof -
  have "{e \<in> dfs_entries fs'. \<not> prefix p e} = dfs_entries fs" using assms by (auto simp: same_outside_def)
  moreover have "fs' = fs\<lparr>dfs_entries := dfs_entries fs'\<rparr>" using assms(1) by (simp add: same_outside_def)
  ultimately show ?thesis by (simp add: debugfs_remove_def) (metis debugfs.surjective debugfs.update_convs(1))
qed

lemma debugfs_add_remove:
  assumes "ubbd_debugfs_devices fs = Some dir" and "\<forall>e \<in> dfs_entries fs. \<not> prefix (dir @ [name]) e"
  shows "snd (ubbd_debugfs_remove_dev (fst (ubbd_debugfs_add_dev stats name n fs)) (snd (ubbd_debugfs_add_dev stats name n fs))) = fs"
proof -
  let ?p = "dir @ [name]"
  obtain d fs1 where c1: "debugfs_create name (Some dir) fs = (d, fs1)" by fastforce
  then have d: "d = Some ?p" "same_outside ?p fs fs1"
    using assms(2) by (auto simp: debugfs_create_def Let_def same_outside_def split: if_splits)
  obtain qd fs2 where c2: "debugfs_create ''queues'' d fs1 = (qd, fs2)" by fastforce
  obtain qs fs3 where c3: "add_dev_loop stats [0..<n] qd fs2 = (qs, fs3)" by fastforce
  have b2: "below ?p qd" "same_outside ?p fs1 fs2" using create_below [OF c2, of ?p] d(1) by (auto simp: below_def)
  note b3 = add_dev_loop_below [OF c3 b2(1)]
  define fs4 where "fs4 = snd (remove_dev_loop qs fs3)"
  have "same_outside ?p fs3 fs4" unfolding fs4_def using b3 by (intro remove_dev_loop_below) blast
  then have "same_outside ?p fs (debugfs_remove qd fs4)"
    using d(2) b2 b3 remove_below [OF b2(1), of fs4] by (meson same_outside_trans)
  then have "debugfs_remove (Some ?p) (debugfs_remove qd fs4) = fs" by (rule remove_top [OF _ assms(2)])
  then show ?thesis
    using c1 c2 c3 d(1) assms(1)
    by (auto simp: ubbd_debugfs_add_dev_def ubbd_debugfs_remove_dev_def ubbd_debugfs_remove_def fs4_def split: prod.splits)
qed

section \<open>Statistics\<close>

definition stats0 :: stats where
  "stats0 = \<lparr>stats_reqs = 0, start_to_prepare = 0, start_to_submit = 0, start_to_complete = 0, start_to_release = 0\<rparr>"

definition all_stats :: "stats list \<Rightarrow> stats" where
  "all_stats rs = foldl (\<lambda>s r. ubbd_req_stats 1 r s) stats0 rs"

definition total :: "(stats \<Rightarrow> u64) \<Rightarrow> stats list \<Rightarrow> nat" where
  "total f rs = (\<Sum>r\<leftarrow>rs. unat (f r))"

lemma foldl_stats:
  "foldl (\<lambda>s r. ubbd_req_stats 1 r s) s rs =
     \<lparr>stats_reqs = stats_reqs s + of_nat (length rs),
      start_to_prepare = start_to_prepare s + of_nat (total start_to_prepare rs),
      start_to_submit = start_to_submit s + of_nat (total start_to_submit rs),
      start_to_complete = start_to_complete s + of_nat (total start_to_complete rs),
      start_to_release = start_to_release s + of_nat (total start_to_release rs)\<rparr>"
  by (induction rs arbitrary: s) (simp_all add: ubbd_req_stats_def total_def)

lemma do_div_of_nat:
  assumes "m < 2 ^ 64" and "0 < n" and "n < 2 ^ 32"
  shows "do_div (of_nat m) (of_nat n) = Some (of_nat (m div n))"
proof -
  have u: "ucast (ucast (of_nat n :: u64) :: u32) = (of_nat n :: u64)"
    using assms(3) by (simp add: word_unat_eq_iff unsigned_ucast_eq unsigned_take_bit_eq unat_of_nat take_bit_nat_eq_self)
  have nz: "(of_nat n :: u64) \<noteq> 0" using assms(2,3) by (simp add: word_of_nat_eq_0_iff nat_dvd_not_less)
  have "(of_nat m :: u64) div of_nat n = of_nat (m div n)"
    using assms by (simp add: word_arith_nat_div unat_of_nat)
  then show ?thesis using u nz by (simp add: do_div_def Let_def)
qed

text \<open>The statistics file reports the number of requests and their average times: after any
  non-empty sequence of fewer than \<open>2 ^ 32\<close> requests whose summed times fit 64 bits, each figure
  shown is the sum of that time over the requests divided by their number.\<close>

theorem stats_show_averages:
  assumes "rs \<noteq> []" and "length rs < 2 ^ 32"
    and "total start_to_prepare rs < 2 ^ 64" and "total start_to_submit rs < 2 ^ 64"
    and "total start_to_complete rs < 2 ^ 64" and "total start_to_release rs < 2 ^ 64"
  shows "ubbd_q_req_stats_show (all_stats rs) =
     Some (of_nat (length rs), of_nat (total start_to_prepare rs div length rs),
           of_nat (total start_to_submit rs div length rs), of_nat (total start_to_complete rs div length rs),
           of_nat (total start_to_release rs div length rs))"
proof -
  have "(of_nat (length rs) :: u64) \<noteq> 0"
    using assms(1,2) by (simp add: word_of_nat_eq_0_iff nat_dvd_not_less)
  then show ?thesis
    using assms do_div_of_nat [of _ "length rs"]
    by (simp add: ubbd_q_req_stats_show_def all_stats_def foldl_stats stats0_def)
qed

theorem stats_show_averages_witness:
  "ubbd_q_req_stats_show (all_stats [stats0\<lparr>start_to_submit := 7\<rparr>, stats0\<lparr>start_to_submit := 10\<rparr>]) = Some (2, 0, 8, 0, 0)"
  using stats_show_averages [of "[stats0\<lparr>start_to_submit := 7\<rparr>, stats0\<lparr>start_to_submit := 10\<rparr>]"]
  by (simp add: total_def stats0_def numeral_2_eq_2 [symmetric])

text \<open>After a multiple of \<open>2 ^ 32\<close> requests, reading the statistics divides by zero, because
  \<open>do_div\<close> takes a 32-bit divisor.\<close>

theorem stats_show_divides_by_zero:
  assumes "stats_reqs s \<noteq> 0" and "unat (stats_reqs s) mod 2 ^ 32 = 0"
  shows "ubbd_q_req_stats_show s = None"
proof -
  have "(ucast (stats_reqs s) :: u32) = 0"
    using assms(2) by (simp add: word_unat_eq_iff unsigned_ucast_eq take_bit_eq_mod)
  then show ?thesis using assms(1) by (simp add: ubbd_q_req_stats_show_def do_div_def Let_def)
qed

theorem stats_show_divides_by_zero_witness: "ubbd_q_req_stats_show (stats0\<lparr>stats_reqs := 4294967296\<rparr>) = None"
  by (rule stats_show_divides_by_zero) (simp_all add: stats0_def)

end
