(* ===== verification/Device.thy ===== *)
theory Device
  imports Kring Debugfs
begin

text \<open>
  The device (\<open>src/ubbd_dev.c\<close>): its queues, its disk, its life from \<open>ubbd_dev_add_dev\<close> to the
  last reference, and the commands that stop, start, configure and remove it.

  \<open>None\<close> is a fault (a freed object used, an object freed twice, a \<open>NULL\<close> pointer) or a call
  that does not return. The outcome of a kernel call that can fail is drawn from \<open>rets\<close>: 0 is
  success, anything else the error it returns; when the list is exhausted calls succeed.
\<close>

section \<open>State\<close>

text \<open>Constants of \<open>ubbd.h\<close> beyond those of the rings, and the build: the kernel the module is
  compiled for, whether with \<open>UBBD_REQUEST_STATS\<close>, \<open>HZ\<close>, the present CPUs, and the map from CPU to hardware queue that blk-mq
  sets up.\<close>

record ubbd_const =
  uc_h :: ubbd_h
  UBBD_MAGIC :: nat
  UBBD_SB_VERSION :: nat
  UBBD_INFO_OFF :: u32
  UBBD_INFO_SIZE :: u32
  CMDR_OFF :: u32
  COMPR_OFF :: u32
  UBBD_DEV_KSTATUS_SHIFT :: nat
  UBBD_ATTR_FLAGS_ADD_READONLY :: u64
  UBBD_ATTR_FLAGS_ADD_WRITECACHE :: u64
  UBBD_ATTR_FLAGS_ADD_FUA :: u64
  UBBD_ATTR_FLAGS_ADD_DISCARD :: u64
  UBBD_ATTR_FLAGS_ADD_WRITE_ZEROS :: u64
  uc_kernel_6_8 :: bool
  uc_request_stats :: bool
  HAVE_ALLOC_DISK :: bool
  HAVE_FLAG_DISCARD :: bool
  HZ :: u32
  uc_cpus :: "nat list"
  uc_mq_map :: "nat \<Rightarrow> nat"

datatype dev_status = UBBD_DEV_KSTATUS_INIT | UBBD_DEV_KSTATUS_PREPARED
  | UBBD_DEV_KSTATUS_RUNNING | UBBD_DEV_KSTATUS_REMOVING

text \<open>The super block of a queue, apart from the heads, tails and sizes that are part of
  \<open>ubbd_queue\<close>.\<close>

record ubbd_sb =
  sb_magic :: nat
  sb_version :: nat
  sb_info_off :: u32
  sb_info_size :: u32
  sb_cmdr_off :: u32
  sb_compr_off :: u32

record dev_queue =
  dq_core :: ubbd_queue
  dq_index :: nat
  dq_sb :: "ubbd_sb option"            \<comment> \<open>\<open>sb_addr\<close>\<close>
  dq_bitmap :: bool                    \<comment> \<open>\<open>data_bitmap\<close> is not \<open>NULL\<close>\<close>
  dq_info :: kring_info
  dq_mmap_pages :: u64
  dq_cpumask :: "nat list"
  dq_backend_pid :: int
  dq_hctx :: "nat option"              \<comment> \<open>\<open>mq_hctx\<close>: the queue its \<open>driver_data\<close> points to\<close>

record queue_limits =
  lim_rotational :: bool
  lim_write_cache :: bool
  lim_fua :: bool
  lim_flag_discard :: bool
  max_hw_sectors :: nat
  max_sectors :: nat
  max_segments :: nat
  max_segment_size :: nat
  io_min :: nat
  io_opt :: nat
  discard_granularity :: nat
  max_discard_sectors :: nat
  max_hw_discard_sectors :: nat
  max_user_discard_sectors :: nat
  max_discard_segments :: nat
  max_write_zeroes_sectors :: nat
  max_hw_wzeroes_unmap_sectors :: nat
  max_wzeroes_unmap_sectors :: nat

record gendisk =
  gd_name :: string
  gd_major :: int
  gd_first_minor :: int
  gd_minors :: nat
  gd_capacity :: u64
  gd_ro :: bool
  gd_lim :: queue_limits
  gd_rq_timeout :: u32
  gd_added :: bool

record blk_mq_tag_set =
  ts_queue_depth :: nat
  ts_nr_hw_queues :: u32
  ts_timeout :: u32

record ubbd_device =
  dev_id :: nat
  dv_major :: int
  dv_minor :: int
  disk :: "gendisk option"
  dv_name :: string
  tag_set :: "blk_mq_tag_set option"
  dentries :: dev_dentries
  open_count :: nat
  num_queues :: u32
  queues :: "dev_queue list"
  dev_size :: u64
  dev_features :: u64
  io_timeout :: u32
  dv_status :: dev_status
  status_flags :: u32
  kref :: nat

text \<open>The objects the driver allocates, counted in \<open>live\<close>.\<close>

datatype res = R_device | R_queues | R_bitmap | R_sb | R_name | R_task_wq | R_tag_set | R_disk

record ubbd_sys =
  kring :: kring_sys
  mem :: kmem
  rets :: "int list"
  live :: "res \<Rightarrow> nat"
  ubbd_dev_id_ida :: "nat set"
  devices :: "nat \<rightharpoonup> ubbd_device"
  dev_next :: nat
  ubbd_dev_list :: "nat list"
  ubbd_total_devs :: int
  ubbd_wq :: "nat list"                \<comment> \<open>devices whose \<open>add_disk\<close> work is queued\<close>
  dfs :: debugfs
  ubbd_major :: int
  def_limits :: queue_limits           \<comment> \<open>what blk-mq gives a new queue\<close>

definition take_ret :: "ubbd_sys \<Rightarrow> int \<times> ubbd_sys" where
  "take_ret s = (case rets s of [] \<Rightarrow> (0, s) | r # rs \<Rightarrow> (r, s\<lparr>rets := rs\<rparr>))"

definition got_res :: "res \<Rightarrow> ubbd_sys \<Rightarrow> ubbd_sys" where
  "got_res r s = s\<lparr>live := (live s)(r := live s r + 1)\<rparr>"

definition alloc_res :: "res \<Rightarrow> ubbd_sys \<Rightarrow> bool \<times> ubbd_sys" where
  "alloc_res r s = (let (ret, s1) = take_ret s in if ret = 0 then (True, got_res r s1) else (False, s1))"

definition free_res :: "res \<Rightarrow> ubbd_sys \<Rightarrow> ubbd_sys option" where
  "free_res r s = (if live s r = 0 then None else Some (s\<lparr>live := (live s)(r := live s r - 1)\<rparr>))"

section \<open>Status flags and minors\<close>

definition UBBD_DEV_STATUS_FLAG_INTRANS :: u32 where "UBBD_DEV_STATUS_FLAG_INTRANS = push_bit 0 1"

definition ubbd_dev_status_flags_test :: "ubbd_const \<Rightarrow> ubbd_device \<Rightarrow> u32 \<Rightarrow> bool" where
  "ubbd_dev_status_flags_test C d b = (drop_bit (UBBD_DEV_KSTATUS_SHIFT C) (status_flags d) AND b \<noteq> 0)"

definition ubbd_dev_status_flags_set :: "ubbd_const \<Rightarrow> ubbd_device \<Rightarrow> u32 \<Rightarrow> ubbd_device" where
  "ubbd_dev_status_flags_set C d b = d\<lparr>status_flags := status_flags d OR push_bit (UBBD_DEV_KSTATUS_SHIFT C) b\<rparr>"

definition ubbd_dev_status_flags_clear :: "ubbd_const \<Rightarrow> ubbd_device \<Rightarrow> u32 \<Rightarrow> ubbd_device" where
  "ubbd_dev_status_flags_clear C d b =
     d\<lparr>status_flags := status_flags d AND NOT (push_bit (UBBD_DEV_KSTATUS_SHIFT C) b)\<rparr>"

definition ubbd_dev_id_to_minor :: "int \<Rightarrow> int" where
  "ubbd_dev_id_to_minor did = push_bit 4 did"

definition minor_to_ubbd_dev_id :: "int \<Rightarrow> int" where
  "minor_to_ubbd_dev_id minor = drop_bit 4 minor"

text \<open>\<open>ubbd_dev_state_get_lock\<close> spins while the device is in transition; alone it never gets out.\<close>

definition ubbd_dev_state_get_lock :: "ubbd_const \<Rightarrow> ubbd_device \<Rightarrow> unit option" where
  "ubbd_dev_state_get_lock C d =
     (if ubbd_dev_status_flags_test C d UBBD_DEV_STATUS_FLAG_INTRANS then None else Some ())"

section \<open>Queues\<close>

definition zero_ce :: ubbd_ce where "zero_ce = \<lparr>ce_priv_data = 0, ce_result = 0\<rparr>"

text \<open>A queue as \<open>kcalloc\<close> leaves it. The status is not read before \<open>ubbd_queue_create\<close> sets
  it; the requests of the tags belong to blk-mq.\<close>

definition zero_queue :: "(nat \<Rightarrow> ubbd_request) \<Rightarrow> dev_queue" where
  "zero_queue pd =
     \<lparr>dq_core = \<lparr>cmdr_size = 0, cmd_head = 0, cmd_tail = 0, cmdr_mem = (\<lambda>_. zero_se),
        data_pages = 0, data_pages_allocated = 0, data_pages_reserved = 0, data_bitmap = [],
        data_pages_array = Map.empty, data_off = 0, inode_set = False, user_ptes = Map.empty,
        q_status = UBBD_QUEUE_KSTATUS_STOPPED, q_req_tid = 0, inflight_reqs = [], pdus = pd,
        compr_size = 0, compr_head = 0, compr_tail = 0, compr_mem = (\<lambda>_. zero_ce),
        task_wq = [], kring_event = 0, blk_log = []\<rparr>,
      dq_index = 0, dq_sb = None, dq_bitmap = False, dq_info = \<lparr>ki_name = Name_NULL, ki_dev = None, ki_size = 0\<rparr>,
      dq_mmap_pages = 0, dq_cpumask = [], dq_backend_pid = 0, dq_hctx = None\<rparr>"

definition ubbd_queue_sb_init :: "ubbd_const \<Rightarrow> dev_queue \<Rightarrow> ubbd_sys \<Rightarrow> int \<times> dev_queue \<times> ubbd_sys" where
  "ubbd_queue_sb_init C q s =
     (let (ok, s1) = alloc_res R_sb s in
      if \<not> ok then (- ENOMEM, q, s1)
      else
        let H = uc_h C; c = dq_core q in
        (0, q\<lparr>dq_sb := Some \<lparr>sb_magic = UBBD_MAGIC C, sb_version = UBBD_SB_VERSION C,
                sb_info_off = UBBD_INFO_OFF C, sb_info_size = UBBD_INFO_SIZE C,
                sb_cmdr_off = CMDR_OFF C, sb_compr_off = COMPR_OFF C\<rparr>,
              dq_mmap_pages := ucast (data_pages c) + drop_bit PAGE_SHIFT (RING_SIZE H),
              dq_core := c\<lparr>cmdr_size := CMDR_SIZE H, cmd_head := 0, cmd_tail := 0, cmdr_mem := (\<lambda>_. zero_se),
                compr_size := COMPR_SIZE H, compr_head := 0, compr_tail := 0, compr_mem := (\<lambda>_. zero_ce),
                data_off := RING_SIZE H\<rparr>\<rparr>, s1))"

definition ubbd_queue_sb_destroy :: "dev_queue \<Rightarrow> ubbd_sys \<Rightarrow> ubbd_sys option" where
  "ubbd_queue_sb_destroy q s = (case dq_sb q of None \<Rightarrow> Some s | Some _ \<Rightarrow> free_res R_sb s)"

text \<open>\<open>ubbd_page_release\<close>: every page of the array is taken out and freed.\<close>

fun page_release_loop :: "nat list \<Rightarrow> 'a data_pool_scheme \<Rightarrow> kmem \<Rightarrow> ('a data_pool_scheme \<times> kmem) option" where
  "page_release_loop [] q km = Some (q, km)"
| "page_release_loop (i # is) q km =
     (case data_pages_array q i of
        None \<Rightarrow> page_release_loop is q km
      | Some p \<Rightarrow> do {
          km1 \<leftarrow> free_page p km;
          page_release_loop is (q\<lparr>data_pages_array := (data_pages_array q)(i := None)\<rparr>) km1
        })"

definition ubbd_page_release :: "'a data_pool_scheme \<Rightarrow> kmem \<Rightarrow> ('a data_pool_scheme \<times> kmem) option" where
  "ubbd_page_release q km = page_release_loop [0..<Suc (unat (data_pages q))] q km"

text \<open>The kring of a queue: \<open>kasprintf\<close>, then the registration.\<close>

definition queue_kring_init :: "nat \<Rightarrow> dev_queue \<Rightarrow> ubbd_sys \<Rightarrow> (int \<times> dev_queue \<times> ubbd_sys) option" where
  "queue_kring_init did q s0 = do {
     let (ok, s1) = alloc_res R_name s0;
     let (kz, s2) = take_ret s1;
     let (ir, s3) = take_ret s2;
     let (nr, s4) = take_ret s3;
     let (ar, s5) = take_ret s4;
     let name = (if ok then Some (''ubbd'' @ dec did @ ''-'' @ dec (dq_index q)) else None);
     (ret, info, ks) \<leftarrow> ubbd_queue_kring_init name (kz = 0) (ir = 0) nr ar (dq_mmap_pages q) (dq_info q) (kring s5);
     Some (ret, q\<lparr>dq_info := info\<rparr>, s5\<lparr>kring := ks\<rparr>)
   }"

definition queue_kring_destroy :: "dev_queue \<Rightarrow> ubbd_sys \<Rightarrow> ubbd_sys option" where
  "queue_kring_destroy q s = do {
     s1 \<leftarrow> (case ki_name (dq_info q) of Name_NULL \<Rightarrow> Some s | Name _ \<Rightarrow> free_res R_name s | Name_Freed \<Rightarrow> None);
     (info, ks) \<leftarrow> ubbd_queue_kring_destroy (dq_info q) (kring s1);
     Some (s1\<lparr>kring := ks\<rparr>)
   }"

definition ubbd_queue_destroy :: "dev_queue \<Rightarrow> ubbd_sys \<Rightarrow> ubbd_sys option" where
  "ubbd_queue_destroy q s = do {
     s1 \<leftarrow> queue_kring_destroy q s;
     s2 \<leftarrow> ubbd_queue_sb_destroy q s1;
     if dq_bitmap q
     then do {
       (c, km) \<leftarrow> ubbd_page_release (dq_core q) (mem s2);
       free_res R_bitmap (s2\<lparr>mem := km\<rparr>)
     }
     else Some s2
   }"

definition UBBD_KRING_DATA_RESERVE_PERCENT :: u32 where "UBBD_KRING_DATA_RESERVE_PERCENT = 75"

definition ubbd_queue_create ::
  "ubbd_const \<Rightarrow> nat \<Rightarrow> u32 \<Rightarrow> dev_queue \<Rightarrow> ubbd_sys \<Rightarrow> (int \<times> dev_queue \<times> ubbd_sys) option" where
  "ubbd_queue_create C did pages q s = do {
     let q1 = q\<lparr>dq_core := (dq_core q)\<lparr>data_pages := pages,
                 data_pages_reserved := pages * UBBD_KRING_DATA_RESERVE_PERCENT div 100,
                 data_pages_array := Map.empty\<rparr>\<rparr>;
     let (ok, s1) = alloc_res R_bitmap s;
     if \<not> ok then Some (- ENOMEM, q1, s1)
     else do {
       let q2 = q1\<lparr>dq_bitmap := True, dq_core := (dq_core q1)\<lparr>data_bitmap := replicate (unat pages) False\<rparr>\<rparr>;
       let (ret, q3, s2) = ubbd_queue_sb_init C q2 s1;
       if ret \<noteq> 0 then Some (ret, q3, s2)
       else do {
         (ret, q4, s3) \<leftarrow> queue_kring_init did q3 s2;
         if ret \<noteq> 0 then Some (ret, q4, s3)
         else Some (0, q4\<lparr>dq_core := (dq_core q4)\<lparr>inflight_reqs := [], q_req_tid := 0,
                 q_status := UBBD_QUEUE_KSTATUS_RUNNING\<rparr>, dq_cpumask := []\<rparr>, s3)
       }
     }
   }"

fun destroy_queues_loop :: "dev_queue list \<Rightarrow> ubbd_sys \<Rightarrow> ubbd_sys option" where
  "destroy_queues_loop [] s = Some s"
| "destroy_queues_loop (q # qs) s = do { s1 \<leftarrow> ubbd_queue_destroy q s; destroy_queues_loop qs s1 }"

definition ubbd_dev_destroy_queues :: "ubbd_device \<Rightarrow> ubbd_sys \<Rightarrow> ubbd_sys option" where
  "ubbd_dev_destroy_queues d s = do { s1 \<leftarrow> destroy_queues_loop (queues d) s; free_res R_queues s1 }"

fun create_queues_loop ::
  "ubbd_const \<Rightarrow> nat \<Rightarrow> u32 \<Rightarrow> nat list \<Rightarrow> dev_queue list \<Rightarrow> ubbd_sys \<Rightarrow> (int \<times> dev_queue list \<times> ubbd_sys) option" where
  "create_queues_loop C did pages [] qs s = Some (0, qs, s)"
| "create_queues_loop C did pages (i # is) qs s =
     (if length qs \<le> i then None
      else do {
        (ret, q, s1) \<leftarrow> ubbd_queue_create C did pages ((qs ! i)\<lparr>dq_index := i\<rparr>) s;
        if ret \<noteq> 0 then Some (ret, qs[i := q], s1)
        else create_queues_loop C did pages is (qs[i := q]) s1
      })"

text \<open>\<open>ubbd_dev_create_queues\<close>: the number of queues is a signed parameter, so the loop does
  not run for a number from \<open>2 ^ 31\<close> on.\<close>

definition ubbd_dev_create_queues ::
  "ubbd_const \<Rightarrow> u32 \<Rightarrow> u32 \<Rightarrow> (nat \<Rightarrow> ubbd_request) \<Rightarrow> ubbd_device \<Rightarrow> ubbd_sys \<Rightarrow> (int \<times> ubbd_device \<times> ubbd_sys) option" where
  "ubbd_dev_create_queues C n pages pd d s = do {
     let d1 = d\<lparr>num_queues := n\<rparr>;
     let (ok, s1) = alloc_res R_queues s;
     if \<not> ok then Some (- ENOMEM, d1, s1)
     else do {
       (ret, qs, s2) \<leftarrow> create_queues_loop C (dev_id d) pages [0..<nat (sint n)] (replicate (unat n) (zero_queue pd)) s1;
       let d2 = d1\<lparr>queues := qs\<rparr>;
       if ret \<noteq> 0 then do { s3 \<leftarrow> ubbd_dev_destroy_queues d2 s2; Some (ret, d2, s3) }
       else Some (0, d2, s2)
     }
   }"

section \<open>Creating and destroying a device\<close>

record ubbd_dev_add_opts =
  ao_data_pages :: u32
  ao_device_size :: u64
  ao_dev_features :: u64
  ao_num_queues :: u32
  ao_io_timeout :: u32

definition zero_device :: ubbd_device where
  "zero_device = \<lparr>dev_id = 0, dv_major = 0, dv_minor = 0, disk = None, dv_name = [], tag_set = None,
     dentries = \<lparr>dev_debugfs_d = None, dev_debugfs_queues_d = None, dev_debugfs_qs = []\<rparr>,
     open_count = 0, num_queues = 0, queues = [], dev_size = 0, dev_features = 0, io_timeout = 0,
     dv_status = UBBD_DEV_KSTATUS_INIT, status_flags = 0, kref = 0\<rparr>"

text \<open>\<open>__ubbd_dev_create\<close> and \<open>__ubbd_dev_free\<close>.\<close>

definition dev_create0 :: "ubbd_sys \<Rightarrow> ubbd_device option \<times> ubbd_sys" where
  "dev_create0 s = (let (ok, s1) = alloc_res R_device s in
     if \<not> ok then (None, s1) else (Some (zero_device\<lparr>dv_status := UBBD_DEV_KSTATUS_INIT, kref := 1\<rparr>), s1))"

definition dev_free0 :: "ubbd_sys \<Rightarrow> ubbd_sys option" where
  "dev_free0 s = free_res R_device s"

text \<open>\<open>ida_alloc_range\<close> over the ids of the minors of one major: the lowest free id.\<close>

definition ida_find :: "nat set \<Rightarrow> nat option" where
  "ida_find ids = find (\<lambda>i. i \<notin> ids) [0..<nat (minor_to_ubbd_dev_id (2 ^ 20))]"

definition ida_alloc :: "ubbd_sys \<Rightarrow> nat option \<times> ubbd_sys" where
  "ida_alloc s = (let (ret, s1) = take_ret s in
     if ret \<noteq> 0 then (None, s1)
     else case ida_find (ubbd_dev_id_ida s1) of
            None \<Rightarrow> (None, s1)
          | Some i \<Rightarrow> (Some i, s1\<lparr>ubbd_dev_id_ida := insert i (ubbd_dev_id_ida s1)\<rparr>))"

definition ida_free :: "nat \<Rightarrow> ubbd_sys \<Rightarrow> ubbd_sys" where
  "ida_free i s = s\<lparr>ubbd_dev_id_ida := ubbd_dev_id_ida s - {i}\<rparr>"

definition module_add :: "ubbd_sys \<Rightarrow> ubbd_sys" where
  "module_add s = s\<lparr>kring := (kring s)\<lparr>module_refs := module_refs (kring s) + 1\<rparr>\<rparr>"

definition module_put :: "ubbd_sys \<Rightarrow> ubbd_sys" where
  "module_put s = s\<lparr>kring := (kring s)\<lparr>module_refs := module_refs (kring s) - 1\<rparr>\<rparr>"

definition ubbd_dev_create ::
  "ubbd_const \<Rightarrow> (nat \<Rightarrow> ubbd_request) \<Rightarrow> ubbd_dev_add_opts \<Rightarrow> ubbd_sys \<Rightarrow> (ubbd_device option \<times> ubbd_sys) option" where
  "ubbd_dev_create C pd opts s =
     (case dev_create0 s of
        (None, s1) \<Rightarrow> Some (None, s1)
      | (Some d, s1) \<Rightarrow>
          (case ida_alloc s1 of
             (None, s2) \<Rightarrow> do { s3 \<leftarrow> dev_free0 s2; Some (None, s3) }
           | (Some i, s2) \<Rightarrow> do {
               let d1 = d\<lparr>dev_id := i, dv_name := ''ubbd'' @ dec i\<rparr>;
               (ret, d2, s3) \<leftarrow> ubbd_dev_create_queues C (ao_num_queues opts) (ao_data_pages opts) pd d1 s2;
               if ret \<noteq> 0 then do { s4 \<leftarrow> dev_free0 (ida_free i s3); Some (None, s4) }
               else do {
                 let (ok, s4) = alloc_res R_task_wq s3;
                 if \<not> ok
                 then do { s5 \<leftarrow> ubbd_dev_destroy_queues d2 s4; s6 \<leftarrow> dev_free0 (ida_free i s5); Some (None, s6) }
                 else do {
                   let s5 = module_add s4;
                   let (dd, fs) = ubbd_debugfs_add_dev (uc_request_stats C) (dv_name d2) (unat (num_queues d2)) (dfs s5);
                   Some (Some (d2\<lparr>dentries := dd\<rparr>), s5\<lparr>dfs := fs\<rparr>)
                 }
               }
             }))"

definition ubbd_dev_destroy :: "ubbd_device \<Rightarrow> ubbd_sys \<Rightarrow> ubbd_sys option" where
  "ubbd_dev_destroy d s = do {
     let (dd, fs) = ubbd_debugfs_remove_dev (dentries d) (dfs s);
     s1 \<leftarrow> free_res R_task_wq (s\<lparr>dfs := fs\<rparr>);
     s2 \<leftarrow> ubbd_dev_destroy_queues d s1;
     s3 \<leftarrow> dev_free0 (ida_free (dev_id d) s2);
     Some (module_put s3)
   }"

section \<open>References\<close>

text \<open>A device is named by its key in \<open>devices\<close>; a destroyed device has none.\<close>

definition upd_dev :: "nat \<Rightarrow> (ubbd_device \<Rightarrow> ubbd_device) \<Rightarrow> ubbd_sys \<Rightarrow> ubbd_sys option" where
  "upd_dev key f s = do { d \<leftarrow> devices s key; Some (s\<lparr>devices := (devices s)(key \<mapsto> f d)\<rparr>) }"

definition ubbd_dev_get :: "nat \<Rightarrow> ubbd_sys \<Rightarrow> ubbd_sys option" where
  "ubbd_dev_get key s = upd_dev key (\<lambda>d. d\<lparr>kref := kref d + 1\<rparr>) s"

definition ubbd_dev_get_unless_zero :: "nat \<Rightarrow> ubbd_sys \<Rightarrow> (bool \<times> ubbd_sys) option" where
  "ubbd_dev_get_unless_zero key s = do {
     d \<leftarrow> devices s key;
     if kref d = 0 then Some (False, s) else do { s1 \<leftarrow> ubbd_dev_get key s; Some (True, s1) }
   }"

text \<open>\<open>kref_put\<close> with \<open>__dev_release\<close>.\<close>

definition ubbd_dev_put :: "nat \<Rightarrow> ubbd_sys \<Rightarrow> ubbd_sys option" where
  "ubbd_dev_put key s = do {
     d \<leftarrow> devices s key;
     if kref d = 0 then None
     else if kref d = 1 then ubbd_dev_destroy d (s\<lparr>devices := (devices s)(key := None)\<rparr>)
     else upd_dev key (\<lambda>d. d\<lparr>kref := kref d - 1\<rparr>) s
   }"

text \<open>The block device operations.\<close>

definition ubbd_open :: "nat \<Rightarrow> ubbd_sys \<Rightarrow> (int \<times> ubbd_sys) option" where
  "ubbd_open key s = do {
     s1 \<leftarrow> ubbd_dev_get key s;
     s2 \<leftarrow> upd_dev key (\<lambda>d. d\<lparr>open_count := open_count d + 1\<rparr>) s1;
     Some (0, s2)
   }"

definition ubbd_release :: "nat \<Rightarrow> ubbd_sys \<Rightarrow> ubbd_sys option" where
  "ubbd_release key s = do {
     s1 \<leftarrow> upd_dev key (\<lambda>d. d\<lparr>open_count := open_count d - 1\<rparr>) s;
     ubbd_dev_put key s1
   }"

text \<open>Opening and closing a file of the debugfs directory: \<open>linked\<close> says whether the dentry is
  still positive under a parent with an inode; \<open>single_open\<close> can fail.\<close>

definition ubbd_debugfs_open :: "bool \<Rightarrow> nat \<Rightarrow> ubbd_sys \<Rightarrow> (int \<times> ubbd_sys) option" where
  "ubbd_debugfs_open linked key s = do {
     (got, s1) \<leftarrow> (if linked then ubbd_dev_get_unless_zero key s else Some (False, s));
     if \<not> got then Some (- ESTALE, s1)
     else do {
       let (ret, s2) = take_ret s1;
       if ret \<noteq> 0 then do { s3 \<leftarrow> ubbd_dev_put key s2; Some (ret, s3) } else Some (0, s2)
     }
   }"

definition dev_attr_release :: "nat \<Rightarrow> ubbd_sys \<Rightarrow> ubbd_sys option" where
  "dev_attr_release key s = ubbd_dev_put key s"

text \<open>\<open>ubbd_q_status_show\<close>: the figures it prints.\<close>

definition ubbd_q_status_show :: "dev_queue \<Rightarrow> u32 \<times> u32 \<times> u32" where
  "ubbd_q_status_show q = (data_pages (dq_core q), data_pages_reserved (dq_core q), data_pages_allocated (dq_core q))"

section \<open>The disk\<close>

definition ubbd_init_hctx :: "nat \<Rightarrow> dev_queue list \<Rightarrow> dev_queue list option" where
  "ubbd_init_hctx i qs = (if i < length qs then Some (qs[i := (qs ! i)\<lparr>dq_hctx := Some i\<rparr>]) else None)"

fun init_hctxs :: "nat list \<Rightarrow> dev_queue list \<Rightarrow> dev_queue list option" where
  "init_hctxs [] qs = Some qs"
| "init_hctxs (i # is) qs = do { qs1 \<leftarrow> ubbd_init_hctx i qs; init_hctxs is qs1 }"

fun ubbd_init_queue_cpumask :: "(nat \<Rightarrow> nat) \<Rightarrow> nat list \<Rightarrow> dev_queue list \<Rightarrow> dev_queue list option" where
  "ubbd_init_queue_cpumask mq_map [] qs = Some qs"
| "ubbd_init_queue_cpumask mq_map (cpu # cpus) qs =
     (let i = mq_map cpu in
      if i < length qs
      then ubbd_init_queue_cpumask mq_map cpus
             (qs[i := (qs ! i)\<lparr>dq_cpumask := (if cpu \<in> set (dq_cpumask (qs ! i)) then dq_cpumask (qs ! i)
                                            else dq_cpumask (qs ! i) @ [cpu])\<rparr>])
      else None)"

definition USHRT_MAX :: nat where "USHRT_MAX = 65535"
definition UINT_MAX :: u32 where "UINT_MAX = - 1"
definition UBBD_MAX_DISCARD_SECTORS :: nat where "UBBD_MAX_DISCARD_SECTORS = 8 * 1024"
definition UBBD_MAX_WRITE_ZEROS_SECTORS :: nat where "UBBD_MAX_WRITE_ZEROS_SECTORS = 8 * 1024"

text \<open>The queue limits \<open>ubbd_init_disk\<close> sets, from kernel 6.8 on and before.\<close>

definition init_limits_6_8 :: "queue_limits \<Rightarrow> queue_limits" where
  "init_limits_6_8 l = l\<lparr>lim_rotational := False, max_hw_sectors := 128, max_sectors := 128,
     max_segments := USHRT_MAX, max_segment_size := unat UINT_MAX, io_min := 4096, io_opt := 4096,
     discard_granularity := 0, max_discard_sectors := 0, max_hw_discard_sectors := 0,
     max_write_zeroes_sectors := 0, max_hw_wzeroes_unmap_sectors := 0, max_wzeroes_unmap_sectors := 0\<rparr>"

definition blk_queue_max_discard_sectors :: "nat \<Rightarrow> queue_limits \<Rightarrow> queue_limits" where
  "blk_queue_max_discard_sectors n l = l\<lparr>max_hw_discard_sectors := n, max_discard_sectors := n\<rparr>"

text \<open>The macro \<open>HVAE_FLAG_DISCARD\<close> is defined nowhere, so the discard flag is not cleared.\<close>

definition init_limits_old :: "queue_limits \<Rightarrow> queue_limits" where
  "init_limits_old l =
     (let l1 = l\<lparr>lim_rotational := False, max_hw_sectors := 128\<rparr>;
          l2 = l1\<lparr>max_sectors := max_hw_sectors l1, max_segments := USHRT_MAX, max_segment_size := unat UINT_MAX,
                  io_min := 4096, io_opt := 4096, discard_granularity := 0\<rparr>;
          l3 = blk_queue_max_discard_sectors 0 l2
      in l3\<lparr>max_write_zeroes_sectors := 0\<rparr>)"

definition new_tag_set :: "ubbd_const \<Rightarrow> ubbd_device \<Rightarrow> blk_mq_tag_set" where
  "new_tag_set C d = \<lparr>ts_queue_depth = 128, ts_nr_hw_queues = num_queues d, ts_timeout = io_timeout d * HZ C\<rparr>"

definition new_disk :: "ubbd_const \<Rightarrow> ubbd_device \<Rightarrow> queue_limits \<Rightarrow> gendisk" where
  "new_disk C d l = \<lparr>gd_name = ''ubbd'' @ dec (dev_id d), gd_major = dv_major d, gd_first_minor = dv_minor d,
     gd_minors = 2 ^ 4, gd_capacity = 0, gd_ro = False,
     gd_lim = (if uc_kernel_6_8 C then init_limits_6_8 l else init_limits_old l),
     gd_rq_timeout = io_timeout d * HZ C, gd_added = False\<rparr>"

text \<open>
  What both variants of \<open>ubbd_init_disk\<close> do once blk-mq has made the queue: blk-mq has called
  \<open>ubbd_init_hctx\<close> for every hardware queue, then the CPU masks and the disk are filled in.
\<close>

definition disk_ready :: "ubbd_const \<Rightarrow> ubbd_device \<Rightarrow> ubbd_sys \<Rightarrow> ubbd_device option" where
  "disk_ready C d s = do {
     qs1 \<leftarrow> init_hctxs [0..<unat (num_queues d)] (queues d);
     qs2 \<leftarrow> ubbd_init_queue_cpumask (uc_mq_map C) (uc_cpus C) qs1;
     Some (d\<lparr>queues := qs2, disk := Some (new_disk C d (def_limits s))\<rparr>)
   }"

definition init_disk_alloc :: "ubbd_const \<Rightarrow> ubbd_device \<Rightarrow> ubbd_sys \<Rightarrow> (int \<times> ubbd_device \<times> ubbd_sys) option" where
  "init_disk_alloc C d s = do {
     let (ok, s1) = alloc_res R_disk s;
     if \<not> ok then Some (- ENOMEM, d, s1)
     else do {
       let (err, s2) = take_ret s1;
       if err \<noteq> 0 then do { s3 \<leftarrow> free_res R_disk s2; Some (err, d, s3) }
       else do {
         let d1 = d\<lparr>tag_set := Some (new_tag_set C d)\<rparr>;
         let (err, s4) = take_ret (got_res R_tag_set s2);
         if err \<noteq> 0
         then do { s5 \<leftarrow> free_res R_tag_set s4; s6 \<leftarrow> free_res R_disk s5; Some (err, d1\<lparr>tag_set := None\<rparr>, s6) }
         else do { d2 \<leftarrow> disk_ready C d1 s4; Some (0, d2, s4) }
       }
     }
   }"

definition init_disk_mq :: "ubbd_const \<Rightarrow> ubbd_device \<Rightarrow> ubbd_sys \<Rightarrow> (int \<times> ubbd_device \<times> ubbd_sys) option" where
  "init_disk_mq C d s = do {
     let (err, s1) = take_ret s;
     if err \<noteq> 0 then Some (err, d, s1)
     else do {
       let d1 = d\<lparr>tag_set := Some (new_tag_set C d)\<rparr>;
       let (err, s2) = take_ret (got_res R_tag_set s1);
       if err \<noteq> 0 then do { s3 \<leftarrow> free_res R_tag_set s2; Some (err, d1\<lparr>tag_set := None\<rparr>, s3) }
       else do { d2 \<leftarrow> disk_ready C d1 s2; Some (0, d2, got_res R_disk s2) }
     }
   }"

definition ubbd_init_disk :: "ubbd_const \<Rightarrow> ubbd_device \<Rightarrow> ubbd_sys \<Rightarrow> (int \<times> ubbd_device \<times> ubbd_sys) option" where
  "ubbd_init_disk C d s = (if HAVE_ALLOC_DISK C then init_disk_alloc C d s else init_disk_mq C d s)"

text \<open>Both variants of \<open>ubbd_free_disk\<close> give back the disk and the tag set.\<close>

definition ubbd_free_disk :: "nat \<Rightarrow> ubbd_sys \<Rightarrow> ubbd_sys option" where
  "ubbd_free_disk key s = do {
     d \<leftarrow> devices s key;
     gd \<leftarrow> disk d;
     s1 \<leftarrow> free_res R_disk s;
     s2 \<leftarrow> free_res R_tag_set s1;
     upd_dev key (\<lambda>d. d\<lparr>disk := None, tag_set := None\<rparr>) s2
   }"

text \<open>The limits \<open>ubbd_dev_device_setup\<close> sets by the features asked for.\<close>

definition feature :: "u64 \<Rightarrow> ubbd_device \<Rightarrow> bool" where
  "feature m d \<longleftrightarrow> dev_features d AND m \<noteq> 0"

definition setup_limits_6_8 :: "ubbd_const \<Rightarrow> ubbd_device \<Rightarrow> queue_limits \<Rightarrow> queue_limits" where
  "setup_limits_6_8 C d l =
     (let l1 = l\<lparr>lim_rotational := False\<rparr>;
          l2 = (if feature (UBBD_ATTR_FLAGS_ADD_WRITECACHE C) d
                then l1\<lparr>lim_write_cache := True, lim_fua := feature (UBBD_ATTR_FLAGS_ADD_FUA C) d\<rparr>
                else l1\<lparr>lim_write_cache := False, lim_fua := False\<rparr>);
          l3 = (if feature (UBBD_ATTR_FLAGS_ADD_DISCARD C) d
                then l2\<lparr>discard_granularity := 4096, max_hw_discard_sectors := UBBD_MAX_DISCARD_SECTORS,
                       max_discard_sectors := UBBD_MAX_DISCARD_SECTORS,
                       max_user_discard_sectors := UBBD_MAX_DISCARD_SECTORS, max_discard_segments := 1\<rparr>
                else l2\<lparr>discard_granularity := 0, max_hw_discard_sectors := 0, max_discard_sectors := 0,
                       max_user_discard_sectors := 0, max_discard_segments := 0\<rparr>)
      in if feature (UBBD_ATTR_FLAGS_ADD_WRITE_ZEROS C) d
         then l3\<lparr>max_write_zeroes_sectors := UBBD_MAX_WRITE_ZEROS_SECTORS,
                max_hw_wzeroes_unmap_sectors := UBBD_MAX_WRITE_ZEROS_SECTORS,
                max_wzeroes_unmap_sectors := UBBD_MAX_WRITE_ZEROS_SECTORS\<rparr>
         else l3\<lparr>max_write_zeroes_sectors := 0, max_hw_wzeroes_unmap_sectors := 0, max_wzeroes_unmap_sectors := 0\<rparr>)"

definition blk_queue_write_cache :: "bool \<Rightarrow> bool \<Rightarrow> queue_limits \<Rightarrow> queue_limits" where
  "blk_queue_write_cache wc fua l = l\<lparr>lim_write_cache := wc, lim_fua := fua\<rparr>"

definition setup_limits_old :: "ubbd_const \<Rightarrow> ubbd_device \<Rightarrow> queue_limits \<Rightarrow> queue_limits" where
  "setup_limits_old C d l =
     (let l1 = (if feature (UBBD_ATTR_FLAGS_ADD_WRITECACHE C) d
                then (if feature (UBBD_ATTR_FLAGS_ADD_FUA C) d then blk_queue_write_cache True True l
                      else blk_queue_write_cache True False l)
                else blk_queue_write_cache False False l);
          l2 = (if feature (UBBD_ATTR_FLAGS_ADD_DISCARD C) d
                then blk_queue_max_discard_sectors UBBD_MAX_DISCARD_SECTORS
                       (l1\<lparr>lim_flag_discard := lim_flag_discard l1 \<or> HAVE_FLAG_DISCARD C, discard_granularity := 4096\<rparr>)
                else l1)
      in if feature (UBBD_ATTR_FLAGS_ADD_WRITE_ZEROS C) d
         then l2\<lparr>max_write_zeroes_sectors := UBBD_MAX_WRITE_ZEROS_SECTORS\<rparr> else l2)"

definition upd_disk :: "(gendisk \<Rightarrow> gendisk) \<Rightarrow> ubbd_device \<Rightarrow> ubbd_device option" where
  "upd_disk f d = do { gd \<leftarrow> disk d; Some (d\<lparr>disk := Some (f gd)\<rparr>) }"

definition ubbd_dev_device_setup :: "ubbd_const \<Rightarrow> ubbd_device \<Rightarrow> ubbd_sys \<Rightarrow> (int \<times> ubbd_device \<times> ubbd_sys) option" where
  "ubbd_dev_device_setup C d s = do {
     let d1 = d\<lparr>dv_major := ubbd_major s, dv_minor := ubbd_dev_id_to_minor (int (dev_id d))\<rparr>;
     (ret, d2, s1) \<leftarrow> ubbd_init_disk C d1 s;
     if ret \<noteq> 0 then Some (ret, d2, s1)
     else do {
       d3 \<leftarrow> upd_disk (\<lambda>gd. gd\<lparr>gd_capacity := dev_size d2 div 512,
               gd_ro := feature (UBBD_ATTR_FLAGS_ADD_READONLY C) d2\<rparr>) d2;
       if uc_kernel_6_8 C
       then do {
         let (ret, s2) = take_ret s1;
         d4 \<leftarrow> (if ret \<noteq> 0 then Some d3 else upd_disk (\<lambda>gd. gd\<lparr>gd_lim := setup_limits_6_8 C d2 (gd_lim gd)\<rparr>) d3);
         Some (ret, d4, s2)
       }
       else do {
         d4 \<leftarrow> upd_disk (\<lambda>gd. gd\<lparr>gd_lim := setup_limits_old C d2 (gd_lim gd)\<rparr>) d3;
         Some (0, d4, s1)
       }
     }
   }"

section \<open>The life of a device\<close>

text \<open>\<open>ubbd_dev_add_dev\<close>; the second result is the new device, \<open>None\<close> the error pointer.\<close>

definition ubbd_dev_add_dev ::
  "ubbd_const \<Rightarrow> (nat \<Rightarrow> ubbd_request) \<Rightarrow> ubbd_dev_add_opts \<Rightarrow> ubbd_sys \<Rightarrow> (int \<times> nat option \<times> ubbd_sys) option" where
  "ubbd_dev_add_dev C pd opts s = do {
     (dev, s1) \<leftarrow> ubbd_dev_create C pd opts s;
     case dev of
       None \<Rightarrow> Some (- ENOMEM, None, s1)
     | Some d \<Rightarrow> do {
         let d1 = d\<lparr>dev_size := ao_device_size opts, dev_features := ao_dev_features opts, io_timeout := ao_io_timeout opts\<rparr>;
         let key = dev_next s1;
         (ret, d2, s2) \<leftarrow> ubbd_dev_device_setup C d1 (s1\<lparr>dev_next := key + 1\<rparr>);
         let s3 = s2\<lparr>devices := (devices s2)(key \<mapsto> d2)\<rparr>;
         if ret \<noteq> 0 then do { s4 \<leftarrow> ubbd_dev_put key s3; Some (- EINVAL, None, s4) }
         else do {
           s4 \<leftarrow> upd_dev key (\<lambda>d. d\<lparr>dv_status := UBBD_DEV_KSTATUS_PREPARED\<rparr>) s3;
           Some (0, Some key, s4\<lparr>ubbd_total_devs := ubbd_total_devs s4 + 1, ubbd_dev_list := ubbd_dev_list s4 @ [key]\<rparr>)
         }
       }
   }"

text \<open>
  \<open>ubbd_dev_add_disk\<close> queues the work. Initialising a work item that is still queued corrupts
  the work queue.
\<close>

definition ubbd_dev_add_disk :: "nat \<Rightarrow> ubbd_sys \<Rightarrow> (int \<times> ubbd_sys) option" where
  "ubbd_dev_add_disk key s = do {
     d \<leftarrow> devices s key;
     if dv_status d \<noteq> UBBD_DEV_KSTATUS_PREPARED then Some (- EINVAL, s)
     else do {
       s1 \<leftarrow> ubbd_dev_get key s;
       if key \<in> set (ubbd_wq s1) then None else Some (0, s1\<lparr>ubbd_wq := ubbd_wq s1 @ [key]\<rparr>)
     }
   }"

definition UBBD_DEV_OP_TIMEOUT_DEFAULT :: u32 where "UBBD_DEV_OP_TIMEOUT_DEFAULT = UINT_MAX"

text \<open>\<open>ubbd_add_disk\<close>: only the newer \<open>add_disk\<close> can fail.\<close>

definition ubbd_add_disk :: "ubbd_const \<Rightarrow> nat \<Rightarrow> ubbd_sys \<Rightarrow> (int \<times> ubbd_sys) option" where
  "ubbd_add_disk C key s = do {
     d \<leftarrow> devices s key;
     gd \<leftarrow> disk d;
     let (ret, s1) = (if HAVE_ALLOC_DISK C then (0, s) else take_ret s);
     if ret \<noteq> 0 then Some (ret, s1)
     else Some (0, s1\<lparr>devices := (devices s1)(key \<mapsto> d\<lparr>disk := Some (gd\<lparr>gd_added := True\<rparr>)\<rparr>)\<rparr>)
   }"

text \<open>The work item in its three sections: the check under \<open>state_lock\<close>, adding the disk while
  the device is marked as in transition, and the section at \<open>out\<close>.\<close>

definition add_disk_begin :: "ubbd_const \<Rightarrow> nat \<Rightarrow> ubbd_sys \<Rightarrow> (bool \<times> ubbd_sys) option" where
  "add_disk_begin C key s = do {
     d \<leftarrow> devices s key;
     ubbd_dev_state_get_lock C d;
     if dv_status d \<noteq> UBBD_DEV_KSTATUS_PREPARED then Some (False, s)
     else Some (True, s\<lparr>devices := (devices s)(key \<mapsto> ubbd_dev_status_flags_set C d UBBD_DEV_STATUS_FLAG_INTRANS)\<rparr>)
   }"

definition set_rq_timeout :: "u32 \<Rightarrow> nat \<Rightarrow> ubbd_sys \<Rightarrow> ubbd_sys option" where
  "set_rq_timeout t key s = do {
     d \<leftarrow> devices s key;
     d1 \<leftarrow> upd_disk (\<lambda>gd. gd\<lparr>gd_rq_timeout := t\<rparr>) d;
     Some (s\<lparr>devices := (devices s)(key \<mapsto> d1)\<rparr>)
   }"

definition add_disk_work :: "ubbd_const \<Rightarrow> nat \<Rightarrow> ubbd_sys \<Rightarrow> (bool \<times> ubbd_sys) option" where
  "add_disk_work C key s = do {
     s1 \<leftarrow> set_rq_timeout UBBD_DEV_OP_TIMEOUT_DEFAULT key s;
     (ret, s2) \<leftarrow> ubbd_add_disk C key s1;
     if ret \<noteq> 0 then Some (False, s2)
     else do {
       d \<leftarrow> devices s2 key;
       s3 \<leftarrow> set_rq_timeout (io_timeout d * HZ C) key s2;
       Some (True, s3)
     }
   }"

definition add_disk_finish :: "ubbd_const \<Rightarrow> nat \<Rightarrow> bool \<Rightarrow> ubbd_sys \<Rightarrow> ubbd_sys option" where
  "add_disk_finish C key disk_running s = do {
     s1 \<leftarrow> upd_dev key (\<lambda>d. let d1 = ubbd_dev_status_flags_clear C d UBBD_DEV_STATUS_FLAG_INTRANS in
             if disk_running then d1\<lparr>dv_status := UBBD_DEV_KSTATUS_RUNNING\<rparr> else d1) s;
     ubbd_dev_put key s1
   }"

definition ubbd_add_disk_fn :: "ubbd_const \<Rightarrow> nat \<Rightarrow> ubbd_sys \<Rightarrow> ubbd_sys option" where
  "ubbd_add_disk_fn C key s = do {
     let s0 = s\<lparr>ubbd_wq := remove1 key (ubbd_wq s)\<rparr>;
     (go, s1) \<leftarrow> add_disk_begin C key s0;
     (running, s2) \<leftarrow> (if go then add_disk_work C key s1 else Some (False, s1));
     add_disk_finish C key running s2
   }"

definition ubbd_dev_remove_dev :: "ubbd_const \<Rightarrow> nat \<Rightarrow> ubbd_sys \<Rightarrow> (int \<times> ubbd_sys) option" where
  "ubbd_dev_remove_dev C key s = do {
     d \<leftarrow> devices s key;
     ubbd_dev_state_get_lock C d;
     if dv_status d \<noteq> UBBD_DEV_KSTATUS_REMOVING \<and> dv_status d \<noteq> UBBD_DEV_KSTATUS_PREPARED then Some (- EINVAL, s)
     else do {
       s1 \<leftarrow> ubbd_free_disk key
               (s\<lparr>ubbd_total_devs := ubbd_total_devs s - 1, ubbd_dev_list := remove1 key (ubbd_dev_list s)\<rparr>);
       s2 \<leftarrow> ubbd_dev_put key s1;
       Some (0, s2)
     }
   }"

record ubbd_dev_config_opts =
  co_flags :: u32
  co_dp_reserve_percnt :: u32
  co_dev_size :: u64

definition UBBD_DEV_CONFIG_FLAG_DP_RESERVE :: u32 where "UBBD_DEV_CONFIG_FLAG_DP_RESERVE = push_bit 0 1"
definition UBBD_DEV_CONFIG_FLAG_DEV_SIZE :: u32 where "UBBD_DEV_CONFIG_FLAG_DEV_SIZE = push_bit 1 1"

definition set_reserve :: "u32 \<Rightarrow> dev_queue \<Rightarrow> dev_queue" where
  "set_reserve p q = q\<lparr>dq_core := (dq_core q)\<lparr>data_pages_reserved := p * data_pages (dq_core q) div 100\<rparr>\<rparr>"

definition ubbd_dev_config :: "ubbd_dev_config_opts \<Rightarrow> ubbd_device \<Rightarrow> (int \<times> ubbd_device) option" where
  "ubbd_dev_config opts d =
     (if dv_status d \<noteq> UBBD_DEV_KSTATUS_RUNNING then Some (- EINVAL, d)
      else if co_flags opts AND UBBD_DEV_CONFIG_FLAG_DP_RESERVE \<noteq> 0 \<and> co_dp_reserve_percnt opts > 100 then Some (- EINVAL, d)
      else do {
        let d1 = (if co_flags opts AND UBBD_DEV_CONFIG_FLAG_DP_RESERVE \<noteq> 0
                  then d\<lparr>queues := map (set_reserve (co_dp_reserve_percnt opts)) (queues d)\<rparr> else d);
        d2 \<leftarrow> (if co_flags opts AND UBBD_DEV_CONFIG_FLAG_DEV_SIZE \<noteq> 0
               then upd_disk (\<lambda>gd. gd\<lparr>gd_capacity := co_dev_size opts div 512\<rparr>) d1 else Some d1);
        Some (0, d2)
      })"

section \<open>Stopping, starting and removing queues\<close>

definition find_running_queue :: "dev_queue list \<Rightarrow> nat option" where
  "find_running_queue qs = find (\<lambda>i. q_status (dq_core (qs ! i)) = UBBD_QUEUE_KSTATUS_RUNNING) [0..<length qs]"

text \<open>\<open>flush_workqueue(task_wq)\<close>: the queued work items of all queues run to their end, those of
  one queue in the order they were queued.\<close>

fun flush_loop :: "ubbd_h \<Rightarrow> nat list \<Rightarrow> ubbd_queue \<Rightarrow> kmem \<Rightarrow> (ubbd_queue \<times> kmem) option" where
  "flush_loop H [] q km = Some (q, km)"
| "flush_loop H (tag # tags) q km = do { (q1, km1) \<leftarrow> ubbd_queue_workfn H tag q km; flush_loop H tags q1 km1 }"

fun flush_workqueue :: "ubbd_h \<Rightarrow> dev_queue list \<Rightarrow> kmem \<Rightarrow> (dev_queue list \<times> kmem) option" where
  "flush_workqueue H [] km = Some ([], km)"
| "flush_workqueue H (q # qs) km = do {
     (c, km1) \<leftarrow> flush_loop H (task_wq (dq_core q)) ((dq_core q)\<lparr>task_wq := []\<rparr>) km;
     (qs1, km2) \<leftarrow> flush_workqueue H qs km1;
     Some (q\<lparr>dq_core := c\<rparr> # qs1, km2)
   }"

definition set_q_status :: "queue_status \<Rightarrow> dev_queue \<Rightarrow> dev_queue" where
  "set_q_status st q = q\<lparr>dq_core := (dq_core q)\<lparr>q_status := st\<rparr>\<rparr>"

definition queue_stop :: "ubbd_h \<Rightarrow> nat \<Rightarrow> dev_queue list \<Rightarrow> kmem \<Rightarrow> (int \<times> dev_queue list \<times> kmem) option" where
  "queue_stop H i qs km =
     (let status = q_status (dq_core (qs ! i)) in
      if status = UBBD_QUEUE_KSTATUS_STOPPING \<or> status = UBBD_QUEUE_KSTATUS_STOPPED then Some (0, qs, km)
      else if status \<noteq> UBBD_QUEUE_KSTATUS_RUNNING then Some (- EINVAL, qs, km)
      else do {
        let q1 = (case dq_hctx (qs ! i) of
                    None \<Rightarrow> qs ! i
                  | Some _ \<Rightarrow> (case find_running_queue qs of
                                 None \<Rightarrow> qs ! i
                               | Some r \<Rightarrow> (qs ! i)\<lparr>dq_hctx := Some r\<rparr>));
        (qs1, km1) \<leftarrow> flush_workqueue H (qs[i := set_q_status UBBD_QUEUE_KSTATUS_STOPPING q1]) km;
        Some (0, if inflight_reqs (dq_core (qs1 ! i)) = []
                 then qs1[i := set_q_status UBBD_QUEUE_KSTATUS_STOPPED (qs1 ! i)] else qs1, km1)
      })"

text \<open>\<open>queue_id\<close> is an \<open>int\<close> compared with the unsigned number of queues.\<close>

definition ubbd_dev_stop_queue :: "ubbd_h \<Rightarrow> int \<Rightarrow> ubbd_device \<Rightarrow> kmem \<Rightarrow> (int \<times> ubbd_device \<times> kmem) option" where
  "ubbd_dev_stop_queue H queue_id d km =
     (if dv_status d \<noteq> UBBD_DEV_KSTATUS_RUNNING then Some (- EINVAL, d, km)
      else if word_of_int queue_id \<ge> num_queues d then Some (- EINVAL, d, km)
      else do {
        (ret, qs, km1) \<leftarrow> queue_stop H (nat queue_id) (queues d) km;
        Some (ret, d\<lparr>queues := qs\<rparr>, km1)
      })"

definition queue_start :: "nat \<Rightarrow> dev_queue list \<Rightarrow> int \<times> dev_queue list" where
  "queue_start i qs =
     (let status = q_status (dq_core (qs ! i)) in
      if status = UBBD_QUEUE_KSTATUS_RUNNING then (0, qs)
      else if status = UBBD_QUEUE_KSTATUS_REMOVING then (- EINVAL, qs)
      else
        let q1 = set_q_status UBBD_QUEUE_KSTATUS_RUNNING (qs ! i) in
        (0, qs[i := (if dq_hctx q1 \<noteq> None then q1\<lparr>dq_hctx := Some i\<rparr> else q1)]))"

definition ubbd_dev_start_queue :: "int \<Rightarrow> ubbd_device \<Rightarrow> int \<times> ubbd_device" where
  "ubbd_dev_start_queue queue_id d =
     (if dv_status d \<noteq> UBBD_DEV_KSTATUS_RUNNING then (- EINVAL, d)
      else if word_of_int queue_id \<ge> num_queues d then (- EINVAL, d)
      else let (ret, qs) = queue_start (nat queue_id) (queues d) in (ret, d\<lparr>queues := qs\<rparr>))"

fun remove_queues_loop :: "ubbd_h \<Rightarrow> bool \<Rightarrow> nat list \<Rightarrow> dev_queue list \<Rightarrow> kmem \<Rightarrow> (dev_queue list \<times> kmem) option" where
  "remove_queues_loop H force [] qs km = Some (qs, km)"
| "remove_queues_loop H force (i # is) qs km = do {
     (qs1, km1) \<leftarrow> flush_workqueue H (qs[i := set_q_status UBBD_QUEUE_KSTATUS_REMOVING (qs ! i)]) km;
     (c, km2) \<leftarrow> (if force then ubbd_queue_end_inflight_reqs H (- EIO) (dq_core (qs1 ! i)) km1
                  else Some (dq_core (qs1 ! i), km1));
     remove_queues_loop H force is (qs1[i := (qs1 ! i)\<lparr>dq_core := c\<rparr>]) km2
   }"

definition ubbd_dev_remove_queues :: "ubbd_h \<Rightarrow> bool \<Rightarrow> ubbd_device \<Rightarrow> kmem \<Rightarrow> (ubbd_device \<times> kmem) option" where
  "ubbd_dev_remove_queues H force d km = do {
     (qs, km1) \<leftarrow> remove_queues_loop H force [0..<length (queues d)] (queues d) km;
     Some (d\<lparr>queues := qs\<rparr>, km1)
   }"

definition ubbd_dev_remove_disk :: "ubbd_const \<Rightarrow> bool \<Rightarrow> ubbd_device \<Rightarrow> kmem \<Rightarrow> (ubbd_device \<times> kmem) option" where
  "ubbd_dev_remove_disk C force d km = do {
     (d1, km1) \<leftarrow> ubbd_dev_remove_queues (uc_h C) force d km;
     ubbd_dev_state_get_lock C d1;
     let d2 = d1\<lparr>dv_status := UBBD_DEV_KSTATUS_REMOVING\<rparr>;
     if dv_status d1 = UBBD_DEV_KSTATUS_RUNNING
     then do { d3 \<leftarrow> upd_disk (\<lambda>gd. gd\<lparr>gd_added := False\<rparr>) d2; Some (d3, km1) }
     else Some (d2, km1)
   }"

datatype blk_eh_timer_return = BLK_EH_DONE | BLK_EH_RESET_TIMER

text \<open>\<open>__timeout\<close>, which \<open>ubbd_timeout\<close> calls.\<close>

definition ubbd_timeout ::
  "ubbd_const \<Rightarrow> request \<Rightarrow> ubbd_device \<Rightarrow> kmem \<Rightarrow> (blk_eh_timer_return \<times> ubbd_device \<times> kmem) option" where
  "ubbd_timeout C req d km =
     (if rq_timeout req = UINT_MAX then Some (BLK_EH_RESET_TIMER, d, km)
      else do { (d1, km1) \<leftarrow> ubbd_dev_remove_disk C True d km; Some (BLK_EH_DONE, d1, km1) })"

fun end_queues_loop :: "ubbd_h \<Rightarrow> int \<Rightarrow> dev_queue list \<Rightarrow> kmem \<Rightarrow> (dev_queue list \<times> kmem) option" where
  "end_queues_loop H ret [] km = Some ([], km)"
| "end_queues_loop H ret (q # qs) km = do {
     (c, km1) \<leftarrow> ubbd_queue_end_inflight_reqs H ret (dq_core q) km;
     (qs1, km2) \<leftarrow> end_queues_loop H ret qs km1;
     Some (q\<lparr>dq_core := c\<rparr> # qs1, km2)
   }"

definition ubbd_end_inflight_reqs :: "ubbd_h \<Rightarrow> int \<Rightarrow> ubbd_device \<Rightarrow> kmem \<Rightarrow> (ubbd_device \<times> kmem) option" where
  "ubbd_end_inflight_reqs H ret d km = do { (qs, km1) \<leftarrow> end_queues_loop H ret (queues d) km; Some (d\<lparr>queues := qs\<rparr>, km1) }"

end
