(* ===== verification/Device_Life.thy ===== *)
theory Device_Life
  imports Device
begin

text \<open>
  Making and unmaking devices: every step of \<open>ubbd_dev_create\<close> that fails gives back what the
  steps before it took, and \<open>ubbd_dev_destroy\<close> gives back what a device holds.
\<close>

section \<open>Holding and giving back\<close>

text \<open>
  The contract between a provider of objects and a client that holds some: an object among
  those held can be given back, in any order, and the others stay held.
\<close>

fun give_all :: "('k \<Rightarrow> 's \<Rightarrow> 's option) \<Rightarrow> 'k list \<Rightarrow> 's \<Rightarrow> 's option" where
  "give_all give [] s = Some s"
| "give_all give (k # ks) s = do { s1 \<leftarrow> give k s; give_all give ks s1 }"

locale holdings =
  fixes give :: "'k \<Rightarrow> 's \<Rightarrow> 's option"
    and holds :: "'k list \<Rightarrow> 's \<Rightarrow> bool"
  assumes give_ok: "holds (xs @ k # ys) s \<Longrightarrow> \<exists>s'. give k s = Some s' \<and> holds (xs @ ys) s'"
begin

lemma give_one: "holds (k # ks) s \<Longrightarrow> \<exists>s'. give k s = Some s' \<and> holds ks s'"
  using give_ok [of "[]" k ks s] by simp

lemma give_all_ok: "holds (ks @ xs) s \<Longrightarrow> \<exists>s'. give_all give ks s = Some s' \<and> holds xs s'"
proof (induction ks arbitrary: s)
  case (Cons k ks)
  then obtain s1 where "give k s = Some s1" "holds (ks @ xs) s1" using give_one [of k "ks @ xs" s] by auto
  then show ?case using Cons.IH by auto
qed simp

end

section \<open>Registered kring devices\<close>

text \<open>\<open>kheld K k0 k\<close>: the registry \<open>k\<close> is \<open>k0\<close> with the devices \<open>K\<close> registered on top, each
  under a minor that was free, and opened by nobody.\<close>

definition krest :: "kring_sys \<Rightarrow> bool \<times> nat \<times> bool \<times> bool \<times> nat" where
  "krest k = (chrdev_region k, cdev_live k, class_reg k, class_registered k, module_refs k)"

definition kheld :: "kring_sys \<Rightarrow> nat list \<Rightarrow> kring_sys \<Rightarrow> bool" where
  "kheld k0 K k \<longleftrightarrow> distinct K \<and> krest k = krest k0 \<and>
     (\<forall>key. next_key k \<le> key \<longrightarrow> devs k key = None \<and> devs k0 key = None) \<and>
     (\<exists>mi. inj_on mi (set K) \<and>
        (\<forall>key \<in> set K. devs k0 key = None \<and> idr k0 (mi key) = None \<and> idr k (mi key) = Some key \<and>
           devs k key = Some \<lparr>kd_minor = mi key, kd_event = 0, kd_info = True, kd_ref = 1\<rparr>) \<and>
        (\<forall>key. key \<notin> set K \<longrightarrow> devs k key = devs k0 key) \<and>
        (\<forall>i. i \<notin> mi ` set K \<longrightarrow> idr k i = idr k0 i))"

lemma kheld_Nil: "kheld k0 [] k \<Longrightarrow> k = k0\<lparr>next_key := next_key k\<rparr>"
  by (rule kring_sys.equality) (auto simp: kheld_def krest_def)

lemma kheld_refl: "registry_ok k \<Longrightarrow> kheld k [] k"
  by (simp add: kheld_def registry_ok_def)

interpretation kr: holdings "\<lambda>key. ubbd_kring_unregister_device (Some key)" "kheld k0" for k0
proof (unfold_locales, goal_cases)
  case (1 xs key ys k)
  then obtain mi where d: "distinct (xs @ key # ys)" and k: "krest k = krest k0"
    and n: "\<forall>key. next_key k \<le> key \<longrightarrow> devs k key = None \<and> devs k0 key = None"
    and mi: "inj_on mi (set (xs @ key # ys))"
    and h: "\<forall>key \<in> set (xs @ key # ys). devs k0 key = None \<and> idr k0 (mi key) = None \<and> idr k (mi key) = Some key \<and>
           devs k key = Some \<lparr>kd_minor = mi key, kd_event = 0, kd_info = True, kd_ref = 1\<rparr>"
    and o: "\<forall>x. x \<notin> set (xs @ key # ys) \<longrightarrow> devs k x = devs k0 x" "\<forall>i. i \<notin> mi ` set (xs @ key # ys) \<longrightarrow> idr k i = idr k0 i"
    unfolding kheld_def by blast
  define k1 where "k1 = k\<lparr>devs := (devs k)(key := None), idr := (idr k)(mi key := None)\<rparr>"
  have "ubbd_kring_unregister_device (Some key) k = Some k1"
    using h by (simp add: ubbd_kring_unregister_device_def unregister_drop_def put_device_def ubbd_kring_free_minor_def k1_def)
  moreover have "kheld k0 (xs @ ys) k1"
    unfolding kheld_def
  proof (intro conjI exI [of _ mi])
    show "distinct (xs @ ys)" "inj_on mi (set (xs @ ys))" using d mi by (auto simp: inj_on_def)
    show "krest k1 = krest k0" using k by (simp add: k1_def krest_def)
    show "\<forall>x. next_key k1 \<le> x \<longrightarrow> devs k1 x = None \<and> devs k0 x = None" using n by (simp add: k1_def)
    have "mi x \<noteq> mi key" if "x \<in> set (xs @ ys)" for x using that mi d by (auto simp: inj_on_def)
    then show "\<forall>x \<in> set (xs @ ys). devs k0 x = None \<and> idr k0 (mi x) = None \<and> idr k1 (mi x) = Some x \<and>
           devs k1 x = Some \<lparr>kd_minor = mi x, kd_event = 0, kd_info = True, kd_ref = 1\<rparr>"
      using h d by (auto simp: k1_def)
    show "\<forall>x. x \<notin> set (xs @ ys) \<longrightarrow> devs k1 x = devs k0 x" "\<forall>i. i \<notin> mi ` set (xs @ ys) \<longrightarrow> idr k1 i = idr k0 i"
      using h o by (auto simp: k1_def)
  qed
  ultimately show ?case by blast
qed

text \<open>Registering one more, or failing to.\<close>

lemma kheld_register:
  assumes k: "kheld k0 K k"
  shows "\<exists>ret k1 dev. ubbd_kring_register_device args kz im nr ar k = Some (ret, k1, dev) \<and>
    (if ret = 0 then \<exists>key. dev = Some key \<and> kheld k0 (K @ [key]) k1 else dev = None \<and> kheld k0 K k1)"
proof (cases "class_registered k \<and> args \<and> kz \<and> im \<and> idr_alloc_id (idr k) \<noteq> None")
  case False
  have "kheld k0 K (k\<lparr>next_key := Suc (next_key k)\<rparr>)" using k by (auto simp: kheld_def krest_def)
  then show ?thesis
    using False k
    by (auto simp: ubbd_kring_register_device_def ubbd_kring_get_minor_def Let_def split: option.splits)
next
  case True
  then obtain i where i: "idr_alloc_id (idr k) = Some i" by blast
  define k1 where "k1 = k\<lparr>next_key := next_key k + 1, idr := (idr k)(i \<mapsto> next_key k),
    devs := (devs k)(next_key k \<mapsto> \<lparr>kd_minor = i, kd_event = 0, kd_info = True, kd_ref = 1\<rparr>)\<rparr>"
  have free: "idr k i = None" using idr_alloc_id_free [OF i] by blast
  obtain mi where d: "distinct K" "krest k = krest k0"
    and n: "\<forall>key. next_key k \<le> key \<longrightarrow> devs k key = None \<and> devs k0 key = None"
    and mi: "inj_on mi (set K)"
    and h: "\<forall>key \<in> set K. devs k0 key = None \<and> idr k0 (mi key) = None \<and> idr k (mi key) = Some key \<and>
           devs k key = Some \<lparr>kd_minor = mi key, kd_event = 0, kd_info = True, kd_ref = 1\<rparr>"
    and o: "\<forall>x. x \<notin> set K \<longrightarrow> devs k x = devs k0 x" "\<forall>i. i \<notin> mi ` set K \<longrightarrow> idr k i = idr k0 i"
    using k unfolding kheld_def by blast
  have nk: "next_key k \<notin> set K" using h n by force
  have ni: "i \<notin> mi ` set K" using h free by auto
  have held: "kheld k0 (K @ [next_key k]) k1"
    unfolding kheld_def
  proof (intro conjI exI [of _ "mi(next_key k := i)"])
    show "distinct (K @ [next_key k])" "krest k1 = krest k0" using d nk by (auto simp: k1_def krest_def)
    show "\<forall>x. next_key k1 \<le> x \<longrightarrow> devs k1 x = None \<and> devs k0 x = None" using n by (auto simp: k1_def)
    show "inj_on (mi(next_key k := i)) (set (K @ [next_key k]))" using mi nk ni by (auto simp: inj_on_def)
    show "\<forall>x \<in> set (K @ [next_key k]). devs k0 x = None \<and> idr k0 ((mi(next_key k := i)) x) = None \<and>
        idr k1 ((mi(next_key k := i)) x) = Some x \<and>
        devs k1 x = Some \<lparr>kd_minor = (mi(next_key k := i)) x, kd_event = 0, kd_info = True, kd_ref = 1\<rparr>"
      using h n nk ni free o by (auto simp: k1_def)
    show "\<forall>x. x \<notin> set (K @ [next_key k]) \<longrightarrow> devs k1 x = devs k0 x"
      "\<forall>j. j \<notin> (mi(next_key k := i)) ` set (K @ [next_key k]) \<longrightarrow> idr k1 j = idr k0 j"
      using o nk by (auto simp: k1_def)
  qed
  have restored: "kheld k0 K (k1\<lparr>idr := (idr k)(i := None), devs := (devs k)(next_key k := None)\<rparr>)"
  proof -
    have "(idr k)(i := None) = idr k" "(devs k)(next_key k := None) = devs k" using free n by (simp_all add: fun_upd_idem)
    then show ?thesis using k by (auto simp: kheld_def krest_def k1_def)
  qed
  have "ubbd_kring_register_device args kz im nr ar k =
     (let ret = (if nr \<noteq> 0 then nr else ar) in
      if ret = 0 then Some (0, k1, Some (next_key k))
      else Some (ret, k1\<lparr>idr := (idr k)(i := None), devs := (devs k)(next_key k := None)\<rparr>, None))"
    using register_late [OF _ _ _ _ i k1_def refl, of args kz im nr ar] True by (simp add: Let_def)
  then show ?thesis using held restored by (simp add: Let_def)
qed

section \<open>The pages of a queue\<close>

lemma page_release_loop_ok:
  assumes "inj_on (data_pages_array q) (dom (data_pages_array q))" and "dom (data_pages_array q) \<subseteq> set is"
    and "ran (data_pages_array q) \<subseteq> dom (km_pages km)"
  shows "page_release_loop is q km =
    Some (q\<lparr>data_pages_array := Map.empty\<rparr>, km\<lparr>km_pages := km_pages km |` (- ran (data_pages_array q))\<rparr>)"
  using assms
proof (induction "is" arbitrary: q km)
  case Nil
  then show ?case by simp
next
  case (Cons i "is")
  show ?case
  proof (cases "data_pages_array q i")
    case None
    then have "dom (data_pages_array q) \<subseteq> set is" using Cons.prems(2) by auto
    then show ?thesis using None Cons.IH [OF Cons.prems(1) _ Cons.prems(3)] by simp
  next
    case (Some p)
    define a where "a = (data_pages_array q)(i := None)"
    define m where "m = (km_pages km)(p := None)"
    have "\<not> (\<exists>a. a \<noteq> i \<and> data_pages_array q a = Some p)"
      using Some inj_onD [OF Cons.prems(1)] by (metis domI)
    then have r: "ran (data_pages_array q) = insert p (ran a)" "p \<notin> ran a"
      using Some by (auto simp: ran_def a_def) (metis option.inject)
    have "p \<in> dom (km_pages km)" using Some Cons.prems(3) by (auto simp: ran_def)
    then have f: "free_page p km = Some (km\<lparr>km_pages := m\<rparr>)" by (simp add: free_page_def m_def)
    have "inj_on a (dom a)" "dom a \<subseteq> set is" using Cons.prems(1,2) by (auto simp: inj_on_def a_def)
    moreover have "ran a \<subseteq> dom m" using r Cons.prems(3) by (auto simp: m_def)
    ultimately have "page_release_loop is (q\<lparr>data_pages_array := a\<rparr>) (km\<lparr>km_pages := m\<rparr>) =
        Some (q\<lparr>data_pages_array := Map.empty\<rparr>, km\<lparr>km_pages := m |` (- ran a)\<rparr>)"
      using Cons.IH [of "q\<lparr>data_pages_array := a\<rparr>" "km\<lparr>km_pages := m\<rparr>"] by simp
    moreover have "m |` (- ran a) = km_pages km |` (- ran (data_pages_array q))"
      using r by (auto simp: restrict_map_def m_def)
    ultimately show ?thesis using Some f by (simp add: a_def)
  qed
qed

text \<open>The pages of the queues, which no two of them share.\<close>

abbreviation q_pages :: "dev_queue \<Rightarrow> page_id set" where
  "q_pages q \<equiv> ran (data_pages_array (dq_core q))"

definition all_pages :: "dev_queue list \<Rightarrow> page_id set" where
  "all_pages qs = (\<Union>q \<in> set qs. q_pages q)"

fun pages_apart :: "dev_queue list \<Rightarrow> bool" where
  "pages_apart [] \<longleftrightarrow> True"
| "pages_apart (q # qs) \<longleftrightarrow> q_pages q \<inter> all_pages qs = {} \<and> pages_apart qs"

lemma all_pages_simps [simp]:
  "all_pages [] = {}" "all_pages (q # qs) = q_pages q \<union> all_pages qs" "all_pages (xs @ ys) = all_pages xs \<union> all_pages ys"
  by (auto simp: all_pages_def)

lemma pages_apart_append [simp]:
  "pages_apart (xs @ ys) \<longleftrightarrow> pages_apart xs \<and> pages_apart ys \<and> all_pages xs \<inter> all_pages ys = {}"
  by (induction xs) auto

section \<open>What queues hold\<close>

definition uses :: "res \<Rightarrow> dev_queue \<Rightarrow> nat" where
  "uses r q = (case r of
       R_sb \<Rightarrow> of_bool (dq_sb q \<noteq> None)
     | R_bitmap \<Rightarrow> of_bool (dq_bitmap q)
     | R_name \<Rightarrow> of_bool (ki_name (dq_info q) \<noteq> Name_NULL)
     | _ \<Rightarrow> 0)"

definition q_keys :: "dev_queue list \<Rightarrow> nat list" where
  "q_keys qs = List.map_filter (\<lambda>q. ki_dev (dq_info q)) qs"

lemma q_keys_simps [simp]:
  "q_keys [] = []" "q_keys (q # qs) = (case ki_dev (dq_info q) of None \<Rightarrow> q_keys qs | Some k \<Rightarrow> k # q_keys qs)"
  "q_keys (xs @ ys) = q_keys xs @ q_keys ys"
  by (simp_all add: q_keys_def List.map_filter_def split: option.splits)

definition queue_ok :: "dev_queue \<Rightarrow> bool" where
  "queue_ok q \<longleftrightarrow> ki_name (dq_info q) \<noteq> Name_Freed \<and>
     inj_on (data_pages_array (dq_core q)) (dom (data_pages_array (dq_core q))) \<and>
     dom (data_pages_array (dq_core q)) \<subseteq> {..unat (data_pages (dq_core q))} \<and>
     (\<not> dq_bitmap q \<longrightarrow> data_pages_array (dq_core q) = Map.empty)"

definition srest where
  "srest s = (ubbd_dev_id_ida s, devices s, dev_next s, ubbd_dev_list s, ubbd_total_devs s, ubbd_wq s, dfs s,
     ubbd_major s, def_limits s)"

text \<open>\<open>queues_held s0 qs s\<close>: the system \<open>s\<close> is \<open>s0\<close> and, on top of it, what the queues \<open>qs\<close>
  hold: their super blocks, bitmaps and names, their kring devices and their data pages.\<close>

definition queues_held :: "ubbd_sys \<Rightarrow> dev_queue list \<Rightarrow> ubbd_sys \<Rightarrow> bool" where
  "queues_held s0 qs s \<longleftrightarrow> srest s = srest s0 \<and> (\<forall>r. live s r = live s0 r + (\<Sum>q\<leftarrow>qs. uses r q)) \<and>
     kheld (kring s0) (q_keys qs) (kring s) \<and> (\<forall>q \<in> set qs. queue_ok q) \<and> pages_apart qs \<and>
     (\<forall>p. p \<notin> all_pages qs \<longrightarrow> km_pages (mem s) p = km_pages (mem s0) p) \<and>
     (\<forall>p \<in> all_pages qs. km_pages (mem s0) p = None \<and> km_pages (mem s) p \<noteq> None)"

definition free_if :: "bool \<Rightarrow> res \<Rightarrow> ubbd_sys \<Rightarrow> ubbd_sys option" where
  "free_if b x s = (if b then free_res x s else Some s)"

lemma free_if_ok:
  assumes "\<forall>r. live s r = f r + g r" and "of_bool b \<le> g x"
  shows "free_if b x s = Some (s\<lparr>live := (\<lambda>r. f r + (g r - (if r = x then of_bool b else 0)))\<rparr>)"
proof (cases b)
  case True
  then have "(live s)(x := live s x - 1) = (\<lambda>r. f r + (g r - (if r = x then of_bool b else 0)))" using assms by auto
  then show ?thesis using True assms by (simp add: free_if_def free_res_def)
next
  case False
  then have "live s = (\<lambda>r. f r + (g r - (if r = x then of_bool b else 0)))" using assms by auto
  then show ?thesis using False by (simp add: free_if_def)
qed

text \<open>\<open>ubbd_queue_destroy\<close> as the sequence of what it gives back.\<close>

lemma queue_destroy_eq:
  assumes "queue_ok q"
  shows "ubbd_queue_destroy q s = do {
     s1 \<leftarrow> free_if (ki_name (dq_info q) \<noteq> Name_NULL) R_name s;
     ks \<leftarrow> ubbd_kring_unregister_device (ki_dev (dq_info q)) (kring s1);
     s2 \<leftarrow> free_if (dq_sb q \<noteq> None) R_sb (s1\<lparr>kring := ks\<rparr>);
     (c, km) \<leftarrow> (if dq_bitmap q then ubbd_page_release (dq_core q) (mem s2) else Some (dq_core q, mem s2));
     free_if (dq_bitmap q) R_bitmap (s2\<lparr>mem := km\<rparr>)
   }"
proof -
  have "(case ki_name (dq_info q) of Name_NULL \<Rightarrow> Some s | Name _ \<Rightarrow> free_res R_name s | Name_Freed \<Rightarrow> None) =
      free_if (ki_name (dq_info q) \<noteq> Name_NULL) R_name s"
    using assms by (auto simp: free_if_def queue_ok_def split: name_ptr.splits)
  moreover have "(case dq_sb q of None \<Rightarrow> Some x | Some _ \<Rightarrow> free_res R_sb x) = free_if (dq_sb q \<noteq> None) R_sb x" for x
    by (simp add: free_if_def split: option.splits)
  moreover have "ki_dev (destroy_free_name i) = ki_dev i" for i by (simp add: destroy_free_name_def)
  ultimately show ?thesis
    by (simp add: ubbd_queue_destroy_def queue_kring_destroy_def ubbd_queue_kring_destroy_def ubbd_queue_sb_destroy_def Let_def
        free_if_def [of "dq_bitmap q"] cong: if_cong split: bind_splits)
qed

lemma queue_destroy_held:
  assumes h: "queues_held s0 (xs @ q # ys) s"
  shows "\<exists>s'. ubbd_queue_destroy q s = Some s' \<and> queues_held s0 (xs @ ys) s'"
proof -
  define g where "g r = (\<Sum>q\<leftarrow>xs @ q # ys. uses r q)" for r
  have gq: "uses r q \<le> g r" for r by (simp add: g_def)
  have ok: "queue_ok q" and lv: "\<forall>r. live s r = live s0 r + g r" and ap: "pages_apart (xs @ q # ys)"
    and kh: "kheld (kring s0) (q_keys (xs @ q # ys)) (kring s)"
    using h by (auto simp: queues_held_def g_def)
  let ?b1 = "ki_name (dq_info q) \<noteq> Name_NULL" and ?b2 = "dq_sb q \<noteq> None" and ?b3 = "dq_bitmap q"
  define g1 where "g1 r = g r - (if r = R_name then of_bool ?b1 else 0)" for r
  define g2 where "g2 r = g1 r - (if r = R_sb then of_bool ?b2 else 0)" for r
  define g3 where "g3 r = g2 r - (if r = R_bitmap then of_bool ?b3 else 0)" for r
  have b: "of_bool ?b1 \<le> g R_name" "of_bool ?b2 \<le> g1 R_sb" "of_bool ?b3 \<le> g2 R_bitmap"
    using gq [of R_name] gq [of R_sb] gq [of R_bitmap] by (auto simp: uses_def g1_def g2_def)
  have f1: "free_if ?b1 R_name s = Some (s\<lparr>live := (\<lambda>r. live s0 r + g1 r)\<rparr>)"
    using free_if_ok [OF lv b(1)] by (simp add: g1_def)
  obtain ks where ks: "ubbd_kring_unregister_device (ki_dev (dq_info q)) (kring s) = Some ks"
      "kheld (kring s0) (q_keys (xs @ ys)) ks"
    using kh kr.give_ok [of "kring s0" "q_keys xs" _ "q_keys ys" "kring s"]
    by (cases "ki_dev (dq_info q)") (auto simp: ubbd_kring_unregister_device_def [of None])
  define s1 where "s1 = s\<lparr>live := (\<lambda>r. live s0 r + g1 r), kring := ks\<rparr>"
  have f2: "free_if ?b2 R_sb s1 = Some (s1\<lparr>live := (\<lambda>r. live s0 r + g2 r)\<rparr>)"
    using free_if_ok [of s1 "live s0" g1 ?b2 R_sb] b(2) by (simp add: g2_def s1_def)
  define km where "km = (mem s)\<lparr>km_pages := km_pages (mem s) |` (- q_pages q)\<rparr>"
  have "q_pages q \<subseteq> dom (km_pages (mem s))" using h by (auto simp: queues_held_def)
  then have f3: "\<exists>c. (if ?b3 then ubbd_page_release (dq_core q) (mem s) else Some (dq_core q, mem s)) = Some (c, km)"
    using page_release_loop_ok [of "dq_core q" "[0..<Suc (unat (data_pages (dq_core q)))]" "mem s"] ok
    by (cases ?b3) (simp_all add: ubbd_page_release_def queue_ok_def km_def atMost_atLeast0 atLeastLessThanSuc_atLeastAtMost
        restrict_map_def del: upt_Suc)
  define s2 where "s2 = s1\<lparr>live := (\<lambda>r. live s0 r + g2 r), mem := km\<rparr>"
  define s3 where "s3 = s2\<lparr>live := (\<lambda>r. live s0 r + g3 r)\<rparr>"
  have f4: "free_if ?b3 R_bitmap s2 = Some s3"
    using free_if_ok [of s2 "live s0" g2 ?b3 R_bitmap] b(3) by (simp add: g3_def s2_def s3_def)
  have "ubbd_queue_destroy q s = Some s3"
    using f1 ks(1) f2 f3 f4 by (auto simp: queue_destroy_eq [OF ok] s1_def s2_def s3_def)
  moreover have "queues_held s0 (xs @ ys) s3"
  proof -
    have g3: "g3 r = (\<Sum>q\<leftarrow>xs @ ys. uses r q)" for r
      by (cases r) (simp_all add: g3_def g2_def g1_def g_def uses_def)
    have s3: "srest s3 = srest s" "kring s3 = ks" "live s3 = (\<lambda>r. live s0 r + g3 r)" "mem s3 = km"
      by (simp_all add: s3_def s2_def s1_def srest_def)
    have "q_pages q \<inter> all_pages (xs @ ys) = {}" using ap by auto
    then show ?thesis using h ks(2) ap g3 s3 by (auto simp: queues_held_def km_def restrict_map_def)
  qed
  ultimately show ?thesis by blast
qed

interpretation dq: holdings ubbd_queue_destroy "queues_held s0" for s0
  by unfold_locales (rule queue_destroy_held)

lemma destroy_queues_loop_give: "destroy_queues_loop qs s = give_all ubbd_queue_destroy qs s"
proof (induction qs arbitrary: s)
  case (Cons q qs)
  then show ?case by (cases "ubbd_queue_destroy q s") simp_all
qed simp

section \<open>Creating queues\<close>

lemma kheld_perm: "kheld k0 K k \<Longrightarrow> distinct K' \<Longrightarrow> set K' = set K \<Longrightarrow> kheld k0 K' k"
  by (simp add: kheld_def)

lemma queues_held_step:
  assumes h: "queues_held s0 (xs @ z # ys) s" and "srest s1 = srest s" and "mem s1 = mem s"
    and lv: "\<forall>r. live s1 r + uses r z = live s r + uses r q" and "kheld (kring s0) (q_keys (xs @ q # ys)) (kring s1)"
    and "queue_ok q" and "q_pages q = q_pages z"
  shows "queues_held s0 (xs @ q # ys) s1"
proof -
  have "live s1 r = live s0 r + (\<Sum>q\<leftarrow>xs @ q # ys. uses r q)" for r
    using h lv [rule_format, of r] by (auto simp: queues_held_def dest!: spec [of _ r])
  then show ?thesis using assms by (auto simp: queues_held_def)
qed

text \<open>A queue that holds nothing.\<close>

definition blank :: "dev_queue \<Rightarrow> bool" where
  "blank q \<longleftrightarrow> dq_sb q = None \<and> \<not> dq_bitmap q \<and> ki_name (dq_info q) = Name_NULL \<and> ki_dev (dq_info q) = None \<and>
     data_pages_array (dq_core q) = Map.empty"

lemma blank_zero [simp]: "blank (zero_queue pd)" "blank (q\<lparr>dq_index := i\<rparr>) = blank q"
  by (simp_all add: blank_def zero_queue_def)

lemma blank_uses [simp]: "blank q \<Longrightarrow> uses r q = 0" "blank q \<Longrightarrow> queue_ok q" "blank q \<Longrightarrow> q_pages q = {}"
  by (auto simp: blank_def uses_def queue_ok_def split: res.splits)

lemma take_ret_frame:
  assumes "take_ret s = (r, s1)"
  shows "srest s1 = srest s" "mem s1 = mem s" "live s1 = live s" "kring s1 = kring s" "devices s1 = devices s" "dfs s1 = dfs s"
  using assms by (auto simp: take_ret_def srest_def split: list.splits)

lemma alloc_res_frame:
  assumes "alloc_res x s = (ok, s1)"
  shows "srest s1 = srest s" "mem s1 = mem s" "live s1 = (\<lambda>r. live s r + (if ok \<and> r = x then 1 else 0))" "kring s1 = kring s"
    "devices s1 = devices s" "dfs s1 = dfs s"
proof -
  obtain r s2 where t: "take_ret s = (r, s2)" by fastforce
  note f = take_ret_frame [OF t]
  have "ok = (r = 0)" "s1 = (if r = 0 then got_res x s2 else s2)"
    using assms t by (auto simp: alloc_res_def split: if_splits)
  then show "srest s1 = srest s" "mem s1 = mem s" "live s1 = (\<lambda>r. live s r + (if ok \<and> r = x then 1 else 0))"
    "kring s1 = kring s" "devices s1 = devices s" "dfs s1 = dfs s"
    using f by (auto simp: got_res_def srest_def)
qed

lemma queue_kring_init_held:
  assumes h: "queues_held s0 (xs @ z # ys) s" and z: "ki_name (dq_info z) = Name_NULL" "ki_dev (dq_info z) = None"
  shows "\<exists>ret q s1. queue_kring_init did z s = Some (ret, q, s1) \<and> queues_held s0 (xs @ q # ys) s1 \<and>
    (ret = 0 \<longrightarrow> ki_dev (dq_info q) \<noteq> None \<and> ki_size (dq_info q) = push_bit PAGE_SHIFT (dq_mmap_pages z) \<and>
      ki_name (dq_info q) = Name (''ubbd'' @ dec did @ ''-'' @ dec (dq_index z)) \<and> q = z\<lparr>dq_info := dq_info q\<rparr>)"
proof -
  obtain ok s1 kz s2 ir s3 nr s4 ar s5 where t: "alloc_res R_name s = (ok, s1)" "take_ret s1 = (kz, s2)"
      "take_ret s2 = (ir, s3)" "take_ret s3 = (nr, s4)" "take_ret s4 = (ar, s5)"
    by (metis surj_pair)
  have f: "srest s5 = srest s" "mem s5 = mem s" "live s5 = (\<lambda>r. live s r + (if ok \<and> r = R_name then 1 else 0))" "kring s5 = kring s"
    using alloc_res_frame [OF t(1)] take_ret_frame [OF t(2)] take_ret_frame [OF t(3)] take_ret_frame [OF t(4)]
      take_ret_frame [OF t(5)] by simp_all
  have kh: "kheld (kring s0) (q_keys (xs @ z # ys)) (kring s5)" using h f by (simp add: queues_held_def)
  let ?n = "''ubbd'' @ dec did @ ''-'' @ dec (dq_index z)"
  have zok: "queue_ok z" using h by (simp add: queues_held_def)
  show ?thesis
  proof (cases ok)
    case False
    define q where "q = z\<lparr>dq_info := dq_info z\<lparr>ki_size := push_bit PAGE_SHIFT (dq_mmap_pages z), ki_name := Name_NULL\<rparr>\<rparr>"
    have "queues_held s0 (xs @ q # ys) s5"
      by (rule queues_held_step [OF h f(1,2)]) (use kh z False zok f(3) in \<open>auto simp: q_def uses_def queue_ok_def split: res.splits\<close>)
    then have "queues_held s0 (xs @ q # ys) (s5\<lparr>kring := kring s5\<rparr>)" by simp
    then show ?thesis using False t by (auto simp: queue_kring_init_def ubbd_queue_kring_init_def Let_def q_def)
  next
    case True
    from kheld_register [OF kh, of True "kz = 0" "ir = 0" nr ar] obtain ret k1 dev where
      r: "ubbd_kring_register_device True (kz = 0) (ir = 0) nr ar (kring s5) = Some (ret, k1, dev)"
        "if ret = 0 then \<exists>key. dev = Some key \<and> kheld (kring s0) (q_keys (xs @ z # ys) @ [key]) k1
         else dev = None \<and> kheld (kring s0) (q_keys (xs @ z # ys)) k1" by blast
    define q where "q = z\<lparr>dq_info := (dq_info z)\<lparr>ki_size := push_bit PAGE_SHIFT (dq_mmap_pages z), ki_name := Name ?n,
       ki_dev := (if class_registered (kring s5) then dev else ki_dev (dq_info z))\<rparr>\<rparr>"
    have dev: "ret \<noteq> 0 \<Longrightarrow> dev = None" "\<not> class_registered (kring s5) \<Longrightarrow> ret \<noteq> 0"
      using r by (auto simp: ubbd_kring_register_device_def split: if_splits)
    have "kheld (kring s0) (q_keys (xs @ q # ys)) k1"
    proof (cases "ret = 0")
      case True
      then obtain key where key: "dev = Some key" "kheld (kring s0) (q_keys (xs @ z # ys) @ [key]) k1" using r(2) by auto
      moreover have "distinct (q_keys (xs @ z # ys) @ [key])" using key(2) by (simp add: kheld_def)
      ultimately show ?thesis using z dev True by (intro kheld_perm [OF key(2)]) (auto simp: q_def)
    next
      case False
      then show ?thesis using r(2) z dev by (auto simp: q_def)
    qed
    then have "queues_held s0 (xs @ q # ys) (s5\<lparr>kring := k1\<rparr>)"
      by (intro queues_held_step [OF h])
        (use z zok True f in \<open>auto simp: q_def uses_def queue_ok_def srest_def split: res.splits\<close>)
    moreover have "queue_kring_init did z s = Some (ret, q, s5\<lparr>kring := k1\<rparr>)"
      using True t r by (simp add: queue_kring_init_def ubbd_queue_kring_init_def q_def)
    moreover have "ret = 0 \<Longrightarrow> ki_dev (dq_info q) \<noteq> None" using r(2) dev by (auto simp: q_def)
    ultimately show ?thesis by (auto simp: q_def)
  qed
qed

text \<open>What a successful \<open>ubbd_queue_create\<close> makes of a zeroed queue.\<close>

definition fresh_core :: "ubbd_h \<Rightarrow> u32 \<Rightarrow> ubbd_queue \<Rightarrow> bool" where
  "fresh_core H pages c \<longleftrightarrow> cmdr_size c = CMDR_SIZE H \<and> cmd_head c = 0 \<and> cmd_tail c = 0 \<and>
     compr_size c = COMPR_SIZE H \<and> compr_head c = 0 \<and> compr_tail c = 0 \<and>
     data_pages c = pages \<and> data_pages_allocated c = 0 \<and> data_pages_reserved c = pages * 75 div 100 \<and>
     data_bitmap c = replicate (unat pages) False \<and> data_pages_array c = Map.empty \<and> data_off c = RING_SIZE H \<and>
     q_status c = UBBD_QUEUE_KSTATUS_RUNNING \<and> q_req_tid c = 0 \<and> inflight_reqs c = [] \<and> task_wq c = [] \<and> blk_log c = []"

definition new_queue :: "ubbd_const \<Rightarrow> nat \<Rightarrow> nat \<Rightarrow> u32 \<Rightarrow> dev_queue \<Rightarrow> bool" where
  "new_queue C did i pages q \<longleftrightarrow> fresh_core (uc_h C) pages (dq_core q) \<and> dq_index q = i \<and> dq_cpumask q = [] \<and>
     ki_dev (dq_info q) \<noteq> None \<and> ki_name (dq_info q) = Name (''ubbd'' @ dec did @ ''-'' @ dec i) \<and>
     dq_mmap_pages q = ucast pages + drop_bit PAGE_SHIFT (RING_SIZE (uc_h C)) \<and>
     ki_size (dq_info q) = push_bit PAGE_SHIFT (dq_mmap_pages q)"

definition zero_core :: "dev_queue \<Rightarrow> bool" where
  "zero_core q \<longleftrightarrow> blank q \<and> data_pages_allocated (dq_core q) = 0 \<and> task_wq (dq_core q) = [] \<and> blk_log (dq_core q) = []"

lemma queue_sb_init_held:
  assumes h: "queues_held s0 (xs @ z # ys) s" and z: "dq_sb z = None"
  shows "\<exists>ret q s1. ubbd_queue_sb_init C z s = (ret, q, s1) \<and> queues_held s0 (xs @ q # ys) s1 \<and> dq_info q = dq_info z \<and>
    (ret = 0 \<longrightarrow> (\<exists>sb. q = z\<lparr>dq_sb := Some sb, dq_mmap_pages := ucast (data_pages (dq_core z)) + drop_bit PAGE_SHIFT (RING_SIZE (uc_h C)),
       dq_core := (dq_core z)\<lparr>cmdr_size := CMDR_SIZE (uc_h C), cmd_head := 0, cmd_tail := 0, cmdr_mem := (\<lambda>_. zero_se),
         compr_size := COMPR_SIZE (uc_h C), compr_head := 0, compr_tail := 0, compr_mem := (\<lambda>_. zero_ce),
         data_off := RING_SIZE (uc_h C)\<rparr>\<rparr>))"
proof -
  obtain ok s1 where a: "alloc_res R_sb s = (ok, s1)" by fastforce
  note f = alloc_res_frame [OF a]
  obtain ret q s1' where i: "ubbd_queue_sb_init C z s = (ret, q, s1')" by (metis surj_pair)
  then have e: "s1' = s1" "dq_info q = dq_info z" "dq_bitmap q = dq_bitmap z" "q_pages q = q_pages z" "dq_sb q \<noteq> None \<longleftrightarrow> ok"
      "data_pages_array (dq_core q) = data_pages_array (dq_core z)" "data_pages (dq_core q) = data_pages (dq_core z)"
    using a z by (auto simp: ubbd_queue_sb_init_def Let_def split: if_splits)
  have "uses r q = uses r z + (if ok \<and> r = R_sb then 1 else 0)" for r using e z by (cases r) (auto simp: uses_def)
  then have "queues_held s0 (xs @ q # ys) s1"
    by (intro queues_held_step [OF h f(1,2)]) (use h f e in \<open>auto simp: queues_held_def queue_ok_def\<close>)
  then show ?thesis using i e a by (auto simp: ubbd_queue_sb_init_def Let_def split: if_splits)
qed

lemma queue_bitmap_held:
  assumes h: "queues_held s0 (xs @ z # ys) s" and z: "blank z" and a: "alloc_res R_bitmap s = (ok, s1)"
    and q: "dq_info q = dq_info z" "dq_sb q = None" "dq_bitmap q = ok" "data_pages_array (dq_core q) = Map.empty"
  shows "queues_held s0 (xs @ q # ys) s1"
proof -
  note f = alloc_res_frame [OF a]
  have "uses r q = (if ok \<and> r = R_bitmap then 1 else 0)" for r using q z by (cases r) (auto simp: uses_def blank_def)
  then show ?thesis
    by (intro queues_held_step [OF h f(1,2)]) (use h f q z in \<open>auto simp: queues_held_def queue_ok_def blank_def\<close>)
qed

lemma queue_create_held:
  assumes h: "queues_held s0 (xs @ z # ys) s" and z: "zero_core z"
  shows "\<exists>ret q s1. ubbd_queue_create C did pages z s = Some (ret, q, s1) \<and> queues_held s0 (xs @ q # ys) s1 \<and>
    (ret = 0 \<longrightarrow> new_queue C did (dq_index z) pages q)"
proof -
  have zb: "blank z" using z by (simp add: zero_core_def)
  define q1 where "q1 = z\<lparr>dq_core := (dq_core z)\<lparr>data_pages := pages,
      data_pages_reserved := pages * UBBD_KRING_DATA_RESERVE_PERCENT div 100, data_pages_array := Map.empty\<rparr>\<rparr>"
  define q2 where "q2 = q1\<lparr>dq_bitmap := True, dq_core := (dq_core q1)\<lparr>data_bitmap := replicate (unat pages) False\<rparr>\<rparr>"
  obtain ok s1 where a: "alloc_res R_bitmap s = (ok, s1)" by fastforce
  have create: "ubbd_queue_create C did pages z s =
    (if \<not> ok then Some (- ENOMEM, q1, s1)
     else case ubbd_queue_sb_init C q2 s1 of (ret, q3, s2) \<Rightarrow>
       if ret \<noteq> 0 then Some (ret, q3, s2)
       else do {
         (ret, q4, s3) \<leftarrow> queue_kring_init did q3 s2;
         if ret \<noteq> 0 then Some (ret, q4, s3)
         else Some (0, q4\<lparr>dq_core := (dq_core q4)\<lparr>inflight_reqs := [], q_req_tid := 0,
                 q_status := UBBD_QUEUE_KSTATUS_RUNNING\<rparr>, dq_cpumask := []\<rparr>, s3)
       })"
    using a by (simp add: ubbd_queue_create_def q1_def q2_def)
  show ?thesis
  proof (cases ok)
    case False
    then have "queues_held s0 (xs @ q1 # ys) s1"
      by (intro queue_bitmap_held [OF h zb a]) (use zb in \<open>simp_all add: q1_def blank_def\<close>)
    then show ?thesis using False create by simp
  next
    case True
    have "queues_held s0 (xs @ q2 # ys) s1"
      by (rule queue_bitmap_held [OF h zb a]) (use zb True in \<open>simp_all add: q1_def q2_def blank_def\<close>)
    moreover have "dq_sb q2 = None" using zb by (simp add: q1_def q2_def blank_def)
    ultimately obtain ret q3 s2 where i3: "ubbd_queue_sb_init C q2 s1 = (ret, q3, s2)" "queues_held s0 (xs @ q3 # ys) s2"
        "dq_info q3 = dq_info q2"
        "ret = 0 \<Longrightarrow> \<exists>sb. q3 = q2\<lparr>dq_sb := Some sb, dq_mmap_pages := ucast pages + drop_bit PAGE_SHIFT (RING_SIZE (uc_h C)),
           dq_core := (dq_core q2)\<lparr>cmdr_size := CMDR_SIZE (uc_h C), cmd_head := 0, cmd_tail := 0, cmdr_mem := (\<lambda>_. zero_se),
             compr_size := COMPR_SIZE (uc_h C), compr_head := 0, compr_tail := 0, compr_mem := (\<lambda>_. zero_ce),
             data_off := RING_SIZE (uc_h C)\<rparr>\<rparr>"
      using queue_sb_init_held [of s0 xs q2 ys s1 C] by (auto simp: q2_def q1_def)
    have k3: "ki_name (dq_info q3) = Name_NULL" "ki_dev (dq_info q3) = None"
      using i3(3) zb by (simp_all add: q1_def q2_def blank_def)
    from queue_kring_init_held [OF i3(2) k3, of did] obtain ret4 q4 s3 where
      i4: "queue_kring_init did q3 s2 = Some (ret4, q4, s3)" "queues_held s0 (xs @ q4 # ys) s3"
        "ret4 = 0 \<Longrightarrow> ki_dev (dq_info q4) \<noteq> None \<and> ki_size (dq_info q4) = push_bit PAGE_SHIFT (dq_mmap_pages q3) \<and>
           ki_name (dq_info q4) = Name (''ubbd'' @ dec did @ ''-'' @ dec (dq_index q3)) \<and> q4 = q3\<lparr>dq_info := dq_info q4\<rparr>"
      by blast
    define q5 where "q5 = q4\<lparr>dq_core := (dq_core q4)\<lparr>inflight_reqs := [], q_req_tid := 0,
                 q_status := UBBD_QUEUE_KSTATUS_RUNNING\<rparr>, dq_cpumask := []\<rparr>"
    have "queues_held s0 (xs @ q5 # ys) s3"
      by (rule queues_held_step [OF i4(2)])
        (use i4(2) in \<open>auto simp: q5_def uses_def queue_ok_def queues_held_def split: res.splits\<close>)
    moreover have "new_queue C did (dq_index z) pages q5" if r0: "ret = 0" "ret4 = 0"
    proof -
      obtain info sb where e: "q4 = q3\<lparr>dq_info := info\<rparr>"
        "q3 = q2\<lparr>dq_sb := Some sb, dq_mmap_pages := ucast pages + drop_bit PAGE_SHIFT (RING_SIZE (uc_h C)),
           dq_core := (dq_core q2)\<lparr>cmdr_size := CMDR_SIZE (uc_h C), cmd_head := 0, cmd_tail := 0, cmdr_mem := (\<lambda>_. zero_se),
             compr_size := COMPR_SIZE (uc_h C), compr_head := 0, compr_tail := 0, compr_mem := (\<lambda>_. zero_ce),
             data_off := RING_SIZE (uc_h C)\<rparr>\<rparr>"
        using i3(4) [OF r0(1)] i4(3) [OF r0(2)] by blast
      have "ki_dev info \<noteq> None \<and> ki_size info = push_bit PAGE_SHIFT (dq_mmap_pages q3) \<and>
           ki_name info = Name (''ubbd'' @ dec did @ ''-'' @ dec (dq_index q3))"
        using i4(3) [OF r0(2)] e(1) by simp
      then show ?thesis
        using z by (simp add: new_queue_def fresh_core_def q5_def e q2_def q1_def UBBD_KRING_DATA_RESERVE_PERCENT_def zero_core_def)
    qed
    ultimately show ?thesis using True create i3(1,2) i4(1,2) by (auto simp: q5_def)
  qed
qed

lemma create_queues_loop_held:
  assumes "queues_held s0 qs s" and "i \<le> length qs" and "\<forall>j < length qs. i \<le> j \<longrightarrow> zero_core (qs ! j)"
    and "\<forall>j < i. new_queue C did j pages (qs ! j)"
  shows "\<exists>ret qs' s'. create_queues_loop C did pages [i..<length qs] qs s = Some (ret, qs', s') \<and> queues_held s0 qs' s' \<and>
    length qs' = length qs \<and> (ret = 0 \<longrightarrow> (\<forall>j < length qs. new_queue C did j pages (qs' ! j)))"
  using assms
proof (induction "length qs - i" arbitrary: i qs s)
  case 0
  then have "i = length qs" by simp
  then show ?case using 0 by simp
next
  case (Suc m)
  then have i: "i < length qs" by simp
  then have u: "[i..<length qs] = i # [Suc i..<length qs]" by (simp add: upt_conv_Cons)
  let ?z = "(qs ! i)\<lparr>dq_index := i\<rparr>"
  have zi: "zero_core (qs ! i)" using Suc.prems(3) i by simp
  have h: "queues_held s0 (take i qs @ qs ! i # drop (Suc i) qs) s"
    using Suc.prems(1) id_take_nth_drop [OF i] by simp
  then have "kheld (kring s0) (q_keys (take i qs @ qs ! i # drop (Suc i) qs)) (kring s)" by (simp add: queues_held_def)
  then have "queues_held s0 (take i qs @ ?z # drop (Suc i) qs) s"
    by (intro queues_held_step [OF h refl refl]) (use zi in \<open>simp_all add: zero_core_def blank_def uses_def queue_ok_def\<close>)
  from queue_create_held [OF this, of C did pages] zi obtain ret q s1 where
    c: "ubbd_queue_create C did pages ?z s = Some (ret, q, s1)" "queues_held s0 (qs[i := q]) s1"
      "ret = 0 \<Longrightarrow> new_queue C did i pages q"
    using i by (auto simp: zero_core_def upd_conv_take_nth_drop)
  show ?case
  proof (cases "ret = 0")
    case False
    then show ?thesis using c i u by simp
  next
    case True
    have "\<forall>j < Suc i. new_queue C did j pages (qs[i := q] ! j)" "\<forall>j < length qs. Suc i \<le> j \<longrightarrow> zero_core (qs[i := q] ! j)"
      using c(3) [OF True] Suc.prems(3,4) i by (auto simp: less_Suc_eq nth_list_update)
    then show ?thesis
      using Suc.hyps(1) [of "qs[i := q]" "Suc i" s1] Suc.hyps(2) c True i u by auto
  qed
qed

section \<open>Changing the base\<close>

lemma held_alloc:
  assumes "queues_held b qs s" and "alloc_res x s = (ok, s1)"
  shows "queues_held (b\<lparr>live := (\<lambda>r. live b r + (if ok \<and> r = x then 1 else 0))\<rparr>) qs s1"
  using assms(1) alloc_res_frame [OF assms(2)] by (auto simp: queues_held_def srest_def)

lemma held_ret: "queues_held b qs s \<Longrightarrow> take_ret s = (r, s1) \<Longrightarrow> queues_held b qs s1"
  using take_ret_frame [of s r s1] by (auto simp: queues_held_def)

lemma held_free:
  assumes "queues_held b qs s" and "0 < live b x"
  shows "\<exists>s1. free_res x s = Some s1 \<and> queues_held (b\<lparr>live := (\<lambda>r. live b r - (if r = x then 1 else 0))\<rparr>) qs s1"
proof -
  have "live s x = live b x + (\<Sum>q\<leftarrow>qs. uses x q)" using assms(1) by (simp add: queues_held_def)
  then show ?thesis using assms by (auto simp: free_res_def queues_held_def srest_def)
qed

lemma held_ida:
  "queues_held b qs s \<Longrightarrow> queues_held (b\<lparr>ubbd_dev_id_ida := I\<rparr>) qs (s\<lparr>ubbd_dev_id_ida := I\<rparr>)"
  "queues_held b qs s \<Longrightarrow> queues_held (b\<lparr>dfs := fs\<rparr>) qs (s\<lparr>dfs := fs\<rparr>)"
  by (simp_all add: queues_held_def srest_def)

lemma held_module:
  "queues_held b qs s \<Longrightarrow> queues_held (module_add b) qs (module_add s)"
  "queues_held b qs s \<Longrightarrow> queues_held (module_put b) qs (module_put s)"
  by (auto simp: queues_held_def srest_def module_add_def module_put_def kheld_def krest_def)

lemma held_blank:
  assumes "queues_held b [] s" and "blank z"
  shows "queues_held b (replicate n z) s"
proof -
  have "q_keys (replicate n z) = []" "all_pages (replicate n z) = {}" "(\<Sum>q\<leftarrow>replicate n z. uses r q) = 0" for r
    using assms(2) by (induction n) (auto simp: blank_def uses_def split: res.splits)
  moreover have "pages_apart (replicate n z)" using assms(2) by (induction n) simp_all
  ultimately show ?thesis using assms by (auto simp: queues_held_def)
qed

text \<open>Two systems that differ in nothing but the serial numbers given out and the pool of
  outcomes.\<close>

definition same_sys :: "ubbd_sys \<Rightarrow> ubbd_sys \<Rightarrow> bool" where
  "same_sys s s' \<longleftrightarrow> srest s' = srest s \<and> live s' = live s \<and> km_pages (mem s') = km_pages (mem s) \<and>
     kring s' = (kring s)\<lparr>next_key := next_key (kring s')\<rparr>"

lemma held_same: "queues_held s [] s' \<Longrightarrow> same_sys s s'"
  using kheld_Nil [of "kring s" "kring s'"] by (auto simp: queues_held_def same_sys_def)

lemma held_self: "registry_ok (kring s) \<Longrightarrow> queues_held s [] s"
  using kheld_refl [of "kring s"] by (simp add: queues_held_def)

lemma held_queues_free:
  assumes "queues_held b (queues d) s" and "0 < live b R_queues"
  shows "\<exists>s1. ubbd_dev_destroy_queues d s = Some s1 \<and>
    queues_held (b\<lparr>live := (\<lambda>r. live b r - (if r = R_queues then 1 else 0))\<rparr>) [] s1"
proof -
  obtain s1 where "destroy_queues_loop (queues d) s = Some s1" "queues_held b [] s1"
    using dq.give_all_ok [of b "queues d" "[]" s] assms(1) by (auto simp: destroy_queues_loop_give)
  then show ?thesis using held_free [of b "[]" s1 R_queues] assms(2) by (auto simp: ubbd_dev_destroy_queues_def)
qed

section \<open>Creating and destroying a device\<close>

text \<open>\<open>dev_held s0 d s\<close>: the system \<open>s\<close> is \<open>s0\<close> and, on top of it, all that the device \<open>d\<close> holds:
  its queues, its id, its work queue, a reference to the module and its debugfs directory.\<close>

definition dev_base :: "ubbd_sys \<Rightarrow> ubbd_device \<Rightarrow> ubbd_sys \<Rightarrow> ubbd_sys" where
  "dev_base s0 d s = (module_add s0)\<lparr>live := (\<lambda>r. live s0 r + (if r \<in> {R_device, R_queues, R_task_wq} then 1 else 0)),
     ubbd_dev_id_ida := insert (dev_id d) (ubbd_dev_id_ida s0), dfs := dfs s\<rparr>"

definition dev_held :: "ubbd_sys \<Rightarrow> ubbd_device \<Rightarrow> ubbd_sys \<Rightarrow> bool" where
  "dev_held s0 d s \<longleftrightarrow> dev_id d \<notin> ubbd_dev_id_ida s0 \<and>
     snd (ubbd_debugfs_remove_dev (dentries d) (dfs s)) = dfs s0 \<and> queues_held (dev_base s0 d s) (queues d) s"

lemma dev_destroy_held:
  assumes "dev_held s0 d s"
  shows "\<exists>s'. ubbd_dev_destroy d s = Some s' \<and> queues_held s0 [] s'"
proof -
  define I where "I = ubbd_dev_id_ida s0"
  obtain dd fs where rm: "ubbd_debugfs_remove_dev (dentries d) (dfs s) = (dd, fs)" "fs = dfs s0"
    using assms by (auto simp: dev_held_def) (metis prod.collapse)
  define b where "b = (dev_base s0 d s)\<lparr>dfs := fs\<rparr>"
  have h0: "queues_held b (queues d) (s\<lparr>dfs := fs\<rparr>)"
    unfolding b_def by (rule held_ida(2)) (use assms in \<open>simp add: dev_held_def\<close>)
  obtain s1 where s1: "free_res R_task_wq (s\<lparr>dfs := fs\<rparr>) = Some s1"
      "queues_held (b\<lparr>live := (\<lambda>r. live b r - (if r = R_task_wq then 1 else 0))\<rparr>) (queues d) s1"
    using held_free [OF h0, of R_task_wq] by (auto simp: b_def dev_base_def)
  obtain s2 where s2: "ubbd_dev_destroy_queues d s1 = Some s2"
      "queues_held (b\<lparr>live := (\<lambda>r. live b r - (if r = R_task_wq then 1 else 0) - (if r = R_queues then 1 else 0))\<rparr>) [] s2"
    using held_queues_free [OF s1(2)] by (auto simp: b_def dev_base_def cong: if_cong)
  have i2: "ubbd_dev_id_ida s2 = insert (dev_id d) I"
    using s2(2) by (simp add: queues_held_def srest_def b_def dev_base_def I_def)
  have h3: "queues_held (b\<lparr>live := (\<lambda>r. live b r - (if r = R_task_wq then 1 else 0) - (if r = R_queues then 1 else 0)),
      ubbd_dev_id_ida := I\<rparr>) [] (ida_free (dev_id d) s2)"
    using held_ida(1) [OF s2(2), of I] i2 assms by (simp add: ida_free_def dev_held_def I_def)
  obtain s4 where s4: "free_res R_device (ida_free (dev_id d) s2) = Some s4"
      "queues_held (b\<lparr>ubbd_dev_id_ida := I, live := (\<lambda>r. live b r - (if r = R_task_wq then 1 else 0) -
         (if r = R_queues then 1 else 0) - (if r = R_device then 1 else 0))\<rparr>) [] s4"
    using held_free [OF h3, of R_device] by (auto simp: b_def dev_base_def cong: if_cong)
  have "(\<lambda>r. live b r - (if r = R_task_wq then 1 else 0) - (if r = R_queues then 1 else 0) - (if r = R_device then 1 else 0)) = live s0"
    by (rule ext) (simp add: b_def dev_base_def)
  then have "queues_held (module_put (b\<lparr>ubbd_dev_id_ida := I, live := live s0\<rparr>)) [] (module_put s4)"
    using held_module(2) [OF s4(2)] by simp
  moreover have "module_put (b\<lparr>ubbd_dev_id_ida := I, live := live s0\<rparr>) = s0"
    using rm(2) by (simp add: module_put_def module_add_def I_def b_def dev_base_def)
  ultimately show ?thesis using rm s1(1) s2(1) s4(1) by (simp add: ubbd_dev_destroy_def dev_free0_def)
qed

definition plus_res :: "res \<Rightarrow> ubbd_sys \<Rightarrow> ubbd_sys" where
  "plus_res x b = b\<lparr>live := (\<lambda>r. live b r + (if r = x then 1 else 0))\<rparr>"

lemma held_alloc_plus: "queues_held b qs s \<Longrightarrow> alloc_res x s = (ok, s1) \<Longrightarrow> queues_held (if ok then plus_res x b else b) qs s1"
  using held_alloc [of b qs s x ok s1] by (cases ok) (simp_all add: plus_res_def cong: if_cong)

lemma held_free_plus: "queues_held (plus_res x b) qs s \<Longrightarrow> \<exists>s1. free_res x s = Some s1 \<and> queues_held b qs s1"
  using held_free [of "plus_res x b" qs s x] by (simp add: plus_res_def cong: if_cong)

lemma held_queues_free_plus:
  "queues_held (plus_res R_queues b) (queues d) s \<Longrightarrow> \<exists>s1. ubbd_dev_destroy_queues d s = Some s1 \<and> queues_held b [] s1"
  using held_queues_free [of "plus_res R_queues b" d s] by (simp add: plus_res_def cong: if_cong)

lemma ida_alloc_held:
  assumes "queues_held b [] s" and "ida_alloc s = (r, s2)"
  shows "case r of None \<Rightarrow> queues_held b [] s2
    | Some i \<Rightarrow> i \<notin> ubbd_dev_id_ida b \<and> i < 2 ^ 16 \<and> queues_held (b\<lparr>ubbd_dev_id_ida := insert i (ubbd_dev_id_ida b)\<rparr>) [] s2"
proof -
  obtain ret s1 where t: "take_ret s = (ret, s1)" by fastforce
  have h: "queues_held b [] s1" by (rule held_ret [OF assms(1) t])
  then have e: "ubbd_dev_id_ida s1 = ubbd_dev_id_ida b" by (simp add: queues_held_def srest_def)
  have "i \<notin> ids \<and> i < 2 ^ 16" if "ida_find ids = Some i" for i ids
    using find_upt [OF that [unfolded ida_find_def]] by (simp add: minor_to_ubbd_dev_id_def drop_bit_eq_div)
  then show ?thesis
    using assms(2) t h e held_ida(1) [OF h] by (auto simp: ida_alloc_def split: if_splits option.splits)
qed

lemma create_queues_held:
  assumes h: "queues_held b [] s" and n: "unat n < 2 ^ 31"
  shows "\<exists>ret d' s'. ubbd_dev_create_queues C n pages pd d s = Some (ret, d', s') \<and>
    (if ret = 0
     then \<exists>qs. d' = d\<lparr>num_queues := n, queues := qs\<rparr> \<and> queues_held (plus_res R_queues b) qs s' \<and> length qs = unat n \<and>
       (\<forall>j < unat n. new_queue C (dev_id d) j pages (qs ! j))
     else queues_held b [] s')"
proof -
  obtain ok s1 where a: "alloc_res R_queues s = (ok, s1)" by fastforce
  show ?thesis
  proof (cases ok)
    case False
    then show ?thesis using held_alloc_plus [OF h a] a by (simp add: ubbd_dev_create_queues_def)
  next
    case True
    let ?qs = "replicate (unat n) (zero_queue pd)"
    have h1: "queues_held (plus_res R_queues b) [] s1" using held_alloc_plus [OF h a] True by simp
    have z: "zero_core (zero_queue pd)" by (simp add: zero_core_def) (simp add: zero_queue_def)
    obtain ret qs s2 where l: "create_queues_loop C (dev_id d) pages [0..<unat n] ?qs s1 = Some (ret, qs, s2)"
        "queues_held (plus_res R_queues b) qs s2" "length qs = unat n"
        "ret = 0 \<Longrightarrow> \<forall>j < unat n. new_queue C (dev_id d) j pages (qs ! j)"
      using create_queues_loop_held [OF held_blank [OF h1], of "zero_queue pd" 0 "unat n" C "dev_id d" pages] z by auto
    have sn: "nat (sint n) = unat n" using sint_pos_u32 [OF n] by simp
    obtain s3 where d: "ubbd_dev_destroy_queues (d\<lparr>num_queues := n, queues := qs\<rparr>) s2 = Some s3" "queues_held b [] s3"
      using held_queues_free_plus [of b "d\<lparr>num_queues := n, queues := qs\<rparr>" s2] l(2) by auto
    show ?thesis
      using a True l sn d by (cases "ret = 0") (auto simp: ubbd_dev_create_queues_def)
  qed
qed

text \<open>The debugfs directory of a free id is not there.\<close>

definition dfs_ok :: "ubbd_sys \<Rightarrow> bool" where
  "dfs_ok s \<longleftrightarrow> (\<exists>dir. ubbd_debugfs_devices (dfs s) = Some dir \<and>
     (\<forall>i. i \<notin> ubbd_dev_id_ida s \<longrightarrow> (\<forall>e \<in> dfs_entries (dfs s). \<not> prefix (dir @ [''ubbd'' @ dec i]) e)))"

definition new_device :: "ubbd_const \<Rightarrow> ubbd_dev_add_opts \<Rightarrow> ubbd_device \<Rightarrow> bool" where
  "new_device C opts d \<longleftrightarrow> kref d = 1 \<and> dv_status d = UBBD_DEV_KSTATUS_INIT \<and> status_flags d = 0 \<and> open_count d = 0 \<and>
     disk d = None \<and> tag_set d = None \<and> dev_id d < 2 ^ 16 \<and> dv_name d = ''ubbd'' @ dec (dev_id d) \<and>
     num_queues d = ao_num_queues opts \<and> length (queues d) = unat (ao_num_queues opts) \<and>
     (\<forall>j < length (queues d). new_queue C (dev_id d) j (ao_data_pages opts) (queues d ! j))"

lemma dev_create_rest:
  assumes h: "queues_held ((plus_res R_device s)\<lparr>ubbd_dev_id_ida := insert k (ubbd_dev_id_ida s)\<rparr>) [] s2"
    and k: "k \<notin> ubbd_dev_id_ida s" "k < 2 ^ 16" and n: "unat (ao_num_queues opts) < 2 ^ 31" and fs: "dfs_ok s"
    and d1: "d1 = zero_device\<lparr>dv_status := UBBD_DEV_KSTATUS_INIT, kref := 1, dev_id := k, dv_name := ''ubbd'' @ dec k\<rparr>"
  shows "\<exists>r s1. do {
      (ret, d2, s3) \<leftarrow> ubbd_dev_create_queues C (ao_num_queues opts) (ao_data_pages opts) pd d1 s2;
      if ret \<noteq> 0 then do { s4 \<leftarrow> dev_free0 (ida_free k s3); Some (None, s4) }
      else do {
        let (ok, s4) = alloc_res R_task_wq s3;
        if \<not> ok
        then do { s5 \<leftarrow> ubbd_dev_destroy_queues d2 s4; s6 \<leftarrow> dev_free0 (ida_free k s5); Some (None, s6) }
        else do {
          let s5 = module_add s4;
          let (dd, fs) = ubbd_debugfs_add_dev (uc_request_stats C) (dv_name d2) (unat (num_queues d2)) (dfs s5);
          Some (Some (d2\<lparr>dentries := dd\<rparr>), s5\<lparr>dfs := fs\<rparr>)
        }
      }
    } = Some (r, s1) \<and>
    (case r of None \<Rightarrow> queues_held s [] s1 | Some d \<Rightarrow> dev_held s d s1 \<and> new_device C opts d)"
proof -
  let ?b = "(plus_res R_device s)\<lparr>ubbd_dev_id_ida := insert k (ubbd_dev_id_ida s)\<rparr>"
  have undo: "\<exists>s4. dev_free0 (ida_free k s3) = Some s4 \<and> queues_held s [] s4" if h3: "queues_held ?b [] s3" for s3
  proof -
    have "ubbd_dev_id_ida s3 - {k} = ubbd_dev_id_ida s" using h3 k(1) by (auto simp: queues_held_def srest_def plus_res_def)
    then have "queues_held (plus_res R_device s) [] (ida_free k s3)"
      using held_ida(1) [OF h3, of "ubbd_dev_id_ida s"] by (simp add: ida_free_def plus_res_def)
    then show ?thesis using held_free_plus by (simp add: dev_free0_def)
  qed
  have dk: "dev_id d1 = k" using d1 by simp
  obtain ret d2 s3 where c: "ubbd_dev_create_queues C (ao_num_queues opts) (ao_data_pages opts) pd d1 s2 = Some (ret, d2, s3)"
      "if ret = 0
       then \<exists>qs. d2 = d1\<lparr>num_queues := ao_num_queues opts, queues := qs\<rparr> \<and> queues_held (plus_res R_queues ?b) qs s3 \<and>
         length qs = unat (ao_num_queues opts) \<and> (\<forall>j < unat (ao_num_queues opts). new_queue C k j (ao_data_pages opts) (qs ! j))
       else queues_held ?b [] s3"
    using create_queues_held [OF h n, of C "ao_data_pages opts" pd d1] dk by metis
  show ?thesis
  proof (cases "ret = 0")
    case False
    then show ?thesis using c undo [of s3] by auto
  next
    case True
    then obtain qs where qs: "d2 = d1\<lparr>num_queues := ao_num_queues opts, queues := qs\<rparr>" "queues_held (plus_res R_queues ?b) qs s3"
        "length qs = unat (ao_num_queues opts)" "\<forall>j < unat (ao_num_queues opts). new_queue C k j (ao_data_pages opts) (qs ! j)"
      using c(2) by auto
    obtain ok s4 where a: "alloc_res R_task_wq s3 = (ok, s4)" by fastforce
    note h4 = held_alloc_plus [OF qs(2) a]
    show ?thesis
    proof (cases ok)
      case False
      then obtain s5 where "ubbd_dev_destroy_queues d2 s4 = Some s5" "queues_held ?b [] s5"
        using held_queues_free_plus [of ?b d2 s4] h4 qs(1) by auto
      then show ?thesis using c True a False undo [of s5] by auto
    next
      case ok: True
      obtain dd fs' where ad: "ubbd_debugfs_add_dev (uc_request_stats C) (''ubbd'' @ dec k) (unat (ao_num_queues opts)) (dfs s) = (dd, fs')" by fastforce
      have d4: "dfs (module_add s4) = dfs s" using h4 ok by (simp add: queues_held_def srest_def module_add_def plus_res_def)
      define d where "d = d2\<lparr>dentries := dd\<rparr>"
      define s6 where "s6 = (module_add s4)\<lparr>dfs := fs'\<rparr>"
      have d: "dev_id d = k" "dentries d = dd" "queues d = qs" by (simp_all add: d_def qs(1) d1)
      have "(module_add (plus_res R_task_wq (plus_res R_queues ?b)))\<lparr>dfs := fs'\<rparr> = dev_base s d s6"
        by (rule ubbd_sys.equality) (auto simp: module_add_def plus_res_def dev_base_def d s6_def)
      moreover have "queues_held ((module_add (plus_res R_task_wq (plus_res R_queues ?b)))\<lparr>dfs := fs'\<rparr>) qs s6"
        unfolding s6_def by (intro held_ida(2) held_module(1)) (use h4 ok in simp)
      moreover have "snd (ubbd_debugfs_remove_dev dd fs') = dfs s"
        using fs k(1) ad debugfs_add_remove [of "dfs s" _ "''ubbd'' @ dec k" "uc_request_stats C" "unat (ao_num_queues opts)"] by (auto simp: dfs_ok_def)
      ultimately have "dev_held s d s6" using k(1) d by (simp add: dev_held_def s6_def)
      moreover have "new_device C opts d"
        using qs k(2) by (simp add: new_device_def d_def d1 zero_device_def)
      ultimately show ?thesis using c True a ok ad d4 qs(1) by (simp add: d1 d_def s6_def)
    qed
  qed
qed

lemma dev_create_held:
  assumes reg: "registry_ok (kring s)" and n: "unat (ao_num_queues opts) < 2 ^ 31" and fs: "dfs_ok s"
  shows "\<exists>r s1. ubbd_dev_create C pd opts s = Some (r, s1) \<and>
    (case r of None \<Rightarrow> queues_held s [] s1 | Some d \<Rightarrow> dev_held s d s1 \<and> new_device C opts d)"
proof -
  obtain ok s1 where a: "alloc_res R_device s = (ok, s1)" by fastforce
  note h1 = held_alloc_plus [OF held_self [OF reg] a]
  show ?thesis
  proof (cases ok)
    case False
    then show ?thesis using a h1 by (simp add: ubbd_dev_create_def dev_create0_def)
  next
    case True
    define d0 where "d0 = zero_device\<lparr>dv_status := UBBD_DEV_KSTATUS_INIT, kref := 1\<rparr>"
    have c0: "dev_create0 s = (Some d0, s1)" using a True by (simp add: dev_create0_def d0_def)
    obtain r s2 where i: "ida_alloc s1 = (r, s2)" by fastforce
    note h2 = ida_alloc_held [OF h1 i]
    show ?thesis
    proof (cases r)
      case None
      then obtain s3 where "free_res R_device s2 = Some s3" "queues_held s [] s3"
        using held_free_plus [of R_device s "[]" s2] h2 True by auto
      then show ?thesis using c0 i None by (simp add: ubbd_dev_create_def dev_free0_def)
    next
      case (Some k)
      have u: "queues_held ((plus_res R_device s)\<lparr>ubbd_dev_id_ida := insert k (ubbd_dev_id_ida s)\<rparr>) [] s2" "k \<notin> ubbd_dev_id_ida s" "k < 2 ^ 16"
        using h2 Some True by (simp_all add: plus_res_def)
      show ?thesis
        using dev_create_rest [OF u n fs refl, of C pd] c0 i Some by (simp add: ubbd_dev_create_def d0_def)
    qed
  qed
qed

end
