(* ===== verification/Device_Add.thy ===== *)
theory Device_Add
  imports Device_Life
begin

text \<open>
  Adding and removing a device: what it holds once its disk is set up, and that both
  directions account for all of it.
\<close>

section \<open>What a device holds\<close>

lemma dev_base_plus: "dev_base (plus_res x s0) d s = plus_res x (dev_base s0 d s)"
  by (rule ubbd_sys.equality) (auto simp: dev_base_def plus_res_def module_add_def)

lemma dev_base_dfs: "dfs s1 = dfs s \<Longrightarrow> dev_base s0 d s1 = dev_base s0 d s"
  by (simp add: dev_base_def)

lemma dev_held_ret: "dev_held s0 d s \<Longrightarrow> take_ret s = (r, s1) \<Longrightarrow> dev_held s0 d s1"
  using held_ret [of "dev_base s0 d s" "queues d" s r s1] take_ret_frame(6) [of s r s1] dev_base_dfs [of s1 s s0 d]
  by (simp add: dev_held_def)

lemma dev_held_got: "dev_held s0 d s \<Longrightarrow> dev_held (plus_res x s0) d (got_res x s)"
proof -
  assume h: "dev_held s0 d s"
  have "queues_held (plus_res x (dev_base s0 d s)) (queues d) (got_res x s)"
    using h by (auto simp: dev_held_def queues_held_def plus_res_def got_res_def srest_def)
  then show ?thesis
    using h dev_base_dfs [of "got_res x s" s "plus_res x s0" d] dev_base_plus [of x s0 d s]
    by (simp add: dev_held_def) (simp add: plus_res_def got_res_def)
qed

lemma dev_held_alloc: "dev_held s0 d s \<Longrightarrow> alloc_res x s = (ok, s1) \<Longrightarrow> dev_held (if ok then plus_res x s0 else s0) d s1"
  using dev_held_ret [of s0 d s] dev_held_got by (auto simp: alloc_res_def split: prod.splits if_splits)

lemma dev_held_free: "dev_held (plus_res x s0) d s \<Longrightarrow> \<exists>s1. free_res x s = Some s1 \<and> dev_held s0 d s1 \<and> s1 = s\<lparr>live := live s1\<rparr>"
proof -
  assume h: "dev_held (plus_res x s0) d s"
  then obtain s1 where s1: "free_res x s = Some s1" "queues_held (dev_base s0 d s) (queues d) s1"
    using held_free_plus [of x "dev_base s0 d s" "queues d" s] by (auto simp: dev_held_def dev_base_plus)
  then have e: "s1 = s\<lparr>live := live s1\<rparr>" by (auto simp: free_res_def split: if_splits)
  then have "dfs s1 = dfs s" by (metis ubbd_sys.select_convs(11) ubbd_sys.surjective ubbd_sys.update_convs(4))
  then show ?thesis using h s1 e dev_base_dfs [of s1 s s0 d] by (simp add: dev_held_def plus_res_def)
qed

text \<open>The queues after blk-mq has set them up: other hardware contexts, other CPU masks.\<close>

definition same_but_hctx :: "dev_queue \<Rightarrow> dev_queue \<Rightarrow> bool" where
  "same_but_hctx q q' \<longleftrightarrow> dq_core q' = dq_core q \<and> dq_index q' = dq_index q \<and> dq_sb q' = dq_sb q \<and> dq_bitmap q' = dq_bitmap q \<and>
     dq_info q' = dq_info q \<and> dq_mmap_pages q' = dq_mmap_pages q \<and> dq_backend_pid q' = dq_backend_pid q"

lemma same_but_hctxD:
  assumes "same_but_hctx q q'"
  shows "dq_core q' = dq_core q" "dq_info q' = dq_info q" "uses r q' = uses r q" "queue_ok q' = queue_ok q"
  using assms by (auto simp: same_but_hctx_def uses_def queue_ok_def split: res.splits)

lemma held_hctx:
  assumes "queues_held b qs s" and l: "list_all2 same_but_hctx qs qs'"
  shows "queues_held b qs' s"
proof -
  have "q_keys qs' = q_keys qs \<and> all_pages qs' = all_pages qs \<and> pages_apart qs' = pages_apart qs \<and>
      (\<forall>r. (\<Sum>q\<leftarrow>qs'. uses r q) = (\<Sum>q\<leftarrow>qs. uses r q)) \<and> ((\<forall>q \<in> set qs'. queue_ok q) \<longleftrightarrow> (\<forall>q \<in> set qs. queue_ok q))"
    using l by (induction rule: list_all2_induct) (simp_all add: same_but_hctxD split: option.splits)
  then show ?thesis using assms(1) by (simp add: queues_held_def)
qed

lemma dev_held_cong:
  assumes "dev_held s0 d s" and "dev_id d' = dev_id d" and "dentries d' = dentries d" and "list_all2 same_but_hctx (queues d) (queues d')"
  shows "dev_held s0 d' s"
  using assms held_hctx by (auto simp: dev_held_def dev_base_def)

lemma same_but_hctx_refl [simp]: "same_but_hctx q q" by (simp add: same_but_hctx_def)

lemma same_but_hctx_trans: "same_but_hctx q q1 \<Longrightarrow> same_but_hctx q1 q2 \<Longrightarrow> same_but_hctx q q2" by (simp add: same_but_hctx_def)

lemma hctx_refl [simp]: "list_all2 same_but_hctx qs qs" by (simp add: list_all2_refl)

lemma hctx_update: "i < length qs \<Longrightarrow> same_but_hctx (qs ! i) q \<Longrightarrow> list_all2 same_but_hctx qs (qs[i := q])"
  by (auto simp: list_all2_conv_all_nth nth_list_update)

lemma hctx_trans: "list_all2 same_but_hctx qs qs1 \<Longrightarrow> list_all2 same_but_hctx qs1 qs2 \<Longrightarrow> list_all2 same_but_hctx qs qs2"
  by (rule list_all2_trans [OF same_but_hctx_trans])

lemma init_hctxs_ok:
  "\<forall>i \<in> set is. i < length qs \<Longrightarrow> \<exists>qs'. init_hctxs is qs = Some qs' \<and> list_all2 same_but_hctx qs qs' \<and>
     (\<forall>j < length qs. dq_hctx (qs' ! j) = (if j \<in> set is then Some j else dq_hctx (qs ! j)))"
proof (induction "is" arbitrary: qs)
  case (Cons i "is")
  let ?qs = "qs[i := (qs ! i)\<lparr>dq_hctx := Some i\<rparr>]"
  have i: "i < length qs" using Cons.prems by simp
  then obtain qs' where q: "init_hctxs is ?qs = Some qs'" "list_all2 same_but_hctx ?qs qs'"
      "\<forall>j < length qs. dq_hctx (qs' ! j) = (if j \<in> set is then Some j else dq_hctx (?qs ! j))"
    using Cons.IH [of ?qs] Cons.prems by auto
  moreover have "list_all2 same_but_hctx qs ?qs" using i by (intro hctx_update) (simp_all add: same_but_hctx_def)
  ultimately show ?case using i by (auto simp: ubbd_init_hctx_def nth_list_update intro: hctx_trans)
qed simp

lemma init_cpumask_ok:
  "\<forall>cpu \<in> set cpus. mq cpu < length qs \<Longrightarrow> \<exists>qs'. ubbd_init_queue_cpumask mq cpus qs = Some qs' \<and> list_all2 same_but_hctx qs qs' \<and>
     (\<forall>j < length qs. dq_hctx (qs' ! j) = dq_hctx (qs ! j))"
proof (induction cpus arbitrary: qs)
  case (Cons cpu cpus)
  let ?i = "mq cpu"
  let ?q = "(qs ! ?i)\<lparr>dq_cpumask := (if cpu \<in> set (dq_cpumask (qs ! ?i)) then dq_cpumask (qs ! ?i) else dq_cpumask (qs ! ?i) @ [cpu])\<rparr>"
  have i: "?i < length qs" using Cons.prems by simp
  obtain qs' where q: "ubbd_init_queue_cpumask mq cpus (qs[?i := ?q]) = Some qs'" "list_all2 same_but_hctx (qs[?i := ?q]) qs'"
      "\<forall>j < length qs. dq_hctx (qs' ! j) = dq_hctx (qs[?i := ?q] ! j)"
    using Cons.IH [of "qs[?i := ?q]"] Cons.prems by auto
  have "list_all2 same_but_hctx qs (qs[?i := ?q])" using i by (intro hctx_update) (simp_all add: same_but_hctx_def)
  then have "list_all2 same_but_hctx qs qs'" using q(2) by (rule hctx_trans)
  moreover have "dq_hctx (qs[?i := ?q] ! j) = dq_hctx (qs ! j)" if "j < length qs" for j using i that by (simp add: nth_list_update)
  ultimately show ?case using q i by (auto simp: Let_def)
qed simp

section \<open>The disk of a device\<close>

text \<open>What blk-mq guarantees: every CPU is mapped to one of the hardware queues.\<close>

definition mq_map_ok :: "ubbd_const \<Rightarrow> ubbd_device \<Rightarrow> bool" where
  "mq_map_ok C d \<longleftrightarrow> (\<forall>cpu \<in> set (uc_cpus C). uc_mq_map C cpu < unat (num_queues d))"

definition hctx_ok :: "dev_queue list \<Rightarrow> bool" where
  "hctx_ok qs \<longleftrightarrow> (\<forall>j < length qs. dq_hctx (qs ! j) = Some j)"

lemma disk_ready_ok:
  assumes "length (queues d) = unat (num_queues d)" and "mq_map_ok C d"
  shows "\<exists>qs. disk_ready C d s = Some (d\<lparr>queues := qs, disk := Some (new_disk C d (def_limits s))\<rparr>) \<and>
    list_all2 same_but_hctx (queues d) qs \<and> hctx_ok qs"
proof -
  obtain q1 where q1: "init_hctxs [0..<unat (num_queues d)] (queues d) = Some q1" "list_all2 same_but_hctx (queues d) q1"
      "\<forall>j < unat (num_queues d). dq_hctx (q1 ! j) = Some j"
    using init_hctxs_ok [of "[0..<unat (num_queues d)]" "queues d"] assms(1) by auto
  have len: "length q1 = unat (num_queues d)" using list_all2_lengthD [OF q1(2)] assms(1) by simp
  obtain q2 where q2: "ubbd_init_queue_cpumask (uc_mq_map C) (uc_cpus C) q1 = Some q2" "list_all2 same_but_hctx q1 q2"
      "\<forall>j < length q1. dq_hctx (q2 ! j) = dq_hctx (q1 ! j)"
    using init_cpumask_ok [of "uc_cpus C" "uc_mq_map C" q1] assms(2) len by (auto simp: mq_map_ok_def)
  have "hctx_ok q2" using q1(3) q2(3) len list_all2_lengthD [OF q2(2)] by (simp add: hctx_ok_def)
  then show ?thesis using q1 q2 hctx_trans [OF q1(2) q2(2)] by (auto simp: disk_ready_def)
qed

lemma plus_res_commute: "plus_res x (plus_res y s) = plus_res y (plus_res x s)"
  by (rule ubbd_sys.equality) (auto simp: plus_res_def)

abbreviation with_disk :: "ubbd_sys \<Rightarrow> ubbd_sys" where
  "with_disk s \<equiv> plus_res R_disk (plus_res R_tag_set s)"

text \<open>A device after \<open>ubbd_init_disk\<close>.\<close>

definition disk_made :: "ubbd_const \<Rightarrow> queue_limits \<Rightarrow> ubbd_device \<Rightarrow> ubbd_device \<Rightarrow> bool" where
  "disk_made C l d d' \<longleftrightarrow> (\<exists>qs. d' = d\<lparr>tag_set := Some (new_tag_set C d), queues := qs, disk := Some (new_disk C d l)\<rparr> \<and>
     list_all2 same_but_hctx (queues d) qs \<and> hctx_ok qs)"

lemma disk_ready_made:
  assumes "length (queues d) = unat (num_queues d)" and "mq_map_ok C d"
  shows "\<exists>d'. disk_ready C (d\<lparr>tag_set := Some (new_tag_set C d)\<rparr>) s = Some d' \<and> disk_made C (def_limits s) d d'"
  using disk_ready_ok [of "d\<lparr>tag_set := Some (new_tag_set C d)\<rparr>" C s] assms
  by (auto simp: disk_made_def mq_map_ok_def new_disk_def)

lemma disk_made_held: "dev_held s0 d s \<Longrightarrow> disk_made C l d d' \<Longrightarrow> dev_held s0 d' s"
  by (rule dev_held_cong [of s0 d s]) (auto simp: disk_made_def)

lemma def_limits_kept: "take_ret s = (r, s1) \<Longrightarrow> def_limits s1 = def_limits s" "def_limits (got_res x s) = def_limits s"
  "alloc_res x s = (ok, s1) \<Longrightarrow> def_limits s1 = def_limits s"
  by (auto simp: take_ret_def got_res_def alloc_res_def split: list.splits prod.splits if_splits)

lemma init_disk_mq_held:
  assumes h: "dev_held s0 d s" and d: "length (queues d) = unat (num_queues d)" "mq_map_ok C d" "tag_set d = None"
  shows "\<exists>ret d' s'. init_disk_mq C d s = Some (ret, d', s') \<and>
    (if ret = 0 then dev_held (with_disk s0) d' s' \<and> disk_made C (def_limits s) d d' else dev_held s0 d' s' \<and> d' = d)"
proof -
  obtain err s1 where t1: "take_ret s = (err, s1)" by fastforce
  note h1 = dev_held_ret [OF h t1]
  obtain err2 s2 where t2: "take_ret (got_res R_tag_set s1) = (err2, s2)" by fastforce
  note h2 = dev_held_ret [OF dev_held_got [OF h1] t2]
  have l: "def_limits s2 = def_limits s" using def_limits_kept(1) [OF t1] def_limits_kept(1) [OF t2] by (simp add: def_limits_kept(2))
  obtain d' where r: "disk_ready C (d\<lparr>tag_set := Some (new_tag_set C d)\<rparr>) s2 = Some d'" "disk_made C (def_limits s) d d'"
    using disk_ready_made [OF d(1,2), of s2] l by auto
  obtain s3 where f: "free_res R_tag_set s2 = Some s3" "dev_held s0 d s3" using dev_held_free [OF h2] by blast
  have "d\<lparr>tag_set := None\<rparr> = d" using d(3) by simp
  then have "init_disk_mq C d s = Some (if err \<noteq> 0 then (err, d, s1) else if err2 \<noteq> 0 then (err2, d, s3) else (0, d', got_res R_disk s2))"
    using t1 t2 r(1) f(1) by (simp add: init_disk_mq_def Let_def)
  then show ?thesis using h1 f(2) r(2) dev_held_got [OF disk_made_held [OF h2 r(2)], of R_disk] by (auto split: if_splits)
qed

lemma init_disk_alloc_held:
  assumes h: "dev_held s0 d s" and d: "length (queues d) = unat (num_queues d)" "mq_map_ok C d" "tag_set d = None"
  shows "\<exists>ret d' s'. init_disk_alloc C d s = Some (ret, d', s') \<and>
    (if ret = 0 then dev_held (with_disk s0) d' s' \<and> disk_made C (def_limits s) d d' else dev_held s0 d' s' \<and> d' = d)"
proof -
  obtain ok s1 where a: "alloc_res R_disk s = (ok, s1)" by fastforce
  note h1 = dev_held_alloc [OF h a]
  show ?thesis
  proof (cases ok)
    case False
    then show ?thesis using a h1 by (simp add: init_disk_alloc_def)
  next
    case True
    obtain err s2 where t1: "take_ret s1 = (err, s2)" by fastforce
    have h2: "dev_held (plus_res R_disk s0) d s2" using dev_held_ret [OF h1 t1] True by simp
    obtain err2 s4 where t2: "take_ret (got_res R_tag_set s2) = (err2, s4)" by fastforce
    note h4 = dev_held_ret [OF dev_held_got [OF h2] t2]
    have l: "def_limits s4 = def_limits s"
      using def_limits_kept(3) [OF a] def_limits_kept(1) [OF t1] def_limits_kept(1) [OF t2] by (simp add: def_limits_kept(2))
    obtain d' where r: "disk_ready C (d\<lparr>tag_set := Some (new_tag_set C d)\<rparr>) s4 = Some d'" "disk_made C (def_limits s) d d'"
      using disk_ready_made [OF d(1,2), of s4] l by auto
    obtain s3 where f: "free_res R_disk s2 = Some s3" "dev_held s0 d s3" using dev_held_free [OF h2] by blast
    obtain s5 where f5: "free_res R_tag_set s4 = Some s5" "dev_held (plus_res R_disk s0) d s5" using dev_held_free [OF h4] by blast
    obtain s6 where f6: "free_res R_disk s5 = Some s6" "dev_held s0 d s6" using dev_held_free [OF f5(2)] by blast
    have "d\<lparr>tag_set := None\<rparr> = d" using d(3) by simp
    then have "init_disk_alloc C d s = Some (if err \<noteq> 0 then (err, d, s3) else if err2 \<noteq> 0 then (err2, d, s6) else (0, d', s4))"
      using a True t1 t2 r(1) f(1) f5(1) f6(1) by (simp add: init_disk_alloc_def Let_def)
    then show ?thesis
      using f(2) f6(2) r(2) disk_made_held [OF h4 r(2)] plus_res_commute [of R_tag_set R_disk s0] by (auto split: if_splits)
  qed
qed

lemma init_disk_held:
  assumes "dev_held s0 d s" and "length (queues d) = unat (num_queues d)" "mq_map_ok C d" "tag_set d = None"
  shows "\<exists>ret d' s'. ubbd_init_disk C d s = Some (ret, d', s') \<and>
    (if ret = 0 then dev_held (with_disk s0) d' s' \<and> disk_made C (def_limits s) d d' else dev_held s0 d' s' \<and> d' = d)"
  using init_disk_alloc_held [OF assms] init_disk_mq_held [OF assms] by (simp add: ubbd_init_disk_def)

text \<open>A device after \<open>ubbd_dev_device_setup\<close>.\<close>

definition set_up :: "ubbd_const \<Rightarrow> int \<Rightarrow> queue_limits \<Rightarrow> ubbd_device \<Rightarrow> ubbd_device \<Rightarrow> bool" where
  "set_up C major l d d' \<longleftrightarrow> (\<exists>d1 gd. disk_made C l (d\<lparr>dv_major := major, dv_minor := ubbd_dev_id_to_minor (int (dev_id d))\<rparr>) d1 \<and>
     d' = d1\<lparr>disk := Some gd\<rparr> \<and> gd_name gd = ''ubbd'' @ dec (dev_id d) \<and> gd_major gd = major \<and>
     gd_first_minor gd = ubbd_dev_id_to_minor (int (dev_id d)) \<and> gd_minors gd = 16 \<and> gd_capacity gd = dev_size d div 512 \<and>
     gd_ro gd = feature (UBBD_ATTR_FLAGS_ADD_READONLY C) d \<and> gd_rq_timeout gd = io_timeout d * HZ C \<and> \<not> gd_added gd \<and>
     gd_lim gd = (if uc_kernel_6_8 C then setup_limits_6_8 C d (init_limits_6_8 l) else setup_limits_old C d (init_limits_old l)))"

lemma setup_limits_cong:
  "dev_features d' = dev_features d \<Longrightarrow> setup_limits_6_8 C d' l = setup_limits_6_8 C d l \<and> setup_limits_old C d' l = setup_limits_old C d l"
proof -
  assume "dev_features d' = dev_features d"
  then have "feature m d' = feature m d" for m by (simp add: feature_def)
  then show ?thesis by (simp add: setup_limits_6_8_def setup_limits_old_def cong: if_cong)
qed

lemma device_setup_held:
  assumes h: "dev_held s0 d s" and d: "length (queues d) = unat (num_queues d)" "mq_map_ok C d" "tag_set d = None" "disk d = None"
  shows "\<exists>ret d' s'. ubbd_dev_device_setup C d s = Some (ret, d', s') \<and> kref d' = kref d \<and>
    (if ret = 0 then dev_held (with_disk s0) d' s' \<and> set_up C (ubbd_major s) (def_limits s) d d'
     else if disk d' = None then dev_held s0 d' s' else uc_kernel_6_8 C \<and> dev_held (with_disk s0) d' s')"
proof -
  define d1 where "d1 = d\<lparr>dv_major := ubbd_major s, dv_minor := ubbd_dev_id_to_minor (int (dev_id d))\<rparr>"
  have h1: "dev_held s0 d1 s" by (rule dev_held_cong [OF h]) (simp_all add: d1_def)
  obtain ret d2 s1 where i: "ubbd_init_disk C d1 s = Some (ret, d2, s1)"
      "if ret = 0 then dev_held (with_disk s0) d2 s1 \<and> disk_made C (def_limits s) d1 d2 else dev_held s0 d2 s1 \<and> d2 = d1"
    using init_disk_held [OF h1, of C] d by (auto simp: d1_def mq_map_ok_def)
  show ?thesis
  proof (cases "ret = 0")
    case False
    then show ?thesis using i d(4) by (auto simp: ubbd_dev_device_setup_def d1_def)
  next
    case True
    then have m: "disk_made C (def_limits s) d1 d2" and h2: "dev_held (with_disk s0) d2 s1" using i by auto
    obtain qs where d2: "d2 = d1\<lparr>tag_set := Some (new_tag_set C d1), queues := qs, disk := Some (new_disk C d1 (def_limits s))\<rparr>"
      using m by (auto simp: disk_made_def)
    have k: "dev_held (with_disk s0) (d2\<lparr>disk := g\<rparr>) s" if "dev_held (with_disk s0) d2 s" for g s
      by (rule dev_held_cong [OF that]) simp_all
    obtain r2 s2 where t: "take_ret s1 = (r2, s2)" by fastforce
    note h3 = dev_held_ret [OF h2 t]
    have f: "feature x d2 = feature x d" "dev_size d2 = dev_size d" "kref d2 = kref d" for x by (simp_all add: feature_def d2 d1_def)
    have l: "setup_limits_6_8 C d2 x = setup_limits_6_8 C d x" "setup_limits_old C d2 x = setup_limits_old C d x" for x
      using setup_limits_cong [of d2 d C x] by (simp_all add: d2 d1_def)
    define gd where "gd = (new_disk C d1 (def_limits s))\<lparr>gd_capacity := dev_size d div 512, gd_ro := feature (UBBD_ATTR_FLAGS_ADD_READONLY C) d\<rparr>"
    define gd6 where "gd6 = gd\<lparr>gd_lim := setup_limits_6_8 C d (gd_lim gd)\<rparr>"
    define gdo where "gdo = gd\<lparr>gd_lim := setup_limits_old C d (gd_lim gd)\<rparr>"
    have dk: "disk d2 = Some (new_disk C d1 (def_limits s))" by (simp add: d2)
    have e: "ubbd_dev_device_setup C d s = Some (if uc_kernel_6_8 C then (r2, if r2 \<noteq> 0 then d2\<lparr>disk := Some gd\<rparr> else d2\<lparr>disk := Some gd6\<rparr>, s2)
        else (0, d2\<lparr>disk := Some gdo\<rparr>, s1))"
      using i(1) True t f l dk unfolding d1_def [symmetric]
      by (simp add: ubbd_dev_device_setup_def upd_disk_def gd_def gd6_def gdo_def Let_def d1_def [symmetric])
    have "set_up C (ubbd_major s) (def_limits s) d (d2\<lparr>disk := Some (if uc_kernel_6_8 C then gd6 else gdo)\<rparr>)"
      unfolding set_up_def using m
      by (intro exI [of _ d2] exI [of _ "if uc_kernel_6_8 C then gd6 else gdo"])
        (simp add: d1_def gd6_def gdo_def gd_def new_disk_def)
    then show ?thesis using e k [OF h2] k [OF h3] f(3) by (auto split: if_splits)
  qed
qed

section \<open>Adding and removing a device\<close>

lemma dev_held_rest:
  assumes "dev_held b d s"
  shows "dev_held (b\<lparr>devices := D\<rparr>) d (s\<lparr>devices := D\<rparr>)" "dev_held (b\<lparr>dev_next := n\<rparr>) d (s\<lparr>dev_next := n\<rparr>)"
    "dev_held (b\<lparr>ubbd_dev_list := l\<rparr>) d (s\<lparr>ubbd_dev_list := l\<rparr>)"
    "dev_held (b\<lparr>ubbd_total_devs := t\<rparr>) d (s\<lparr>ubbd_total_devs := t\<rparr>)"
  using assms by (simp_all add: dev_held_def dev_base_def queues_held_def srest_def module_add_def)

lemma dev_held_srest:
  assumes "dev_held b d s"
  shows "devices s = devices b" "dev_next s = dev_next b" "ubbd_dev_list s = ubbd_dev_list b" "ubbd_total_devs s = ubbd_total_devs b"
    "ubbd_major s = ubbd_major b" "def_limits s = def_limits b"
  using assms by (simp_all add: dev_held_def dev_base_def queues_held_def srest_def module_add_def)

lemma with_disk_rest:
  "(with_disk b)\<lparr>devices := D\<rparr> = with_disk (b\<lparr>devices := D\<rparr>)" "(with_disk b)\<lparr>dev_next := n\<rparr> = with_disk (b\<lparr>dev_next := n\<rparr>)"
  "(with_disk b)\<lparr>ubbd_dev_list := l\<rparr> = with_disk (b\<lparr>ubbd_dev_list := l\<rparr>)"
  "(with_disk b)\<lparr>ubbd_total_devs := t\<rparr> = with_disk (b\<lparr>ubbd_total_devs := t\<rparr>)"
  by (simp_all add: plus_res_def)

lemma put_last:
  assumes h: "dev_held b d s" and d: "devices s k = Some d" "kref d = 1"
  shows "\<exists>s'. ubbd_dev_put k s = Some s' \<and> queues_held (b\<lparr>devices := (devices b)(k := None)\<rparr>) [] s'"
  using dev_destroy_held [OF dev_held_rest(1) [OF h, of "(devices b)(k := None)"]] d dev_held_srest(1) [OF h]
  by (auto simp: ubbd_dev_put_def)

lemma free_disk_held:
  assumes h: "dev_held (with_disk b) d s" and d: "devices s k = Some d" "disk d \<noteq> None"
  shows "\<exists>s'. ubbd_free_disk k s = Some s' \<and> devices s' = (devices s)(k \<mapsto> d\<lparr>disk := None, tag_set := None\<rparr>) \<and>
    dev_held (b\<lparr>devices := devices s'\<rparr>) (d\<lparr>disk := None, tag_set := None\<rparr>) s'"
proof -
  obtain s1 where s1: "free_res R_disk s = Some s1" "dev_held (plus_res R_tag_set b) d s1" using dev_held_free [OF h] by blast
  obtain s2 where s2: "free_res R_tag_set s1 = Some s2" "dev_held b d s2" using dev_held_free [OF s1(2)] by blast
  have e: "devices s2 = devices s"
    using dev_held_srest(1) [OF h] dev_held_srest(1) [OF s2(2)] by (simp add: plus_res_def)
  let ?d = "d\<lparr>disk := None, tag_set := None\<rparr>"
  have "dev_held b ?d s2" by (rule dev_held_cong [OF s2(2)]) simp_all
  then have "dev_held (b\<lparr>devices := (devices s)(k \<mapsto> ?d)\<rparr>) ?d (s2\<lparr>devices := (devices s)(k \<mapsto> ?d)\<rparr>)" by (rule dev_held_rest(1))
  then show ?thesis using s1(1) s2(1) d e by (auto simp: ubbd_free_disk_def upd_dev_def)
qed

definition removable :: "ubbd_const \<Rightarrow> ubbd_device \<Rightarrow> bool" where
  "removable C d \<longleftrightarrow> disk d \<noteq> None \<and> \<not> ubbd_dev_status_flags_test C d UBBD_DEV_STATUS_FLAG_INTRANS \<and>
     (dv_status d = UBBD_DEV_KSTATUS_REMOVING \<or> dv_status d = UBBD_DEV_KSTATUS_PREPARED)"

lemma remove_dev_held:
  assumes h: "dev_held (with_disk b) d s" and d: "devices s k = Some d" "removable C d" "kref d = 1"
  shows "\<exists>s'. ubbd_dev_remove_dev C k s = Some (0, s') \<and>
    queues_held (b\<lparr>devices := (devices b)(k := None), ubbd_dev_list := remove1 k (ubbd_dev_list b),
      ubbd_total_devs := ubbd_total_devs b - 1\<rparr>) [] s'"
proof -
  let ?b = "b\<lparr>ubbd_total_devs := ubbd_total_devs b - 1, ubbd_dev_list := remove1 k (ubbd_dev_list b)\<rparr>"
  define s1 where "s1 = s\<lparr>ubbd_total_devs := ubbd_total_devs s - 1, ubbd_dev_list := remove1 k (ubbd_dev_list s)\<rparr>"
  note r = dev_held_srest [OF h]
  have h1: "dev_held (with_disk ?b) d s1"
    using dev_held_rest(3) [OF dev_held_rest(4) [OF h, of "ubbd_total_devs b - 1"], of "remove1 k (ubbd_dev_list b)"] r
    by (simp add: with_disk_rest s1_def) (simp add: plus_res_def)
  obtain s2 where s2: "ubbd_free_disk k s1 = Some s2" "devices s2 = (devices s)(k \<mapsto> d\<lparr>disk := None, tag_set := None\<rparr>)"
      "dev_held (?b\<lparr>devices := devices s2\<rparr>) (d\<lparr>disk := None, tag_set := None\<rparr>) s2"
    using free_disk_held [OF h1, of k] d by (auto simp: s1_def removable_def)
  have "devices s2 k = Some (d\<lparr>disk := None, tag_set := None\<rparr>)" using s2(2) by simp
  from put_last [OF s2(3) this] d(3) obtain s3 where
    s3: "ubbd_dev_put k s2 = Some s3" "queues_held (?b\<lparr>devices := (devices s2)(k := None)\<rparr>) [] s3" by auto
  have "(devices s2)(k := None) = (devices b)(k := None)" using s2(2) r(1) by (simp add: plus_res_def)
  then have "queues_held (b\<lparr>devices := (devices b)(k := None), ubbd_dev_list := remove1 k (ubbd_dev_list b),
      ubbd_total_devs := ubbd_total_devs b - 1\<rparr>) [] s3"
    using s3(2) by (simp add: queues_held_def srest_def)
  moreover have "ubbd_dev_remove_dev C k s = Some (0, s3)"
    using d s2(1) s3(1) by (auto simp: ubbd_dev_remove_dev_def ubbd_dev_state_get_lock_def s1_def removable_def)
  ultimately show ?thesis by blast
qed

definition sys_ok :: "ubbd_sys \<Rightarrow> bool" where
  "sys_ok s \<longleftrightarrow> registry_ok (kring s) \<and> dfs_ok s \<and> devices s (dev_next s) = None \<and> dev_next s \<notin> set (ubbd_dev_list s)"

definition opts_ok :: "ubbd_const \<Rightarrow> ubbd_dev_add_opts \<Rightarrow> bool" where
  "opts_ok C opts \<longleftrightarrow> unat (ao_num_queues opts) < 2 ^ 31 \<and> (\<forall>cpu \<in> set (uc_cpus C). uc_mq_map C cpu < unat (ao_num_queues opts))"

text \<open>A device \<open>ubbd_dev_add_dev\<close> has prepared: one reference, the list's; its disk set up as asked.\<close>

definition prepared :: "ubbd_const \<Rightarrow> ubbd_sys \<Rightarrow> ubbd_dev_add_opts \<Rightarrow> ubbd_device \<Rightarrow> bool" where
  "prepared C s opts d \<longleftrightarrow> dv_status d = UBBD_DEV_KSTATUS_PREPARED \<and> status_flags d = 0 \<and> kref d = 1 \<and> open_count d = 0 \<and>
     (\<exists>d0 d1. new_device C opts d0 \<and> d1 = d0\<lparr>dev_size := ao_device_size opts, dev_features := ao_dev_features opts,
        io_timeout := ao_io_timeout opts\<rparr> \<and> set_up C (ubbd_major s) (def_limits s) d1 (d\<lparr>dv_status := UBBD_DEV_KSTATUS_INIT\<rparr>))"

definition with_dev :: "ubbd_sys \<Rightarrow> ubbd_device \<Rightarrow> ubbd_sys" where
  "with_dev s d = s\<lparr>dev_next := dev_next s + 1, devices := (devices s)(dev_next s \<mapsto> d),
     ubbd_total_devs := ubbd_total_devs s + 1, ubbd_dev_list := ubbd_dev_list s @ [dev_next s]\<rparr>"

lemma add_dev_fail:
  assumes h: "dev_held b d s" and k: "kref d = 1" "devices b key = None"
  shows "\<exists>s'. ubbd_dev_put key (s\<lparr>devices := (devices s)(key \<mapsto> d)\<rparr>) = Some s' \<and> queues_held b [] s'"
proof -
  have e: "devices s = devices b" by (rule dev_held_srest(1) [OF h])
  have "dev_held (b\<lparr>devices := (devices b)(key \<mapsto> d)\<rparr>) d (s\<lparr>devices := (devices s)(key \<mapsto> d)\<rparr>)"
    unfolding e by (rule dev_held_rest(1) [OF h])
  from put_last [OF this, of key] k have "\<exists>s'. ubbd_dev_put key (s\<lparr>devices := (devices s)(key \<mapsto> d)\<rparr>) = Some s' \<and>
      queues_held (b\<lparr>devices := (devices b)(key := None)\<rparr>) [] s'" by (simp cong: if_cong)
  moreover have "(devices b)(key := None) = devices b" using k(2) by (simp add: fun_upd_idem)
  ultimately show ?thesis by simp
qed

lemma add_dev_success:
  assumes h: "dev_held (with_disk b) d s" and b: "b = s0\<lparr>dev_next := dev_next s0 + 1\<rparr>" and key: "key = dev_next s0"
    and d': "d' = d\<lparr>dv_status := UBBD_DEV_KSTATUS_PREPARED\<rparr>"
    and s': "s' = s\<lparr>devices := (devices s)(key \<mapsto> d'), ubbd_total_devs := ubbd_total_devs s + 1, ubbd_dev_list := ubbd_dev_list s @ [key]\<rparr>"
  shows "dev_held (with_disk (with_dev s0 d')) d' s'"
proof -
  note r = dev_held_srest [OF h]
  have "dev_held (with_disk b) d' s" by (rule dev_held_cong [OF h]) (simp_all add: d')
  from dev_held_rest(3) [OF dev_held_rest(4) [OF dev_held_rest(1) [OF this, of "(devices s0)(key \<mapsto> d')"], of "ubbd_total_devs s0 + 1"],
      of "ubbd_dev_list s0 @ [key]"]
  show ?thesis using r by (simp add: with_disk_rest b s' key with_dev_def) (simp add: plus_res_def)
qed

lemma add_dev_held:
  assumes ok: "sys_ok s" and op: "opts_ok C opts"
  shows "\<exists>ret key s'. ubbd_dev_add_dev C pd opts s = Some (ret, key, s') \<and>
    (case key of
       Some k \<Rightarrow> ret = 0 \<and> k = dev_next s \<and> (\<exists>d. devices s' k = Some d \<and> prepared C s opts d \<and> dev_held (with_disk (with_dev s d)) d s')
     | None \<Rightarrow> ret \<noteq> 0 \<and> (queues_held (s\<lparr>dev_next := dev_next s'\<rparr>) [] s' \<or>
         uc_kernel_6_8 C \<and> queues_held (with_disk (s\<lparr>dev_next := dev_next s'\<rparr>)) [] s'))"
proof -
  obtain r s1 where c: "ubbd_dev_create C pd opts s = Some (r, s1)"
      "case r of None \<Rightarrow> queues_held s [] s1 | Some d \<Rightarrow> dev_held s d s1 \<and> new_device C opts d"
    using dev_create_held [of s opts C pd] ok op by (auto simp: sys_ok_def opts_ok_def)
  show ?thesis
  proof (cases r)
    case None
    then have "queues_held s [] s1" "dev_next s1 = dev_next s" using c(2) by (auto simp: queues_held_def srest_def)
    then show ?thesis using c None by (auto simp: ubbd_dev_add_dev_def)
  next
    case (Some d)
    then have hd: "dev_held s d s1" and nd: "new_device C opts d" using c(2) by auto
    define d1 where "d1 = d\<lparr>dev_size := ao_device_size opts, dev_features := ao_dev_features opts, io_timeout := ao_io_timeout opts\<rparr>"
    let ?b = "s\<lparr>dev_next := dev_next s + 1\<rparr>" and ?key = "dev_next s"
    note r1 = dev_held_srest [OF hd]
    have "dev_held s d1 s1" by (rule dev_held_cong [OF hd]) (simp_all add: d1_def)
    then have h1: "dev_held ?b d1 (s1\<lparr>dev_next := dev_next s + 1\<rparr>)" by (rule dev_held_rest(2))
    have pre: "length (queues d1) = unat (num_queues d1)" "mq_map_ok C d1" "tag_set d1 = None" "disk d1 = None"
      using nd op by (simp_all add: new_device_def d1_def mq_map_ok_def opts_ok_def)
    have mj: "ubbd_major (s1\<lparr>dev_next := dev_next s + 1\<rparr>) = ubbd_major s" "def_limits (s1\<lparr>dev_next := dev_next s + 1\<rparr>) = def_limits s"
      using r1 by simp_all
    obtain ret d2 s2 where su: "ubbd_dev_device_setup C d1 (s1\<lparr>dev_next := dev_next s + 1\<rparr>) = Some (ret, d2, s2)" "kref d2 = kref d1"
        "if ret = 0 then dev_held (with_disk ?b) d2 s2 \<and> set_up C (ubbd_major s) (def_limits s) d1 d2
         else if disk d2 = None then dev_held ?b d2 s2 else uc_kernel_6_8 C \<and> dev_held (with_disk ?b) d2 s2"
      using device_setup_held [OF h1 pre] unfolding mj by blast
    have k1: "kref d2 = 1" using su(2) nd by (simp add: d1_def new_device_def)
    have nk: "devices ?b ?key = None" "devices (with_disk ?b) ?key = None" using ok by (simp_all add: sys_ok_def plus_res_def)
    show ?thesis
    proof (cases "ret = 0")
      case False
      then consider "dev_held ?b d2 s2" | "uc_kernel_6_8 C" "dev_held (with_disk ?b) d2 s2" using su(3) by (auto split: if_splits)
      then show ?thesis
      proof cases
        case 1
        obtain s3 where "ubbd_dev_put ?key (s2\<lparr>devices := (devices s2)(?key \<mapsto> d2)\<rparr>) = Some s3" "queues_held ?b [] s3"
          using add_dev_fail [OF 1 k1 nk(1)] by blast
        moreover from this have "dev_next s3 = dev_next s + 1" by (simp add: queues_held_def srest_def)
        ultimately show ?thesis using c(1) Some su(1) False r1(2) by (simp add: ubbd_dev_add_dev_def d1_def [symmetric])
      next
        case 2
        obtain s3 where "ubbd_dev_put ?key (s2\<lparr>devices := (devices s2)(?key \<mapsto> d2)\<rparr>) = Some s3" "queues_held (with_disk ?b) [] s3"
          using add_dev_fail [OF 2(2) k1 nk(2)] by blast
        moreover from this have "dev_next s3 = dev_next s + 1" by (simp add: queues_held_def srest_def plus_res_def)
        ultimately show ?thesis using c(1) Some su(1) False r1(2) 2(1) by (simp add: ubbd_dev_add_dev_def d1_def [symmetric])
      qed
    next
      case True
      then have h2: "dev_held (with_disk ?b) d2 s2" and st: "set_up C (ubbd_major s) (def_limits s) d1 d2" using su(3) by auto
      define d3 where "d3 = d2\<lparr>dv_status := UBBD_DEV_KSTATUS_PREPARED\<rparr>"
      define s4 where "s4 = s2\<lparr>devices := (devices s2)(?key \<mapsto> d3), ubbd_total_devs := ubbd_total_devs s2 + 1,
        ubbd_dev_list := ubbd_dev_list s2 @ [?key]\<rparr>"
      have st0: "dv_status d2 = UBBD_DEV_KSTATUS_INIT \<and> status_flags d2 = 0 \<and> open_count d2 = 0"
        using st nd by (auto simp: set_up_def disk_made_def d1_def new_device_def)
      then have "d3\<lparr>dv_status := UBBD_DEV_KSTATUS_INIT\<rparr> = d2" by (simp add: d3_def)
      then have "set_up C (ubbd_major s) (def_limits s) d1 (d3\<lparr>dv_status := UBBD_DEV_KSTATUS_INIT\<rparr>)" using st by simp
      moreover have "dv_status d3 = UBBD_DEV_KSTATUS_PREPARED \<and> status_flags d3 = 0 \<and> kref d3 = 1 \<and> open_count d3 = 0"
        using st0 k1 by (simp add: d3_def)
      ultimately have "prepared C s opts d3" using nd d1_def unfolding prepared_def by blast
      moreover have "dev_held (with_disk (with_dev s d3)) d3 s4" by (rule add_dev_success [OF h2 refl refl d3_def s4_def])
      moreover have "ubbd_dev_add_dev C pd opts s = Some (0, Some ?key, s4)"
        using c(1) Some su(1) True r1(2)
        by (simp add: ubbd_dev_add_dev_def d1_def [symmetric] upd_dev_def s4_def d3_def Let_def)
      ultimately show ?thesis by (auto simp: s4_def)
    qed
  qed
qed

end
