(* ===== verification/Device_Props.thy ===== *)
theory Device_Props
  imports Device_Add
begin

text \<open>
  The properties of a device: adding and removing it, the limits of its disk, its page
  reserve, stopping and starting its queues, and its references.
\<close>

section \<open>A concrete system\<close>

text \<open>One queue of four pages, two CPUs mapped to it, an empty system.\<close>

definition C0 :: "bool \<Rightarrow> ubbd_const" where
  "C0 k68 = \<lparr>uc_h = H0, UBBD_MAGIC = 7, UBBD_SB_VERSION = 1, UBBD_INFO_OFF = 64, UBBD_INFO_SIZE = 64, CMDR_OFF = 128,
     COMPR_OFF = 384, UBBD_DEV_KSTATUS_SHIFT = 1, UBBD_ATTR_FLAGS_ADD_READONLY = 1, UBBD_ATTR_FLAGS_ADD_WRITECACHE = 2,
     UBBD_ATTR_FLAGS_ADD_FUA = 4, UBBD_ATTR_FLAGS_ADD_DISCARD = 8, UBBD_ATTR_FLAGS_ADD_WRITE_ZEROS = 16,
     uc_kernel_6_8 = k68, uc_request_stats = True, HAVE_ALLOC_DISK = False, HAVE_FLAG_DISCARD = False, HZ = 1000,
     uc_cpus = [0, 1], uc_mq_map = (\<lambda>_. 0)\<rparr>"

definition opts0 :: ubbd_dev_add_opts where
  "opts0 = \<lparr>ao_data_pages = 4, ao_device_size = 1048576, ao_dev_features = 2, ao_num_queues = 1, ao_io_timeout = 30\<rparr>"

definition lim0 :: queue_limits where
  "lim0 = \<lparr>lim_rotational = True, lim_write_cache = False, lim_fua = False, lim_flag_discard = False, max_hw_sectors = 255,
     max_sectors = 255, max_segments = 128, max_segment_size = 65536, io_min = 512, io_opt = 0, discard_granularity = 0,
     max_discard_sectors = 0, max_hw_discard_sectors = 0, max_user_discard_sectors = 0, max_discard_segments = 1,
     max_write_zeroes_sectors = 0, max_hw_wzeroes_unmap_sectors = 0, max_wzeroes_unmap_sectors = 0\<rparr>"

definition usys0 :: "int list \<Rightarrow> ubbd_sys" where
  "usys0 rs = \<lparr>kring = sys0, mem = km0 [], rets = rs, live = (\<lambda>_. 0), ubbd_dev_id_ida = {}, devices = Map.empty, dev_next = 0,
     ubbd_dev_list = [], ubbd_total_devs = 0, ubbd_wq = [],
     dfs = \<lparr>dfs_entries = {[''ubbd''], [''ubbd'', ''devices'']}, ubbd_debugfs_root = Some [''ubbd''],
       ubbd_debugfs_devices = Some [''ubbd'', ''devices'']\<rparr>,
     ubbd_major = 250, def_limits = lim0\<rparr>"

lemma usys0_ok: "sys_ok (usys0 rs)"
  by (auto simp: sys_ok_def usys0_def sys0_ok dfs_ok_def)

text \<open>The same, where the first registration of a kring device fails.\<close>

definition usys1 :: ubbd_sys where "usys1 = usys0 [0, 0, 0, 0, 0, 0, 0, 0, - 12]"

lemma usys1_ok: "sys_ok usys1"
  by (simp add: usys1_def usys0_ok)

lemma opts0_ok: "opts_ok (C0 k) opts0"
  by (simp add: opts_ok_def opts0_def C0_def)

section \<open>Adding and removing\<close>

lemma set_up_disk: "set_up C m l d d' \<Longrightarrow> disk d' \<noteq> None"
  by (auto simp: set_up_def)

lemma prepared_removable: "prepared C s opts d \<Longrightarrow> removable C d"
proof -
  assume p: "prepared C s opts d"
  then obtain d1 where "set_up C (ubbd_major s) (def_limits s) d1 (d\<lparr>dv_status := UBBD_DEV_KSTATUS_INIT\<rparr>)"
    by (auto simp: prepared_def)
  then have "disk (d\<lparr>dv_status := UBBD_DEV_KSTATUS_INIT\<rparr>) \<noteq> None" by (rule set_up_disk)
  then show ?thesis using p by (simp add: removable_def prepared_def ubbd_dev_status_flags_test_def)
qed

text \<open>Removing a device right after it was added gives back everything it took.\<close>

lemma remove_new_dev:
  assumes "sys_ok s" and "prepared C s opts d" and "dev_held (with_disk (with_dev s d)) d s1" and "devices s1 (dev_next s) = Some d"
  shows "\<exists>s2. ubbd_dev_remove_dev C (dev_next s) s1 = Some (0, s2) \<and> same_sys (s\<lparr>dev_next := dev_next s2\<rparr>) s2"
proof -
  let ?k = "dev_next s" and ?w = "with_dev s d"
  have "kref d = 1" using assms(2) by (simp add: prepared_def)
  with remove_dev_held [OF assms(3,4) prepared_removable [OF assms(2)]] obtain s2 where
    s2: "ubbd_dev_remove_dev C ?k s1 = Some (0, s2)"
      "queues_held (?w\<lparr>devices := (devices ?w)(?k := None), ubbd_dev_list := remove1 ?k (ubbd_dev_list ?w),
         ubbd_total_devs := ubbd_total_devs ?w - 1\<rparr>) [] s2" by blast
  have "?w\<lparr>devices := (devices ?w)(?k := None), ubbd_dev_list := remove1 ?k (ubbd_dev_list ?w),
      ubbd_total_devs := ubbd_total_devs ?w - 1\<rparr> = s\<lparr>dev_next := dev_next s + 1\<rparr>"
    using assms(1) by (simp add: with_dev_def sys_ok_def remove1_append fun_upd_idem)
  then have h: "queues_held (s\<lparr>dev_next := dev_next s + 1\<rparr>) [] s2" using s2(2) by simp
  then have "dev_next s2 = dev_next s + 1" by (simp add: queues_held_def srest_def)
  then show ?thesis using s2(1) held_same [OF h] by simp
qed

text \<open>C6: Adding a device returns whatever kernel calls fail. Before kernel 6.8 a failure leaves
  nothing behind; a success lists a device that is prepared as asked and holds one
  reference, and removing it right away gives back everything it took: memory, pages,
  minors, ids, the disk, the module reference and the debugfs entries.\<close>

theorem add_remove_roundtrip:
  assumes "sys_ok s" and "opts_ok C opts"
  shows "\<exists>ret key s1. ubbd_dev_add_dev C pd opts s = Some (ret, key, s1) \<and>
    (ret \<noteq> 0 \<longrightarrow> key = None \<and> (\<not> uc_kernel_6_8 C \<longrightarrow> same_sys (s\<lparr>dev_next := dev_next s1\<rparr>) s1)) \<and>
    (ret = 0 \<longrightarrow> (\<exists>d s2. key = Some (dev_next s) \<and> devices s1 (dev_next s) = Some d \<and> prepared C s opts d \<and>
       ubbd_dev_list s1 = ubbd_dev_list s @ [dev_next s] \<and>
       ubbd_dev_remove_dev C (dev_next s) s1 = Some (0, s2) \<and> same_sys (s\<lparr>dev_next := dev_next s2\<rparr>) s2))"
proof -
  obtain ret key s1 where a: "ubbd_dev_add_dev C pd opts s = Some (ret, key, s1)"
    "case key of
       Some k \<Rightarrow> ret = 0 \<and> k = dev_next s \<and> (\<exists>d. devices s1 k = Some d \<and> prepared C s opts d \<and> dev_held (with_disk (with_dev s d)) d s1)
     | None \<Rightarrow> ret \<noteq> 0 \<and> (queues_held (s\<lparr>dev_next := dev_next s1\<rparr>) [] s1 \<or>
         uc_kernel_6_8 C \<and> queues_held (with_disk (s\<lparr>dev_next := dev_next s1\<rparr>)) [] s1)"
    using add_dev_held [OF assms] by blast
  show ?thesis
  proof (cases key)
    case None
    then show ?thesis using a held_same by auto
  next
    case (Some k)
    then obtain d where d: "ret = 0" "k = dev_next s" "devices s1 k = Some d" "prepared C s opts d"
        "dev_held (with_disk (with_dev s d)) d s1" using a(2) by auto
    obtain s2 where s2: "ubbd_dev_remove_dev C (dev_next s) s1 = Some (0, s2)" "same_sys (s\<lparr>dev_next := dev_next s2\<rparr>) s2"
      using remove_new_dev [OF assms(1) d(4,5)] d(2,3) by blast
    have "ubbd_dev_list s1 = ubbd_dev_list s @ [dev_next s]"
      using dev_held_srest(3) [OF d(5)] by (simp add: plus_res_def with_dev_def)
    then show ?thesis using a(1) Some d s2 by auto
  qed
qed

theorem add_remove_roundtrip_witness:
  "\<exists>ret key s1. ubbd_dev_add_dev (C0 False) (\<lambda>_. ur0) opts0 usys1 = Some (ret, key, s1) \<and>
    (ret \<noteq> 0 \<longrightarrow> key = None \<and> (\<not> uc_kernel_6_8 (C0 False) \<longrightarrow> same_sys (usys1\<lparr>dev_next := dev_next s1\<rparr>) s1)) \<and>
    (ret = 0 \<longrightarrow> (\<exists>d s2. key = Some (dev_next usys1) \<and>
       devices s1 (dev_next usys1) = Some d \<and>
       prepared (C0 False) usys1 opts0 d \<and>
       ubbd_dev_list s1 = ubbd_dev_list usys1 @ [dev_next usys1] \<and>
       ubbd_dev_remove_dev (C0 False) (dev_next usys1) s1 = Some (0, s2) \<and>
       same_sys (usys1\<lparr>dev_next := dev_next s2\<rparr>) s2))"
  by (rule add_remove_roundtrip [OF usys1_ok opts0_ok])

section \<open>The disk of a new device\<close>

lemma find_upt_first:
  assumes "i < n" and "P i" and "\<And>j. j < i \<Longrightarrow> \<not> P j"
  shows "find P [0..<n] = Some i"
proof -
  have "[0..<n] = [0..<i] @ i # [Suc i..<n]"
    using assms(1) by (metis append_Cons append_self_conv2 less_imp_add_positive upt_add_eq_append upt_conv_Cons zero_le)
  moreover have "find P [0..<i] = None" using assms(3) by (simp add: find_None_iff)
  moreover have "find P (xs @ y # ys) = Some y" if "find P xs = None" "P y" for xs y ys
    using that by (induction xs) (auto split: if_splits)
  ultimately show ?thesis using assms(2) by metis
qed

lemma ida_find_empty [simp]: "ida_find {} = Some 0"
  unfolding ida_find_def by (rule find_upt_first) (simp_all add: minor_to_ubbd_dev_id_def drop_bit_eq_div)

lemma idr_alloc_sys0 [simp]: "idr_alloc_id (idr sys0) = Some 1" "class_registered sys0"
  unfolding idr_alloc_id_def by (rule find_upt_first) (simp_all add: sys0_def)

lemmas create_defs = ubbd_dev_create_def dev_create0_def alloc_res_def take_ret_def got_res_def ida_alloc_def
  ubbd_dev_create_queues_def ubbd_queue_create_def ubbd_queue_sb_init_def queue_kring_init_def
  ubbd_queue_kring_init_def ubbd_kring_register_device_def ubbd_kring_get_minor_def module_add_def zero_device_def

lemmas setup_defs = ubbd_dev_device_setup_def ubbd_init_disk_def init_disk_mq_def disk_ready_def ubbd_init_hctx_def upd_disk_def upd_dev_def

lemma add_dev0: "\<exists>s1. ubbd_dev_add_dev (C0 k) pd opts0 (usys0 []) = Some (0, Some 0, s1)"
  by (simp add: ubbd_dev_add_dev_def create_defs setup_defs usys0_def opts0_def C0_def Let_def split: prod.split)

text \<open>The limits and flags a disk must show for the features asked for, whatever kernel the module
  is built for.\<close>

definition shows_features :: "ubbd_const \<Rightarrow> u64 \<Rightarrow> gendisk \<Rightarrow> bool" where
  "shows_features C f gd \<longleftrightarrow>
     gd_ro gd = (f AND UBBD_ATTR_FLAGS_ADD_READONLY C \<noteq> 0) \<and>
     lim_write_cache (gd_lim gd) = (f AND UBBD_ATTR_FLAGS_ADD_WRITECACHE C \<noteq> 0) \<and>
     lim_fua (gd_lim gd) = (f AND UBBD_ATTR_FLAGS_ADD_WRITECACHE C \<noteq> 0 \<and> f AND UBBD_ATTR_FLAGS_ADD_FUA C \<noteq> 0) \<and>
     discard_granularity (gd_lim gd) = (if f AND UBBD_ATTR_FLAGS_ADD_DISCARD C \<noteq> 0 then 4096 else 0) \<and>
     max_discard_sectors (gd_lim gd) = (if f AND UBBD_ATTR_FLAGS_ADD_DISCARD C \<noteq> 0 then 8192 else 0) \<and>
     max_hw_discard_sectors (gd_lim gd) = (if f AND UBBD_ATTR_FLAGS_ADD_DISCARD C \<noteq> 0 then 8192 else 0) \<and>
     max_write_zeroes_sectors (gd_lim gd) = (if f AND UBBD_ATTR_FLAGS_ADD_WRITE_ZEROS C \<noteq> 0 then 8192 else 0) \<and>
     \<not> lim_rotational (gd_lim gd) \<and> max_sectors (gd_lim gd) = 128 \<and> max_hw_sectors (gd_lim gd) = 128 \<and>
     max_segments (gd_lim gd) = 65535 \<and> max_segment_size (gd_lim gd) = 2 ^ 32 - 1 \<and>
     io_min (gd_lim gd) = 4096 \<and> io_opt (gd_lim gd) = 4096"

lemmas limit_defs = setup_limits_6_8_def setup_limits_old_def init_limits_6_8_def init_limits_old_def Let_def
  blk_queue_max_discard_sectors_def blk_queue_write_cache_def UBBD_MAX_DISCARD_SECTORS_def UBBD_MAX_WRITE_ZEROS_SECTORS_def
  USHRT_MAX_def

lemma UINT_MAX_nat: "unat UINT_MAX = 2 ^ 32 - 1"
  by (simp add: UINT_MAX_def unsigned_minus_1_eq_mask mask_eq_exp_minus_1)

lemma setup_shows_features:
  assumes "gd_ro gd = feature (UBBD_ATTR_FLAGS_ADD_READONLY C) d"
    and "gd_lim gd = (if uc_kernel_6_8 C then setup_limits_6_8 C d (init_limits_6_8 l) else setup_limits_old C d (init_limits_old l))"
  shows "shows_features C (dev_features d) gd"
  using assms by (simp add: shows_features_def limit_defs feature_def UINT_MAX_nat)

lemma set_up_fields:
  assumes "set_up C m l d d'"
  shows "\<exists>gd. dev_id d' = dev_id d \<and> dv_name d' = dv_name d \<and> disk d' = Some gd \<and>
    list_all2 same_but_hctx (queues d) (queues d') \<and> hctx_ok (queues d') \<and> gd_name gd = ''ubbd'' @ dec (dev_id d) \<and>
    gd_first_minor gd = ubbd_dev_id_to_minor (int (dev_id d)) \<and> gd_minors gd = 16 \<and> gd_capacity gd = dev_size d div 512 \<and>
    shows_features C (dev_features d) gd"
  using assms setup_shows_features [where d = d and C = C and l = l] by (auto simp: set_up_def disk_made_def)



text \<open>When the queue limits are refused (from kernel 6.8 on) the disk is already made, and dropping
  the device does not free it: the disk and the tag set stay behind.\<close>

theorem refused_limits_leak_disk:
  assumes "sys_ok s" and "opts_ok C opts" and "ubbd_dev_create C pd opts s = Some (Some d, s1)"
    and "ubbd_dev_device_setup C (d\<lparr>dev_size := ao_device_size opts, dev_features := ao_dev_features opts,
           io_timeout := ao_io_timeout opts\<rparr>) (s1\<lparr>dev_next := dev_next s1 + 1\<rparr>) = Some (ret, d2, s2)"
    and "ret \<noteq> 0" and "disk d2 \<noteq> None"
  shows "\<exists>s3. ubbd_dev_add_dev C pd opts s = Some (- EINVAL, None, s3) \<and> devices s3 = devices s \<and>
    live s3 R_disk = live s R_disk + 1 \<and> live s3 R_tag_set = live s R_tag_set + 1"
proof -
  define d1 where "d1 = d\<lparr>dev_size := ao_device_size opts, dev_features := ao_dev_features opts, io_timeout := ao_io_timeout opts\<rparr>"
  let ?b = "s\<lparr>dev_next := dev_next s + 1\<rparr>" and ?key = "dev_next s"
  have c: "dev_held s d s1" "new_device C opts d"
    using dev_create_held [of s opts C pd] assms(1-3) by (auto simp: sys_ok_def opts_ok_def)
  have k: "dev_next s1 = dev_next s" by (rule dev_held_srest(2) [OF c(1)])
  have "dev_held s d1 s1" by (rule dev_held_cong [OF c(1)]) (simp_all add: d1_def)
  then have h1: "dev_held ?b d1 (s1\<lparr>dev_next := dev_next s + 1\<rparr>)" by (rule dev_held_rest(2))
  have pre: "length (queues d1) = unat (num_queues d1)" "mq_map_ok C d1" "tag_set d1 = None" "disk d1 = None"
    using c(2) assms(2) by (simp_all add: new_device_def d1_def mq_map_ok_def opts_ok_def)
  have su: "ubbd_dev_device_setup C d1 (s1\<lparr>dev_next := dev_next s + 1\<rparr>) = Some (ret, d2, s2)" using assms(4) k by (simp add: d1_def)
  then have h2: "dev_held (with_disk ?b) d2 s2" "kref d2 = 1"
    using device_setup_held [OF h1 pre] assms(5,6) c(2) by (auto simp: d1_def new_device_def split: if_splits)
  have "devices (with_disk ?b) ?key = None" using assms(1) by (simp add: sys_ok_def plus_res_def)
  then obtain s3 where s3: "ubbd_dev_put ?key (s2\<lparr>devices := (devices s2)(?key \<mapsto> d2)\<rparr>) = Some s3" "queues_held (with_disk ?b) [] s3"
    using add_dev_fail [OF h2] by blast
  have "same_sys (with_disk ?b) s3" using s3(2) by (rule held_same)
  then have "devices s3 = devices s" "live s3 R_disk = live s R_disk + 1" "live s3 R_tag_set = live s R_tag_set + 1"
    by (auto simp: same_sys_def srest_def plus_res_def)
  moreover have "ubbd_dev_add_dev C pd opts s = Some (- EINVAL, None, s3)"
    using assms(3,5) su s3(1) k by (simp add: ubbd_dev_add_dev_def d1_def)
  ultimately show ?thesis by blast
qed

definition usys2 :: ubbd_sys where "usys2 = usys0 [0, 0, 0, 0, 0, 0, 0, 0, 0, 0, 0, 0, 0, - 22]"

lemma usys2_ok: "sys_ok usys2"
  by (simp add: usys2_def usys0_ok)

lemma usys2_setup:
  "\<exists>d s1 d2 s2. ubbd_dev_create (C0 True) pd opts0 usys2 = Some (Some d, s1) \<and>
     ubbd_dev_device_setup (C0 True) (d\<lparr>dev_size := ao_device_size opts0, dev_features := ao_dev_features opts0,
       io_timeout := ao_io_timeout opts0\<rparr>) (s1\<lparr>dev_next := dev_next s1 + 1\<rparr>) = Some (- 22, d2, s2) \<and> disk d2 \<noteq> None"
  by (simp add: create_defs setup_defs usys2_def usys0_def opts0_def C0_def Let_def split: prod.split)

theorem refused_limits_leak_disk_witness:
  "\<exists>s3. ubbd_dev_add_dev (C0 True) (\<lambda>_. ur0) opts0 usys2 = Some (- EINVAL, None, s3) \<and> devices s3 = Map.empty \<and>
     live s3 R_disk = 1 \<and> live s3 R_tag_set = 1"
proof -
  obtain d s1 d2 s2 where r: "ubbd_dev_create (C0 True) (\<lambda>_. ur0) opts0 usys2 = Some (Some d, s1)"
     "ubbd_dev_device_setup (C0 True) (d\<lparr>dev_size := ao_device_size opts0, dev_features := ao_dev_features opts0,
       io_timeout := ao_io_timeout opts0\<rparr>) (s1\<lparr>dev_next := dev_next s1 + 1\<rparr>) = Some (- 22, d2, s2)" "disk d2 \<noteq> None"
    using usys2_setup by blast
  then show ?thesis using refused_limits_leak_disk [OF usys2_ok opts0_ok r(1,2)] by (simp add: usys2_def usys0_def)
qed

section \<open>Reserve, size and timeout\<close>

lemma reserve_exact: "unat p * unat n < 2 ^ 32 \<Longrightarrow> unat (p * n div 100 :: u32) = unat p * unat n div 100"
  by (simp add: unat_div_distrib unat_word_ariths)

lemma reserve_bound: "p \<le> 100 \<Longrightarrow> unat (p * n div 100 :: u32) \<le> unat n"
proof -
  assume "p \<le> 100"
  then have p: "unat p \<le> 100" by (simp add: word_le_nat_alt)
  have "unat (p * n) \<le> unat p * unat n" by (simp add: unat_word_ariths)
  also have "\<dots> \<le> 100 * unat n" using p by simp
  finally show ?thesis by (simp add: unat_div_distrib)
qed

text \<open>A configuration of a running device sets the reserve of every queue to the given percentage of its
  pages, never more than the pages it has, and the capacity to the given size; any other
  percentage, or a device that is not running, is refused and nothing changes.\<close>

theorem config_sets_reserve_and_size:
  assumes "disk d = Some gd"
  shows "\<exists>ret d'. ubbd_dev_config opts d = Some (ret, d') \<and>
    (ret \<noteq> 0 \<longrightarrow> ret = - EINVAL \<and> d' = d) \<and>
    (ret = 0 \<longleftrightarrow> dv_status d = UBBD_DEV_KSTATUS_RUNNING \<and>
       \<not> (co_flags opts AND UBBD_DEV_CONFIG_FLAG_DP_RESERVE \<noteq> 0 \<and> co_dp_reserve_percnt opts > 100)) \<and>
    (ret = 0 \<longrightarrow> length (queues d') = length (queues d) \<and>
      (\<forall>i < length (queues d). let q = dq_core (queues d ! i); q' = dq_core (queues d' ! i) in
         q' = q\<lparr>data_pages_reserved := data_pages_reserved q'\<rparr> \<and>
         (if co_flags opts AND UBBD_DEV_CONFIG_FLAG_DP_RESERVE = 0 then q' = q
          else unat (data_pages_reserved q') \<le> unat (data_pages q) \<and>
            (unat (co_dp_reserve_percnt opts) * unat (data_pages q) < 2 ^ 32 \<longrightarrow>
             unat (data_pages_reserved q') = unat (co_dp_reserve_percnt opts) * unat (data_pages q) div 100))) \<and>
      disk d' = Some (if co_flags opts AND UBBD_DEV_CONFIG_FLAG_DEV_SIZE = 0 then gd else gd\<lparr>gd_capacity := co_dev_size opts div 512\<rparr>))"
proof (cases "dv_status d = UBBD_DEV_KSTATUS_RUNNING \<and>
       \<not> (co_flags opts AND UBBD_DEV_CONFIG_FLAG_DP_RESERVE \<noteq> 0 \<and> co_dp_reserve_percnt opts > 100)")
  case False
  then show ?thesis by (auto simp: ubbd_dev_config_def)
next
  case True
  then show ?thesis using assms reserve_bound reserve_exact
    by (auto simp: ubbd_dev_config_def set_reserve_def upd_disk_def Let_def)
qed

text \<open>A running device with a disk and two queues of four pages.\<close>

definition gd0 :: gendisk where
  "gd0 = \<lparr>gd_name = ''ubbd0'', gd_major = 250, gd_first_minor = 0, gd_minors = 16, gd_capacity = 2048, gd_ro = False,
     gd_lim = lim0, gd_rq_timeout = 30000, gd_added = True\<rparr>"

definition rq0 :: "nat \<Rightarrow> dev_queue" where
  "rq0 i = (zero_queue (\<lambda>_. ur0))\<lparr>dq_index := i, dq_hctx := Some i,
     dq_core := (dq_core (zero_queue (\<lambda>_. ur0)))\<lparr>data_pages := 4, data_bitmap := replicate 4 False, q_status := UBBD_QUEUE_KSTATUS_RUNNING\<rparr>\<rparr>"

definition rdev0 :: ubbd_device where
  "rdev0 = zero_device\<lparr>disk := Some gd0, num_queues := 2, queues := [rq0 0, rq0 1], dv_status := UBBD_DEV_KSTATUS_RUNNING, kref := 1\<rparr>"

theorem config_sets_reserve_and_size_witness:
  "\<exists>d'. ubbd_dev_config \<lparr>co_flags = 1, co_dp_reserve_percnt = 50, co_dev_size = 0\<rparr> rdev0 = Some (0, d') \<and>
     data_pages_reserved (dq_core (queues d' ! 1)) = 2 \<and> disk d' = Some gd0"
proof -
  have "disk rdev0 = Some gd0" by (simp add: rdev0_def)
  from config_sets_reserve_and_size [OF this, of "\<lparr>co_flags = 1, co_dp_reserve_percnt = 50, co_dev_size = 0\<rparr>"]
  show ?thesis
    by (auto simp: rdev0_def zero_device_def rq0_def zero_queue_def UBBD_DEV_CONFIG_FLAG_DP_RESERVE_def
        UBBD_DEV_CONFIG_FLAG_DEV_SIZE_def Let_def word_unat_eq_iff)
qed

text \<open>A device added without an I/O timeout gets \<open>UINT_MAX\<close> seconds, which \<open>HZ\<close> scales: unless \<open>HZ\<close> is 1 the disk's
  timeout is not the \<open>UINT_MAX\<close> that \<open>ubbd_timeout\<close> takes for none, so a request that times out
  removes the disk by force.\<close>

theorem no_timeout_lost_in_scaling:
  assumes "io_timeout d = UINT_MAX" and "HZ C \<noteq> 1"
  shows "ts_timeout (new_tag_set C d) = - HZ C \<and>
    ubbd_timeout C (req\<lparr>rq_timeout := ts_timeout (new_tag_set C d)\<rparr>) d km =
      map_option (\<lambda>(d', km'). (BLK_EH_DONE, d', km')) (ubbd_dev_remove_disk C True d km)"
proof -
  have "- HZ C \<noteq> - 1" using assms(2) by (metis minus_equation_iff)
  then show ?thesis using assms(1)
    by (cases "ubbd_dev_remove_disk C True d km") (auto simp: new_tag_set_def ubbd_timeout_def UINT_MAX_def)
qed

theorem no_timeout_lost_in_scaling_witness:
  "ts_timeout (new_tag_set (C0 True) (rdev0\<lparr>io_timeout := UINT_MAX\<rparr>)) = - 1000"
  using no_timeout_lost_in_scaling [of "rdev0\<lparr>io_timeout := UINT_MAX\<rparr>" "C0 True"] by (simp add: C0_def)

end
