(* ===== verification/Device_Queues.thy ===== *)
theory Device_Queues
  imports Device_Props "HOL-Library.Multiset"
begin

text \<open>
  The queues of a device together: they share the memory of the kernel, each with its own data
  pages, and the commands that stop, start and remove them flush the work of all of them.
\<close>

section \<open>The queues side by side\<close>

text \<open>The pages of the buffers of a request that carries data; the requests of a queue are the
  outstanding ones and those whose work item is queued.\<close>

definition req_pages :: "ubbd_request \<Rightarrow> page_id set" where
  "req_pages r = (if data_req r then bv_page ` set (concat (rq_bio (ur_req r))) else {})"

definition buf_pages :: "ubbd_queue \<Rightarrow> page_id set" where
  "buf_pages q = (\<Union>t \<in> set (inflight_reqs q) \<union> set (task_wq q). req_pages (pdus q t))"

text \<open>Queued work items are for fresh requests, and there are transaction ids left for them.\<close>

definition pending_ok :: "nat list \<Rightarrow> ubbd_queue \<Rightarrow> kmem \<Rightarrow> bool" where
  "pending_ok ts q km \<longleftrightarrow> distinct ts \<and> (\<forall>t \<in> set ts. fresh_req t q km) \<and> unat (q_req_tid q) + length ts < 2 ^ 64 - 1"

definition dev_queue_ok :: "ubbd_h \<Rightarrow> ubbd_queue \<Rightarrow> kmem \<Rightarrow> bool" where
  "dev_queue_ok H q km \<longleftrightarrow> (\<exists>es. queue_inv H es q km) \<and> pending_ok (task_wq q) q km"

definition dev_queues_ok :: "ubbd_h \<Rightarrow> ubbd_queue list \<Rightarrow> kmem \<Rightarrow> bool" where
  "dev_queues_ok H cs km \<longleftrightarrow> (\<forall>i < length cs. dev_queue_ok H (cs ! i) km) \<and>
     (\<forall>i < length cs. \<forall>j < length cs. i \<noteq> j \<longrightarrow>
        ran (data_pages_array (cs ! i)) \<inter> (ran (data_pages_array (cs ! j)) \<union> buf_pages (cs ! j)) = {})"

text \<open>A step of one queue: it keeps to its pages and its requests.\<close>

definition queue_step :: "ubbd_h \<Rightarrow> ubbd_queue \<Rightarrow> kmem \<Rightarrow> ubbd_queue \<Rightarrow> kmem \<Rightarrow> bool" where
  "queue_step H q km q' km' \<longleftrightarrow> pages_frame q km q' km' \<and> buf_pages q' \<subseteq> buf_pages q \<and> dev_queue_ok H q' km'"

lemma rq_wf_pages:
  assumes "rq_wf q km r" and "req_pages r \<subseteq> dom (km_pages km')"
  shows "rq_wf q km' r"
proof -
  have "bio_ok q km' r" if d: "data_req r" and b: "bio_ok q km r"
  proof -
    have "\<forall>bv \<in> set (concat (rq_bio (ur_req r))). bv_page bv \<in> dom (km_pages km')"
      using assms(2) d unfolding req_pages_def by (simp add: image_subset_iff del: set_concat)
    then show ?thesis using b unfolding bio_ok_def by blast
  qed
  then show ?thesis using assms(1) by (auto simp: rq_wf_def)
qed

lemma buf_pages_live: "dev_queue_ok H q km \<Longrightarrow> ran (data_pages_array q) \<union> buf_pages q \<subseteq> dom (km_pages km)"
proof -
  assume ok: "dev_queue_ok H q km"
  then obtain es where inv: "queue_inv H es q km" by (auto simp: dev_queue_ok_def)
  have "req_pages r \<subseteq> dom (km_pages km)" if "rq_wf q km r" for r using that by (auto simp: rq_wf_def bio_ok_def req_pages_def)
  moreover have "rq_wf q km (pdus q t)" if "t \<in> set (inflight_reqs q) \<union> set (task_wq q)" for t
    using that ok inv by (auto simp: dev_queue_ok_def pending_ok_def fresh_req_def queue_inv_def reqs_inv_def req_ok_def)
  moreover have "ran (data_pages_array q) \<subseteq> dom (km_pages km)" using inv by (auto simp: queue_inv_def reqs_inv_def pool_inv_def)
  ultimately show ?thesis unfolding buf_pages_def by blast
qed

text \<open>What a step leaves of the other queues.\<close>

lemma other_queue_ok:
  assumes ok: "dev_queue_ok H q km" and st: "queue_step H p km p' km'"
    and ap: "ran (data_pages_array p) \<inter> (ran (data_pages_array q) \<union> buf_pages q) = {}"
  shows "dev_queue_ok H q km'"
proof -
  obtain es where inv: "queue_inv H es q km" using ok by (auto simp: dev_queue_ok_def)
  have live: "ran (data_pages_array q) \<union> buf_pages q \<subseteq> dom (km_pages km')"
    using buf_pages_live [OF ok] st ap unfolding queue_step_def pages_frame_def by blast
  have wf: "rq_wf q km' (pdus q t)" if "t \<in> set (inflight_reqs q) \<union> set (task_wq q)" "rq_wf q km (pdus q t)" for t
    by (rule rq_wf_pages [OF that(2)]) (use that(1) live in \<open>auto simp: buf_pages_def\<close>)
  obtain es' where "queue_inv H es' p' km'" using st by (auto simp: queue_step_def dev_queue_ok_def)
  then have "dom (km_pages km') \<subseteq> {..<km_next km'}" unfolding queue_inv_def reqs_inv_def pool_inv_def by blast
  moreover have pool: "pool_inv {} q km" using inv by (simp add: queue_inv_def reqs_inv_def)
  ultimately have "pool_inv {} q km'" using live unfolding pool_inv_def by simp
  moreover have "req_ok H es q km' (pdus q t)" if "t \<in> set (inflight_reqs q)" for t
  proof -
    have "req_ok H es q km (pdus q t)" using inv that by (simp add: queue_inv_def reqs_inv_def)
    then show ?thesis using wf [of t] that by (simp add: req_ok_def)
  qed
  ultimately have "queue_inv H es q km'" using inv unfolding queue_inv_def reqs_inv_def by simp
  moreover have "pending_ok (task_wq q) q km'" using ok wf by (simp add: dev_queue_ok_def pending_ok_def fresh_req_def)
  ultimately show ?thesis by (auto simp: dev_queue_ok_def)
qed

lemma queues_step:
  assumes qs: "dev_queues_ok H cs km" and i: "i < length cs" and st: "queue_step H (cs ! i) km q' km'"
  shows "dev_queues_ok H (cs[i := q']) km'"
proof -
  have ok: "dev_queue_ok H (cs ! j) km" if "j < length cs" for j using qs that by (simp add: dev_queues_ok_def)
  have ap: "ran (data_pages_array (cs ! j)) \<inter> (ran (data_pages_array (cs ! k)) \<union> buf_pages (cs ! k)) = {}"
    if "j < length cs" "k < length cs" "j \<noteq> k" for j k using qs that by (simp add: dev_queues_ok_def)
  have "dev_queue_ok H (cs[i := q'] ! j) km'" if "j < length cs" for j
    using that st other_queue_ok [OF ok [OF that] st] ap [OF i that] by (cases "j = i") (auto simp: queue_step_def i)
  moreover have "ran (data_pages_array (cs[i := q'] ! j)) \<inter>
      (ran (data_pages_array (cs[i := q'] ! k)) \<union> buf_pages (cs[i := q'] ! k)) = {}"
    if j: "j < length cs" and k: "k < length cs" and n: "j \<noteq> k" for j k
  proof -
    have new: "ran (data_pages_array q') \<subseteq> ran (data_pages_array (cs ! i)) \<union> - dom (km_pages km)" "buf_pages q' \<subseteq> buf_pages (cs ! i)"
      using st by (auto simp: queue_step_def pages_frame_def)
    consider "j = i" "k \<noteq> i" | "k = i" "j \<noteq> i" | "j \<noteq> i" "k \<noteq> i" using n by auto
    then show ?thesis
    proof cases
      case 1
      then show ?thesis using new(1) ap [OF j k n] buf_pages_live [OF ok [OF k]] i by auto
    next
      case 2
      then show ?thesis using new ap [OF j k n] buf_pages_live [OF ok [OF j]] i by auto
    next
      case 3
      then show ?thesis using ap [OF j k n] by simp
    qed
  qed
  ultimately show ?thesis by (simp add: dev_queues_ok_def)
qed

section \<open>Work items\<close>

text \<open>How a queue that does not take a request gives it back.\<close>

definition back_ev :: "queue_status \<Rightarrow> nat \<Rightarrow> blk_event" where
  "back_ev st t = (if st = UBBD_QUEUE_KSTATUS_REMOVING then Ended t (- EIO) else Requeued t)"

lemma workfn_not_running:
  "q_status q \<noteq> UBBD_QUEUE_KSTATUS_RUNNING \<Longrightarrow>
     ubbd_queue_workfn H t q km = Some (blk_tell (back_ev (q_status q) t) q, km)"
  by (cases "q_status q") (simp_all add: ubbd_queue_workfn_def workfn_status_def workfn_end_request_def back_ev_def)

lemma workfn_one:
  assumes inv: "queue_inv H es q km" and fresh: "fresh_req t q km"
  shows "\<exists>q' km' es' sub. ubbd_queue_workfn H t q km = Some (q', km') \<and> queue_inv H es' q' km' \<and>
    pages_frame q km q' km' \<and> task_wq q' = task_wq q \<and> compr_same q q' \<and> q_status q' = q_status q \<and>
    (\<forall>u. u \<noteq> t \<longrightarrow> pdus q' u = pdus q u) \<and>
    (sub \<longrightarrow> q_status q = UBBD_QUEUE_KSTATUS_RUNNING \<and> inflight_reqs q' = inflight_reqs q @ [t] \<and> blk_log q' = blk_log q \<and>
       q_req_tid q' = q_req_tid q + 1 \<and> ur_req (pdus q' t) = ur_req (pdus q t) \<and> ur_op (pdus q' t) = ur_op (pdus q t)) \<and>
    (\<not> sub \<longrightarrow> inflight_reqs q' = inflight_reqs q \<and> blk_log q' = blk_log q @ [back_ev (q_status q) t] \<and> q_req_tid q' = q_req_tid q)"
proof (cases "q_status q = UBBD_QUEUE_KSTATUS_RUNNING")
  case False
  let ?q = "blk_tell (back_ev (q_status q) t) q"
  have "queue_inv H es ?q km" using inv by (simp add: queue_inv_def queue_inv_upd(3)) (simp add: blk_tell_def)
  then show ?thesis using workfn_not_running [OF False, of H t km]
    by (intro exI [of _ ?q] exI [of _ km] exI [of _ es] exI [of _ False]) (simp add: pages_frame_refl blk_tell_def compr_same_def)
next
  case True
  show ?thesis
  proof (cases rule: workfn_cases [OF inv fresh True])
    case (1 q' km')
    then obtain es' where "queue_inv H es' q' km'" by (auto simp: submitted_def)
    then show ?thesis using 1 True
      by (intro exI [of _ q'] exI [of _ km'] exI [of _ es'] exI [of _ True]) (simp add: submitted_def)
  next
    case (2 q' km')
    then show ?thesis using True
      by (intro exI [of _ q'] exI [of _ km'] exI [of _ es] exI [of _ False]) (simp add: requeued_def back_ev_def)
  next
    case (3 q' km')
    then show ?thesis using True
      by (intro exI [of _ q'] exI [of _ km'] exI [of _ es] exI [of _ False]) (simp add: requeued_def back_ev_def)
  qed
qed

lemma bio_ok_frame: "bio_ok q km r \<Longrightarrow> pages_frame q km q' km' \<Longrightarrow> bio_ok q' km' r"
  unfolding bio_ok_def pages_frame_def by blast

lemma pending_step:
  assumes "pending_ok (t # ts) q km" and "pages_frame q km q' km'" and "\<forall>u. u \<noteq> t \<longrightarrow> pdus q' u = pdus q u"
    and "inflight_reqs q' = inflight_reqs q @ xs" "set xs \<subseteq> {t}" and "unat (q_req_tid q') \<le> unat (q_req_tid q) + 1"
  shows "pending_ok ts q' km'"
proof -
  have tid: "unat (q_req_tid q') + length ts < 2 ^ 64 - 1" using assms(1,6) by (simp add: pending_ok_def)
  then have "q_req_tid q' < - 1" by (simp add: word_less_nat_alt unsigned_minus_1_eq_mask mask_eq_exp_minus_1)
  moreover have "rq_wf q' km' (pdus q' u)" if "u \<in> set ts" for u
  proof -
    have u: "u \<noteq> t" "rq_wf q km (pdus q u)" using assms(1) that by (auto simp: pending_ok_def fresh_req_def)
    then show ?thesis using rq_wf_cong [OF u(2)] bio_ok_frame [OF _ assms(2)] assms(3) by auto
  qed
  moreover have "pdus q' u = pdus q u" if "u \<in> set ts" for u using that assms(1,3) by (auto simp: pending_ok_def)
  ultimately show ?thesis using assms(1,4,5) tid unfolding pending_ok_def fresh_req_def by auto
qed

text \<open>Flushing the work of one queue.\<close>

lemma flush_loop_ok:
  assumes "queue_inv H es q km" and "pending_ok ts q km"
  shows "\<exists>q' km' es' subs backs. flush_loop H ts q km = Some (q', km') \<and> queue_inv H es' q' km' \<and>
    pages_frame q km q' km' \<and> task_wq q' = task_wq q \<and> q_status q' = q_status q \<and>
    inflight_reqs q' = inflight_reqs q @ subs \<and> blk_log q' = blk_log q @ map (back_ev (q_status q)) backs \<and>
    mset ts = mset subs + mset backs \<and> (q_status q \<noteq> UBBD_QUEUE_KSTATUS_RUNNING \<longrightarrow> subs = [] \<and> backs = ts) \<and>
    unat (q_req_tid q') \<le> unat (q_req_tid q) + length ts \<and>
    (\<forall>t \<in> set (inflight_reqs q'). ur_req (pdus q' t) = ur_req (pdus q t) \<and> ur_op (pdus q' t) = ur_op (pdus q t))"
  using assms
proof (induction ts arbitrary: es q km)
  case Nil
  then show ?case
    by (intro exI [of _ q] exI [of _ km] exI [of _ es] exI [of _ "[]"]) (simp add: pages_frame_refl)
next
  case (Cons t ts)
  have fr: "fresh_req t q km" using Cons.prems(2) by (simp add: pending_ok_def)
  obtain q1 km1 es1 sub where s1: "ubbd_queue_workfn H t q km = Some (q1, km1)" "queue_inv H es1 q1 km1" "pages_frame q km q1 km1"
      "task_wq q1 = task_wq q" "q_status q1 = q_status q" "\<forall>u. u \<noteq> t \<longrightarrow> pdus q1 u = pdus q u"
    and sub: "sub \<Longrightarrow> q_status q = UBBD_QUEUE_KSTATUS_RUNNING \<and> inflight_reqs q1 = inflight_reqs q @ [t] \<and> blk_log q1 = blk_log q \<and>
       q_req_tid q1 = q_req_tid q + 1 \<and> ur_req (pdus q1 t) = ur_req (pdus q t) \<and> ur_op (pdus q1 t) = ur_op (pdus q t)"
    and bk: "\<not> sub \<Longrightarrow> inflight_reqs q1 = inflight_reqs q \<and> blk_log q1 = blk_log q @ [back_ev (q_status q) t] \<and> q_req_tid q1 = q_req_tid q"
    using workfn_one [OF Cons.prems(1) fr] by blast
  have tid: "unat (q_req_tid q1) \<le> unat (q_req_tid q) + 1"
    using sub bk by (cases sub) (auto simp: unat_word_ariths)
  define xs where "xs = (if sub then [t] else [])"
  have xs: "inflight_reqs q1 = inflight_reqs q @ xs" "set xs \<subseteq> {t}" using sub bk by (auto simp: xs_def)
  have p1: "pending_ok ts q1 km1" by (rule pending_step [OF Cons.prems(2) s1(3,6) xs tid])
  from Cons.IH [OF s1(2) p1] obtain q' km' es' subs backs where s2: "flush_loop H ts q1 km1 = Some (q', km')"
      "queue_inv H es' q' km'" "pages_frame q1 km1 q' km'" "task_wq q' = task_wq q1" "q_status q' = q_status q1"
      "inflight_reqs q' = inflight_reqs q1 @ subs" "blk_log q' = blk_log q1 @ map (back_ev (q_status q1)) backs"
      "mset ts = mset subs + mset backs" "q_status q1 \<noteq> UBBD_QUEUE_KSTATUS_RUNNING \<longrightarrow> subs = [] \<and> backs = ts"
      "unat (q_req_tid q') \<le> unat (q_req_tid q1) + length ts"
      "\<forall>u \<in> set (inflight_reqs q'). ur_req (pdus q' u) = ur_req (pdus q1 u) \<and> ur_op (pdus q' u) = ur_op (pdus q1 u)" by blast
  have keep: "ur_req (pdus q' u) = ur_req (pdus q u) \<and> ur_op (pdus q' u) = ur_op (pdus q u)" if u: "u \<in> set (inflight_reqs q')" for u
  proof (cases "u = t")
    case False
    then show ?thesis using s2(11) u s1(6) by simp
  next
    case True
    have "t \<notin> set ts" "t \<notin> set (inflight_reqs q)" using Cons.prems(2) by (auto simp: pending_ok_def fresh_req_def)
    moreover have "set subs \<subseteq> set ts" using s2(8) by (metis mset_subset_eq_add_left set_mset_mono set_mset_mset)
    ultimately have sub using u True s2(6) xs by (auto simp: xs_def split: if_splits)
    then show ?thesis using sub s2(11) u True by auto
  qed
  have "mset (t # ts) = mset (xs @ subs) + mset ((if sub then [] else [t]) @ backs)" using s2(8) by (simp add: xs_def)
  moreover have "blk_log q' = blk_log q @ map (back_ev (q_status q)) ((if sub then [] else [t]) @ backs)"
    using s2(7) s1(5) sub bk by auto
  moreover have "xs @ subs = [] \<and> (if sub then [] else [t]) @ backs = t # ts" if "q_status q \<noteq> UBBD_QUEUE_KSTATUS_RUNNING"
    using that sub s2(9) s1(5) by (auto simp: xs_def)
  ultimately show ?case
    using s1(1,4,5) s2(1,2,4,5,6,10) xs(1) tid keep pages_frame_trans [OF s1(3) s2(3)]
    by (intro exI [of _ q'] exI [of _ km'] exI [of _ es'] exI [of _ "xs @ subs"] exI [of _ "(if sub then [] else [t]) @ backs"]) simp
qed

section \<open>Work on every queue\<close>

fun ev_tag :: "blk_event \<Rightarrow> nat" where
  "ev_tag (Started t) = t" | "ev_tag (Requeued t) = t" | "ev_tag (Ended t ret) = t"

fun gives_back :: "int \<Rightarrow> blk_event \<Rightarrow> bool" where
  "gives_back err (Started t) = False" | "gives_back err (Requeued t) = True" | "gives_back err (Ended t ret) = (ret = err)"

text \<open>
  No request is lost or answered twice: of the requests a queue had, each is still
  outstanding, still queued, or was given back to the block layer once (handed back, or
  ended with the error).
\<close>

definition conserved :: "int \<Rightarrow> ubbd_queue \<Rightarrow> ubbd_queue \<Rightarrow> bool" where
  "conserved err q q' \<longleftrightarrow> (\<exists>evs. blk_log q' = blk_log q @ evs \<and> list_all (gives_back err) evs \<and>
     mset (inflight_reqs q) + mset (task_wq q) = mset (inflight_reqs q') + mset (task_wq q') + mset (map ev_tag evs))"

lemma conserved_refl: "blk_log q' = blk_log q \<Longrightarrow> inflight_reqs q' = inflight_reqs q \<Longrightarrow> task_wq q' = task_wq q \<Longrightarrow> conserved err q q'"
  by (simp add: conserved_def)

lemma conserved_trans: "conserved err q q1 \<Longrightarrow> conserved err q1 q2 \<Longrightarrow> conserved err q q2"
proof -
  assume "conserved err q q1" "conserved err q1 q2"
  then obtain es fs where "blk_log q1 = blk_log q @ es" "list_all (gives_back err) es" "blk_log q2 = blk_log q1 @ fs"
      "list_all (gives_back err) fs"
      "mset (inflight_reqs q) + mset (task_wq q) = mset (inflight_reqs q1) + mset (task_wq q1) + mset (map ev_tag es)"
      "mset (inflight_reqs q1) + mset (task_wq q1) = mset (inflight_reqs q2) + mset (task_wq q2) + mset (map ev_tag fs)"
    by (auto simp: conserved_def)
  then show ?thesis unfolding conserved_def by (intro exI [of _ "es @ fs"]) (simp add: ac_simps)
qed

text \<open>An operation applied to every queue in turn, as the loops over the queues do.\<close>

fun each_queue ::
  "(ubbd_queue \<Rightarrow> kmem \<Rightarrow> (ubbd_queue \<times> kmem) option) \<Rightarrow> dev_queue list \<Rightarrow> kmem \<Rightarrow> (dev_queue list \<times> kmem) option" where
  "each_queue f [] km = Some ([], km)"
| "each_queue f (q # qs) km = do {
     (c, km1) \<leftarrow> f (dq_core q) km;
     (qs1, km2) \<leftarrow> each_queue f qs km1;
     Some (q\<lparr>dq_core := c\<rparr> # qs1, km2)
   }"

locale queue_work =
  fixes H :: ubbd_h and f :: "ubbd_queue \<Rightarrow> kmem \<Rightarrow> (ubbd_queue \<times> kmem) option" and did :: "ubbd_queue \<Rightarrow> ubbd_queue \<Rightarrow> bool"
  assumes work_ok: "dev_queue_ok H q km \<Longrightarrow> \<exists>q' km'. f q km = Some (q', km') \<and> queue_step H q km q' km' \<and> did q q'"
begin

lemma on_queue:
  assumes "dev_queues_ok H (map dq_core qs) km" and "i < length qs"
  shows "\<exists>c km'. f (dq_core (qs ! i)) km = Some (c, km') \<and> did (dq_core (qs ! i)) c \<and>
    dev_queues_ok H (map dq_core (qs[i := (qs ! i)\<lparr>dq_core := c\<rparr>])) km'"
proof -
  have "dev_queue_ok H (dq_core (qs ! i)) km" using assms by (simp add: dev_queues_ok_def)
  then obtain c km' where c: "f (dq_core (qs ! i)) km = Some (c, km')" "queue_step H (dq_core (qs ! i)) km c km'" "did (dq_core (qs ! i)) c"
    using work_ok by blast
  then show ?thesis using queues_step [OF assms(1), of i c km'] assms(2) by (auto simp: map_update)
qed

lemma on_each:
  assumes "dev_queues_ok H (cs @ map dq_core qs) km"
  shows "\<exists>qs' km'. each_queue f qs km = Some (qs', km') \<and> dev_queues_ok H (cs @ map dq_core qs') km' \<and>
    list_all2 (\<lambda>q q'. \<exists>c. q' = q\<lparr>dq_core := c\<rparr> \<and> did (dq_core q) c) qs qs'"
  using assms
proof (induction qs arbitrary: cs km)
  case Nil
  then show ?case by simp
next
  case (Cons q qs)
  have "dev_queue_ok H (dq_core q) km" using Cons.prems unfolding dev_queues_ok_def by (elim conjE allE [of _ "length cs"]) (simp add: nth_append)
  then obtain c km1 where c: "f (dq_core q) km = Some (c, km1)" "queue_step H (dq_core q) km c km1" "did (dq_core q) c"
    using work_ok by blast
  have "dev_queues_ok H ((cs @ map dq_core (q # qs))[length cs := c]) km1"
    by (rule queues_step [OF Cons.prems]) (simp_all add: nth_append c(2))
  then have "dev_queues_ok H ((cs @ [c]) @ map dq_core qs) km1" by (simp add: list_update_append)
  from Cons.IH [OF this] show ?case using c by fastforce
qed

end

text \<open>The two operations on a queue: flushing its work, and ending its inflight requests.\<close>

definition flush_queue :: "ubbd_h \<Rightarrow> ubbd_queue \<Rightarrow> kmem \<Rightarrow> (ubbd_queue \<times> kmem) option" where
  "flush_queue H q km = flush_loop H (task_wq q) (q\<lparr>task_wq := []\<rparr>) km"

definition flushed :: "ubbd_queue \<Rightarrow> ubbd_queue \<Rightarrow> bool" where
  "flushed q q' \<longleftrightarrow> conserved (- EIO) q q' \<and> task_wq q' = [] \<and> q_status q' = q_status q \<and>
     (q_status q \<noteq> UBBD_QUEUE_KSTATUS_RUNNING \<longrightarrow> inflight_reqs q' = inflight_reqs q \<and>
        blk_log q' = blk_log q @ map (back_ev (q_status q)) (task_wq q))"

definition ended :: "int \<Rightarrow> ubbd_queue \<Rightarrow> ubbd_queue \<Rightarrow> bool" where
  "ended ret q q' \<longleftrightarrow> conserved ret q q' \<and> inflight_reqs q' = [] \<and> task_wq q' = task_wq q \<and> q_status q' = q_status q \<and> compr_same q q'"

lemma flush_workqueue_each: "flush_workqueue H = each_queue (flush_queue H)"
proof (intro ext)
  show "flush_workqueue H qs km = each_queue (flush_queue H) qs km" for qs km
    by (induction qs arbitrary: km) (simp_all add: flush_queue_def)
qed

lemma end_queues_each: "end_queues_loop H ret = each_queue (ubbd_queue_end_inflight_reqs H ret)"
proof (intro ext)
  show "end_queues_loop H ret qs km = each_queue (ubbd_queue_end_inflight_reqs H ret) qs km" for qs km
    by (induction qs arbitrary: km) simp_all
qed

lemma pending_cong:
  "inflight_reqs q' = inflight_reqs q \<Longrightarrow> pdus q' = pdus q \<Longrightarrow> data_pages_array q' = data_pages_array q \<Longrightarrow> q_req_tid q' = q_req_tid q \<Longrightarrow>
     pending_ok ts q' km = pending_ok ts q km"
  by (simp add: pending_ok_def fresh_req_def rq_wf_def bio_ok_def)

lemma flush_queue_ok:
  assumes "dev_queue_ok H q km"
  shows "\<exists>q' km'. flush_queue H q km = Some (q', km') \<and> queue_step H q km q' km' \<and> flushed q q'"
proof -
  let ?q = "q\<lparr>task_wq := []\<rparr>"
  obtain es where "queue_inv H es q km" using assms by (auto simp: dev_queue_ok_def)
  then have inv: "queue_inv H es ?q km" using reqs_inv_cong [of ?q q] by (simp add: queue_inv_def)
  have pend: "pending_ok (task_wq q) ?q km" using assms pending_cong [of ?q q] by (simp add: dev_queue_ok_def)
  obtain q' km' es' subs backs where r0: "flush_loop H (task_wq q) ?q km = Some (q', km')" "queue_inv H es' q' km'"
      "pages_frame ?q km q' km'" "task_wq q' = task_wq ?q" "q_status q' = q_status ?q" "inflight_reqs q' = inflight_reqs ?q @ subs"
      "blk_log q' = blk_log ?q @ map (back_ev (q_status ?q)) backs" "mset (task_wq q) = mset subs + mset backs"
      "q_status ?q \<noteq> UBBD_QUEUE_KSTATUS_RUNNING \<longrightarrow> subs = [] \<and> backs = task_wq q"
      "unat (q_req_tid q') \<le> unat (q_req_tid ?q) + length (task_wq q)"
      "\<forall>t \<in> set (inflight_reqs q'). ur_req (pdus q' t) = ur_req (pdus ?q t) \<and> ur_op (pdus q' t) = ur_op (pdus ?q t)"
    using flush_loop_ok [OF inv pend] by blast
  note r = r0 [simplified]
  have tid: "unat (q_req_tid q') < 2 ^ 64 - 1" using r(10) pend by (simp add: pending_ok_def)
  have "set subs \<subseteq> set (task_wq q)" using r(8) by (metis mset_subset_eq_add_left set_mset_mono set_mset_mset)
  then have "buf_pages q' \<subseteq> buf_pages q"
    using r(4,6,11) by (fastforce simp: buf_pages_def req_pages_def data_req_def split: if_splits)
  moreover have "dev_queue_ok H q' km'" using r(2,4) tid by (auto simp: dev_queue_ok_def pending_ok_def)
  ultimately have "queue_step H q km q' km'" using r(3) by (simp add: queue_step_def pages_frame_def)
  moreover have "conserved (- EIO) q q'"
    unfolding conserved_def using r(4,6,7,8)
    by (intro exI [of _ "map (back_ev (q_status q)) backs"]) (simp add: list_all_iff back_ev_def comp_def)
  ultimately show ?thesis using r(1,4-7,9) by (auto simp: flush_queue_def flushed_def)
qed

lemma end_queue_ok:
  assumes "dev_queue_ok H q km"
  shows "\<exists>q' km'. ubbd_queue_end_inflight_reqs H ret q km = Some (q', km') \<and> queue_step H q km q' km' \<and> ended ret q q'"
proof -
  let ?q = "q\<lparr>inflight_reqs := []\<rparr>"
  obtain es where inv: "queue_inv H es q km" using assms by (auto simp: dev_queue_ok_def)
  then have ri: "reqs_inv H es (set (inflight_reqs q)) ?q km" and d: "distinct (inflight_reqs q)"
    using queue_inv_upd(2) by (auto simp: queue_inv_def)
  obtain q' km' es' where s: "end_loop H ret (inflight_reqs q) ?q km = Some (q', km')" "reqs_inv H es' {} q' km'"
      "blk_log q' = blk_log q @ map (\<lambda>t. Ended t ret) (inflight_reqs q)" "queue_rest_eq ?q q'" "pages_frame ?q km q' km'"
      "\<forall>u. u \<notin> set (inflight_reqs q) \<longrightarrow> pdus q' u = pdus q u"
    using end_loop_ok [OF ri d, of ret] by auto
  note e = s(4) [unfolded queue_rest_eq_def]
  have fresh: "fresh_req t q' km'" if "t \<in> set (task_wq q)" for t
  proof -
    have f: "fresh_req t q km" using that assms by (simp add: dev_queue_ok_def pending_ok_def)
    then have "rq_wf q' km' (pdus q t)"
      using rq_wf_cong [of q km "pdus q t" q' km'] bio_ok_frame [of q km "pdus q t" q' km'] s(5)
      by (simp add: fresh_req_def pages_frame_def)
    then show ?thesis using f s(6) e by (simp add: fresh_req_def)
  qed
  have "buf_pages q' \<subseteq> buf_pages q"
  proof -
    have "pdus q' t = pdus q t" if "t \<in> set (task_wq q)" for t
      using that s(6) assms by (auto simp: dev_queue_ok_def pending_ok_def fresh_req_def)
    then show ?thesis using e by (auto simp: buf_pages_def)
  qed
  moreover have "dev_queue_ok H q' km'"
    using s(2) e fresh assms by (auto simp: dev_queue_ok_def queue_inv_def pending_ok_def)
  ultimately have "queue_step H q km q' km'" using s(5) by (simp add: queue_step_def pages_frame_def)
  moreover have "conserved ret q q'"
    unfolding conserved_def using s(3) e
    by (intro exI [of _ "map (\<lambda>t. Ended t ret) (inflight_reqs q)"]) (simp add: list_all_iff comp_def)
  ultimately show ?thesis using s(1) e by (auto simp: ubbd_queue_end_inflight_reqs_def ended_def compr_same_def)
qed

interpretation flush: queue_work H "flush_queue H" flushed for H
  by unfold_locales (rule flush_queue_ok)

interpretation force: queue_work H "ubbd_queue_end_inflight_reqs H ret" "ended ret" for H ret
  by unfold_locales (rule end_queue_ok)

section \<open>Stopping and starting a queue\<close>

lemma status_step:
  assumes "dev_queue_ok H c km"
  shows "queue_step H c km (c\<lparr>q_status := st\<rparr>) km"
proof -
  let ?c = "c\<lparr>q_status := st\<rparr>"
  obtain es where "queue_inv H es c km" using assms by (auto simp: dev_queue_ok_def)
  then have "queue_inv H es ?c km" using reqs_inv_cong [of ?c c] by (simp add: queue_inv_def)
  moreover have "pending_ok (task_wq c) ?c km" using assms pending_cong [of ?c c] by (simp add: dev_queue_ok_def)
  ultimately show ?thesis by (auto simp: queue_step_def pages_frame_refl buf_pages_def dev_queue_ok_def)
qed

lemma queues_status:
  assumes "dev_queues_ok H (map dq_core qs) km" and "i < length qs" and "dq_core q' = (dq_core (qs ! i))\<lparr>q_status := st\<rparr>"
  shows "dev_queues_ok H (map dq_core (qs[i := q'])) km"
proof -
  have "dev_queue_ok H (dq_core (qs ! i)) km" using assms(1,2) by (simp add: dev_queues_ok_def)
  from status_step [OF this, of st] show ?thesis
    using queues_step [OF assms(1), of i "dq_core q'" km] assms(2,3) by (simp add: map_update)
qed

lemma flush_all:
  assumes "dev_queues_ok H (map dq_core qs) km"
  shows "\<exists>qs' km'. flush_workqueue H qs km = Some (qs', km') \<and> dev_queues_ok H (map dq_core qs') km' \<and> length qs' = length qs \<and>
    (\<forall>j < length qs. qs' ! j = (qs ! j)\<lparr>dq_core := dq_core (qs' ! j)\<rparr> \<and> flushed (dq_core (qs ! j)) (dq_core (qs' ! j)))"
proof -
  obtain qs' km' where r: "flush_workqueue H qs km = Some (qs', km')" "dev_queues_ok H (map dq_core qs') km'"
      "list_all2 (\<lambda>q q'. \<exists>c. q' = q\<lparr>dq_core := c\<rparr> \<and> flushed (dq_core q) c) qs qs'"
    using flush.on_each [of H "[]" qs km] assms by (auto simp: flush_workqueue_each)
  have "qs' ! j = (qs ! j)\<lparr>dq_core := dq_core (qs' ! j)\<rparr> \<and> flushed (dq_core (qs ! j)) (dq_core (qs' ! j))" if "j < length qs" for j
    using list_all2_nthD [OF r(3) that] by auto
  then show ?thesis using r list_all2_lengthD [OF r(3)] by auto
qed

definition drained :: "ubbd_queue \<Rightarrow> ubbd_queue \<Rightarrow> bool" where
  "drained q q' \<longleftrightarrow> task_wq q' = [] \<and> inflight_reqs q' = inflight_reqs q \<and> blk_log q' = blk_log q @ map Requeued (task_wq q) \<and>
     q_status q' = (if inflight_reqs q = [] then UBBD_QUEUE_KSTATUS_STOPPED else UBBD_QUEUE_KSTATUS_STOPPING)"

lemma queue_stop_ok:
  assumes ok: "dev_queues_ok H (map dq_core qs) km" and i: "i < length qs" and run: "q_status (dq_core (qs ! i)) = UBBD_QUEUE_KSTATUS_RUNNING"
  shows "\<exists>qs' km'. queue_stop H i qs km = Some (0, qs', km') \<and> dev_queues_ok H (map dq_core qs') km' \<and> length qs' = length qs \<and>
    drained (dq_core (qs ! i)) (dq_core (qs' ! i)) \<and>
    dq_hctx (qs' ! i) = (if dq_hctx (qs ! i) = None then None else find_running_queue qs) \<and>
    (\<forall>j < length qs. j \<noteq> i \<longrightarrow> flushed (dq_core (qs ! j)) (dq_core (qs' ! j)) \<and> dq_hctx (qs' ! j) = dq_hctx (qs ! j))"
proof -
  define h where "h = (if dq_hctx (qs ! i) = None then None else find_running_queue qs)"
  define q1 where "q1 = (case dq_hctx (qs ! i) of None \<Rightarrow> qs ! i
      | Some _ \<Rightarrow> (case find_running_queue qs of None \<Rightarrow> qs ! i | Some r \<Rightarrow> (qs ! i)\<lparr>dq_hctx := Some r\<rparr>))"
  have "find_running_queue qs \<noteq> None" using i run by (auto simp: find_running_queue_def find_None_iff)
  then have q1: "dq_core q1 = dq_core (qs ! i)" "dq_hctx q1 = h" by (auto simp: q1_def h_def split: option.splits)
  define qa where "qa = qs[i := set_q_status UBBD_QUEUE_KSTATUS_STOPPING q1]"
  have qa: "length qa = length qs" "dq_core (qa ! i) = (dq_core (qs ! i))\<lparr>q_status := UBBD_QUEUE_KSTATUS_STOPPING\<rparr>"
      "dq_hctx (qa ! i) = h" "\<And>j. j \<noteq> i \<Longrightarrow> qa ! j = qs ! j"
    using i q1 by (simp_all add: qa_def set_q_status_def)
  have "dev_queues_ok H (map dq_core qa) km"
    unfolding qa_def by (rule queues_status [OF ok i]) (simp add: set_q_status_def q1)
  then obtain qb km1 where b: "flush_workqueue H qa km = Some (qb, km1)" "dev_queues_ok H (map dq_core qb) km1" "length qb = length qs"
      "\<forall>j < length qs. qb ! j = (qa ! j)\<lparr>dq_core := dq_core (qb ! j)\<rparr> \<and> flushed (dq_core (qa ! j)) (dq_core (qb ! j))"
    using flush_all qa(1) by metis
  define qc where "qc = (if inflight_reqs (dq_core (qb ! i)) = [] then qb[i := set_q_status UBBD_QUEUE_KSTATUS_STOPPED (qb ! i)] else qb)"
  have run': "queue_stop H i qs km = Some (0, qc, km1)"
    using run b(1) by (simp add: queue_stop_def q1_def [symmetric] qa_def [symmetric] qc_def)
  have hx: "dq_hctx (qb ! j) = dq_hctx (qa ! j)" if "j < length qs" for j
    using b(4) that by (metis (no_types) dev_queue.select_convs(9) dev_queue.surjective dev_queue.update_convs(1))
  have fi: "flushed (dq_core (qa ! i)) (dq_core (qb ! i))" using b(4) i by blast
  then have "drained (dq_core (qs ! i)) (dq_core (qc ! i))"
    using qa(2) b(3) i by (auto simp: drained_def flushed_def qc_def set_q_status_def back_ev_def)
  moreover have "dev_queues_ok H (map dq_core qc) km1"
    using b(2,3) i queues_status [OF b(2), of i] by (auto simp: qc_def set_q_status_def)
  moreover have "dq_hctx (qc ! i) = h" "length qc = length qs" using hx [OF i] qa(3) b(3) i by (auto simp: qc_def set_q_status_def)
  moreover have "flushed (dq_core (qs ! j)) (dq_core (qc ! j)) \<and> dq_hctx (qc ! j) = dq_hctx (qs ! j)" if "j < length qs" "j \<noteq> i" for j
    using b(4) hx [OF that(1)] that qa(4) [OF that(2)] by (auto simp: qc_def)
  ultimately show ?thesis using run' unfolding h_def by blast
qed

lemma queue_id_ok:
  assumes "i < unat (n :: u32)"
  shows "\<not> n \<le> word_of_int (int i)"
proof -
  have "unat n < 2 ^ LENGTH(32)" by (rule unsigned_less)
  with assms have "i < 2 ^ LENGTH(32)" by (rule less_trans)
  then have "unat (word_of_nat i :: u32) = i" by (simp add: unat_of_nat take_bit_nat_eq_self)
  then show ?thesis using assms by (simp add: word_le_nat_alt)
qed

text \<open>A queue that runs and one that is stopped, whose pages and requests do not meet.\<close>

definition rcore1 :: ubbd_queue where "rcore1 = (queue1 56)\<lparr>task_wq := [1]\<rparr>"

definition rcore2 :: ubbd_queue where
  "rcore2 = (queue1 56)\<lparr>cmd_head := 0, cmdr_mem := (\<lambda>_. zero_se), data_pages_allocated := 0, data_bitmap := replicate 4 False,
     data_pages_array := Map.empty, inflight_reqs := []\<rparr>"

definition qdev0 :: ubbd_device where
  "qdev0 = rdev0\<lparr>queues := [(rq0 0)\<lparr>dq_core := rcore1\<rparr>, (rq0 1)\<lparr>dq_core := rcore2\<rparr>]\<rparr>"

lemma rcore2_inv: "queue_inv H0 [] rcore2 (km0 [])"
proof -
  have "ring_rep H0 [] rcore2"
    by (auto simp: ring_rep_def ring_inv_def rcore2_def queue1_def elen_def)
  moreover have "unf H0 [] rcore2 = {}" by (simp add: unfinished_locs_code)
  moreover have "pool_inv {} rcore2 (km0 [])"
    using queue1_pool [of 56 "[]"] by (auto simp: pool_inv_def rcore2_def queue1_def)
  ultimately show ?thesis by (simp add: queue_inv_def reqs_inv_def reqs_apart_def) (simp add: rcore2_def queue1_def)
qed

lemma rcore1_ok: "dev_queue_ok H0 rcore1 (km0 [])"
proof -
  have "queue_inv H0 [e_w 56] rcore1 (km0 [])"
    using queue1_inv [of 56 "[]"] reqs_inv_cong [of rcore1 "queue1 56"] by (simp add: queue_inv_def rcore1_def)
  moreover have "pending_ok [1] rcore1 (km0 [])"
    using queue1_fresh [of 56 "[]"] pending_cong [of rcore1 "queue1 56" "[1]"]
    by (simp add: rcore1_def pending_ok_def) (simp add: queue1_def)
  ultimately show ?thesis by (auto simp: dev_queue_ok_def rcore1_def)
qed

lemma qdev0_ok: "dev_queues_ok H0 (map dq_core (queues qdev0)) (km0 [])"
proof -
  have "dev_queue_ok H0 rcore2 (km0 [])"
    using rcore2_inv by (auto simp: dev_queue_ok_def pending_ok_def) (auto simp: rcore2_def queue1_def)
  moreover have "ran (data_pages_array rcore2) = {}" "buf_pages rcore2 = {}"
    by (simp_all add: rcore2_def queue1_def buf_pages_def)
  ultimately show ?thesis using rcore1_ok
    by (auto simp: dev_queues_ok_def qdev0_def less_Suc_eq nth_Cons split: nat.splits)
qed

lemma qdev0_facts:
  "length (queues qdev0) = 2" "num_queues qdev0 = 2" "dv_status qdev0 = UBBD_DEV_KSTATUS_RUNNING" "dq_core (queues qdev0 ! 0) = rcore1"
  "q_status rcore1 = UBBD_QUEUE_KSTATUS_RUNNING" "disk qdev0 = Some gd0" "status_flags qdev0 = 0"
  by (simp_all add: qdev0_def rdev0_def zero_device_def rcore1_def queue1_def)



text \<open>\<open>find_running_queue\<close> is called before the queue leaves the running state: when no queue of a
  lower index runs, it finds the queue that is being stopped, and the hardware queue keeps
  feeding it; every request is then refused although another queue runs.\<close>

theorem stopped_queue_still_fed:
  assumes "dev_queues_ok H (map dq_core (queues d)) km" and "length (queues d) = unat (num_queues d)"
    and "dv_status d = UBBD_DEV_KSTATUS_RUNNING" and "0 < length (queues d)"
    and "q_status (dq_core (queues d ! 0)) = UBBD_QUEUE_KSTATUS_RUNNING" and "dq_hctx (queues d ! 0) = Some 0"
  shows "\<exists>d1 km1. ubbd_dev_stop_queue H 0 d km = Some (0, d1, km1) \<and> dq_hctx (queues d1 ! 0) = Some 0 \<and>
    ubbd_queue_rq H tag rq (dq_core (queues d1 ! 0)) = (BLK_STS_RESOURCE, dq_core (queues d1 ! 0))"
proof -
  have f: "find_running_queue (queues d) = Some 0"
    unfolding find_running_queue_def by (rule find_upt_first) (use assms(4,5) in simp_all)
  obtain qs km1 where s: "queue_stop H 0 (queues d) km = Some (0, qs, km1)" "dq_hctx (qs ! 0) = Some 0"
      "drained (dq_core (queues d ! 0)) (dq_core (qs ! 0))"
    using queue_stop_ok [OF assms(1,4,5)] f assms(6) by auto
  have "\<not> num_queues d \<le> word_of_int (int 0)" using queue_id_ok [of 0 "num_queues d"] assms(2,4) by simp
  then have "ubbd_dev_stop_queue H 0 d km = Some (0, d\<lparr>queues := qs\<rparr>, km1)"
    using s(1) assms(3) by (simp add: ubbd_dev_stop_queue_def)
  moreover have "ubbd_queue_rq H tag rq (dq_core (qs ! 0)) = (BLK_STS_RESOURCE, dq_core (qs ! 0))"
    using s(3) by (auto simp: drained_def ubbd_queue_rq_def split: if_splits)
  ultimately show ?thesis using s(2) by auto
qed

theorem stopped_queue_still_fed_witness:
  "\<exists>d1 km1. ubbd_dev_stop_queue H0 0 qdev0 (km0 []) = Some (0, d1, km1) \<and> dq_hctx (queues d1 ! 0) = Some 0 \<and>
    ubbd_queue_rq H0 5 (ur_req ur0) (dq_core (queues d1 ! 0)) = (BLK_STS_RESOURCE, dq_core (queues d1 ! 0))"
  by (rule stopped_queue_still_fed [OF qdev0_ok]) (simp_all add: qdev0_facts, simp add: qdev0_def rq0_def)

section \<open>Removing the disk\<close>

definition gone :: "bool \<Rightarrow> ubbd_queue \<Rightarrow> bool" where
  "gone force q \<longleftrightarrow> q_status q = UBBD_QUEUE_KSTATUS_REMOVING \<and> task_wq q = [] \<and> (force \<longrightarrow> inflight_reqs q = [])"

lemma flushed_gone: "flushed q q' \<Longrightarrow> gone force q \<Longrightarrow> gone force q'"
  by (auto simp: flushed_def gone_def)

text \<open>One round of the loop: the queue is marked, all work is flushed, its requests are ended.\<close>

lemma remove_round_ok:
  assumes ok: "dev_queues_ok H (map dq_core qs) km" and k: "k < length qs"
  shows "\<exists>qs' km'. remove_queues_loop H force (k # is) qs km = remove_queues_loop H force is qs' km' \<and>
    dev_queues_ok H (map dq_core qs') km' \<and> length qs' = length qs \<and> gone force (dq_core (qs' ! k)) \<and>
    (\<forall>j < length qs. conserved (- EIO) (dq_core (qs ! j)) (dq_core (qs' ! j)) \<and>
       (gone force (dq_core (qs ! j)) \<longrightarrow> gone force (dq_core (qs' ! j))))"
proof -
  define qa where "qa = qs[k := set_q_status UBBD_QUEUE_KSTATUS_REMOVING (qs ! k)]"
  have a: "dev_queues_ok H (map dq_core qa) km"
    unfolding qa_def by (rule queues_status [OF ok k]) (simp add: set_q_status_def)
  have qa: "length qa = length qs" "dq_core (qa ! k) = (dq_core (qs ! k))\<lparr>q_status := UBBD_QUEUE_KSTATUS_REMOVING\<rparr>"
      "\<And>j. j \<noteq> k \<Longrightarrow> qa ! j = qs ! j" using k by (simp_all add: qa_def set_q_status_def)
  have ca: "conserved (- EIO) (dq_core (qs ! j)) (dq_core (qa ! j)) \<and> (gone force (dq_core (qs ! j)) \<longrightarrow> gone force (dq_core (qa ! j)))" for j
    using qa(2,3) by (cases "j = k") (auto simp: conserved_refl gone_def)
  obtain qb km1 where b: "flush_workqueue H qa km = Some (qb, km1)" "dev_queues_ok H (map dq_core qb) km1" "length qb = length qa"
      "\<forall>j < length qa. qb ! j = (qa ! j)\<lparr>dq_core := dq_core (qb ! j)\<rparr> \<and> flushed (dq_core (qa ! j)) (dq_core (qb ! j))"
    using flush_all [OF a] by blast
  have fl: "flushed (dq_core (qa ! j)) (dq_core (qb ! j))" if "j < length qs" for j using b(4) that qa(1) by auto
  have cb: "conserved (- EIO) (dq_core (qs ! j)) (dq_core (qb ! j)) \<and> (gone force (dq_core (qs ! j)) \<longrightarrow> gone force (dq_core (qb ! j)))"
    if "j < length qs" for j
    using ca [of j] fl [OF that] flushed_gone [OF fl [OF that]] conserved_trans [of "- EIO" _ "dq_core (qa ! j)"]
    by (simp add: flushed_def)
  have gk: "q_status (dq_core (qb ! k)) = UBBD_QUEUE_KSTATUS_REMOVING" "task_wq (dq_core (qb ! k)) = []"
    using fl [OF k] qa(2) by (auto simp: flushed_def)
  show ?thesis
  proof (cases force)
    case False
    then have "remove_queues_loop H force (k # is) qs km = remove_queues_loop H force is qb km1"
      using b(1) qa(1) b(3) by (simp add: qa_def)
    moreover have "gone force (dq_core (qb ! k))" using False gk by (simp add: gone_def)
    ultimately show ?thesis using b(2,3) qa(1) cb by (intro exI [of _ qb] exI [of _ km1]) simp
  next
    case True
    have kb: "k < length qb" using k b(3) qa(1) by simp
    obtain c km2 where c: "ubbd_queue_end_inflight_reqs H (- EIO) (dq_core (qb ! k)) km1 = Some (c, km2)"
        "ended (- EIO) (dq_core (qb ! k)) c" "dev_queues_ok H (map dq_core (qb[k := (qb ! k)\<lparr>dq_core := c\<rparr>])) km2"
      using force.on_queue [OF b(2) kb, of "- EIO"] by blast
    define qc where "qc = qb[k := (qb ! k)\<lparr>dq_core := c\<rparr>]"
    have "remove_queues_loop H force (k # is) qs km = remove_queues_loop H force is qc km2"
      using True b(1) c(1) by (simp add: qa_def qc_def)
    moreover have "gone force (dq_core (qc ! k))" using c(2) gk kb by (simp add: gone_def ended_def qc_def)
    moreover have "conserved (- EIO) (dq_core (qs ! j)) (dq_core (qc ! j)) \<and> (gone force (dq_core (qs ! j)) \<longrightarrow> gone force (dq_core (qc ! j)))"
      if "j < length qs" for j
    proof (cases "j = k")
      case jk: True
      have "conserved (- EIO) (dq_core (qs ! k)) c" using cb [OF k] conserved_trans c(2) unfolding ended_def by blast
      then show ?thesis using jk kb \<open>gone force (dq_core (qc ! k))\<close> by (simp add: qc_def)
    next
      case False
      then show ?thesis using cb [OF that] by (simp add: qc_def)
    qed
    moreover have "dev_queues_ok H (map dq_core qc) km2" "length qc = length qs" using c(3) b(3) qa(1) by (simp_all add: qc_def)
    ultimately show ?thesis by blast
  qed
qed

lemma remove_loop_ok:
  assumes "dev_queues_ok H (map dq_core qs) km" and "k \<le> length qs" and "\<forall>j < k. gone force (dq_core (qs ! j))"
  shows "\<exists>qs' km'. remove_queues_loop H force [k..<length qs] qs km = Some (qs', km') \<and>
    dev_queues_ok H (map dq_core qs') km' \<and> length qs' = length qs \<and>
    (\<forall>j < length qs. gone force (dq_core (qs' ! j)) \<and> conserved (- EIO) (dq_core (qs ! j)) (dq_core (qs' ! j)))"
  using assms
proof (induction "length qs - k" arbitrary: k qs km)
  case 0
  then show ?case by (auto simp: conserved_refl)
next
  case (Suc m)
  then have k: "k < length qs" "[k..<length qs] = k # [Suc k..<length qs]" by (simp_all add: upt_conv_Cons)
  obtain qs1 km1 where r: "remove_queues_loop H force (k # [Suc k..<length qs]) qs km = remove_queues_loop H force [Suc k..<length qs] qs1 km1"
      "dev_queues_ok H (map dq_core qs1) km1" "length qs1 = length qs" "gone force (dq_core (qs1 ! k))"
      "\<forall>j < length qs. conserved (- EIO) (dq_core (qs ! j)) (dq_core (qs1 ! j)) \<and>
         (gone force (dq_core (qs ! j)) \<longrightarrow> gone force (dq_core (qs1 ! j)))"
    using remove_round_ok [OF Suc.prems(1) k(1)] by blast
  have g: "\<forall>j < Suc k. gone force (dq_core (qs1 ! j))" using r(4,5) Suc.prems(3) k(1) by (auto simp: less_Suc_eq)
  have l: "m = length qs1 - Suc k" "Suc k \<le> length qs1" using Suc.hyps(2) r(3) k(1) by simp_all
  obtain qs2 km2 where
    s: "remove_queues_loop H force [Suc k..<length qs1] qs1 km1 = Some (qs2, km2)" "dev_queues_ok H (map dq_core qs2) km2"
      "length qs2 = length qs1"
      "\<forall>j < length qs1. gone force (dq_core (qs2 ! j)) \<and> conserved (- EIO) (dq_core (qs1 ! j)) (dq_core (qs2 ! j))"
    using Suc.hyps(1) [OF l(1) r(2) l(2) g] by blast
  have "gone force (dq_core (qs2 ! j)) \<and> conserved (- EIO) (dq_core (qs ! j)) (dq_core (qs2 ! j))" if "j < length qs" for j
    using s(4) r(3,5) that conserved_trans [of "- EIO" "dq_core (qs ! j)" "dq_core (qs1 ! j)"] by simp
  then show ?case using r(1,3) k(2) s(1-3) by simp
qed



end
