(* ===== verification/Device_Refs.thy ===== *)
theory Device_Refs
  imports Device_Props Machines
begin

text \<open>
  The references of a device. The list, every open of the disk, a queued \<open>add_disk\<close> work item,
  and the commands, debugfs files and mappings of the backend hold one each; the device is
  destroyed when the last one is dropped.
\<close>

section \<open>The machine\<close>

text \<open>
  The state of the driver and the number of references of a device \<open>k\<close> that commands, debugfs
  files and mappings hold. A reference is taken by whoever finds the device alive (through
  the list, a linked debugfs file or another mapping) and dropped once.
\<close>

inductive dev_step :: "ubbd_const \<Rightarrow> nat \<Rightarrow> ubbd_sys \<times> nat \<Rightarrow> ubbd_sys \<times> nat \<Rightarrow> bool" for C k where
  dev_take: "ubbd_dev_get k s = Some s' \<Longrightarrow> dev_step C k (s, n) (s', n + 1)"
| dev_drop: "ubbd_dev_put k s = Some s' \<Longrightarrow> dev_step C k (s, n + 1) (s', n)"
| dev_open: "ubbd_open k s = Some (ret, s') \<Longrightarrow> dev_step C k (s, n) (s', n)"
| dev_close: "devices s k = Some d \<Longrightarrow> 0 < open_count d \<Longrightarrow> ubbd_release k s = Some s' \<Longrightarrow> dev_step C k (s, n) (s', n)"
| dev_file: "ubbd_debugfs_open linked k s = Some (ret, s') \<Longrightarrow>
    dev_step C k (s, n) (s', if ret = 0 then n + 1 else n)"
| dev_queue_work: "ubbd_dev_add_disk k s = Some (ret, s') \<Longrightarrow> dev_step C k (s, n + 1) (s', n + 1)"
| dev_run_work: "k \<in> set (ubbd_wq s) \<Longrightarrow> ubbd_add_disk_fn C k s = Some s' \<Longrightarrow> dev_step C k (s, n) (s', n)"
| dev_remove: "ubbd_dev_remove_dev C k s = Some (ret, s') \<Longrightarrow> dev_step C k (s, n + 1) (s', n + 1)"

text \<open>A device that was just added.\<close>

definition dev_init :: "nat \<Rightarrow> ubbd_sys \<times> nat \<Rightarrow> bool" where
  "dev_init k = (\<lambda>(s, n). n = 0 \<and> distinct (ubbd_dev_list s) \<and> k \<in> set (ubbd_dev_list s) \<and> k \<notin> set (ubbd_wq s) \<and>
     (\<exists>d. devices s k = Some d \<and> kref d = 1 \<and> open_count d = 0 \<and> disk d \<noteq> None))"

text \<open>What matters for the references of a device, and the invariant on it.\<close>

type_synonym refs_state = "ubbd_device option \<times> nat list \<times> nat list"

definition refs_view :: "nat \<Rightarrow> ubbd_sys \<Rightarrow> refs_state" where
  "refs_view k s = (devices s k, ubbd_dev_list s, ubbd_wq s)"

fun refs_ok :: "nat \<Rightarrow> nat \<Rightarrow> refs_state \<Rightarrow> bool" where
  "refs_ok k n (None, l, w) \<longleftrightarrow> distinct l \<and> n = 0 \<and> k \<notin> set l \<and> k \<notin> set w"
| "refs_ok k n (Some d, l, w) \<longleftrightarrow> distinct l \<and> 0 < kref d \<and> (disk d \<noteq> None \<longleftrightarrow> k \<in> set l) \<and>
     kref d = of_bool (k \<in> set l) + open_count d + count_list w k + n"

definition refs_inv :: "nat \<Rightarrow> ubbd_sys \<times> nat \<Rightarrow> bool" where
  "refs_inv k = (\<lambda>(s, n). refs_ok k n (refs_view k s))"

section \<open>What the operations change\<close>

abbreviation kept :: "ubbd_sys \<Rightarrow> ubbd_sys \<Rightarrow> bool" where
  "kept s s' \<equiv> devices s' = devices s \<and> ubbd_dev_list s' = ubbd_dev_list s \<and> ubbd_wq s' = ubbd_wq s \<and> dev_next s' = dev_next s"

lemma take_ret_view: "take_ret s = (r, s') \<Longrightarrow> refs_view k s' = refs_view k s \<and> devices s' = devices s"
  by (auto simp: take_ret_def refs_view_def split: list.splits)

lemma free_res_view: "free_res r s = Some s' \<Longrightarrow> kept s s'"
  by (auto simp: free_res_def split: if_splits)

lemma queue_kring_destroy_view:
  "queue_kring_destroy q s = Some s' \<Longrightarrow> kept s s'"
  by (auto simp: queue_kring_destroy_def bind_eq_Some_conv dest: free_res_view split: name_ptr.splits prod.splits)

lemma queue_destroy_view:
  "ubbd_queue_destroy q s = Some s' \<Longrightarrow> kept s s'"
  by (auto simp: ubbd_queue_destroy_def ubbd_queue_sb_destroy_def bind_eq_Some_conv
      dest!: free_res_view queue_kring_destroy_view split: option.splits if_splits)

lemma destroy_loop_view:
  "destroy_queues_loop qs s = Some s' \<Longrightarrow> kept s s'"
  by (induction qs arbitrary: s) (auto simp: bind_eq_Some_conv dest!: queue_destroy_view)

lemma destroy_view:
  "ubbd_dev_destroy d s = Some s' \<Longrightarrow> kept s s'"
  by (auto simp: ubbd_dev_destroy_def ubbd_dev_destroy_queues_def dev_free0_def ida_free_def module_put_def bind_eq_Some_conv
      dest!: free_res_view destroy_loop_view split: prod.splits)

text \<open>Dropping a reference takes one off the count and destroys the device with the last.\<close>

lemma put_view:
  assumes "ubbd_dev_put k s = Some s'"
  shows "\<exists>d. devices s k = Some d \<and> 0 < kref d \<and>
    refs_view k s' = (if kref d = 1 then None else Some (d\<lparr>kref := kref d - 1\<rparr>), ubbd_dev_list s, ubbd_wq s)"
proof -
  obtain d where d: "devices s k = Some d" "0 < kref d" and
      r: "if kref d = 1 then ubbd_dev_destroy d (s\<lparr>devices := (devices s)(k := None)\<rparr>) = Some s'
          else s' = s\<lparr>devices := (devices s)(k \<mapsto> d\<lparr>kref := kref d - 1\<rparr>)\<rparr>"
    using assms by (auto simp: ubbd_dev_put_def upd_dev_def bind_eq_Some_conv split: if_splits)
  show ?thesis
  proof (cases "kref d = 1")
    case True
    then have "ubbd_dev_destroy d (s\<lparr>devices := (devices s)(k := None)\<rparr>) = Some s'" using r by simp
    from destroy_view [OF this] show ?thesis using d True by (simp add: refs_view_def)
  next
    case False
    then show ?thesis using d r by (simp add: refs_view_def)
  qed
qed

text \<open>A put whose reference is counted on top of the invariant restores it.\<close>

lemma put_inv:
  assumes "ubbd_dev_put k s = Some s'" and "refs_ok k (n + 1) (refs_view k s)"
  shows "refs_inv k (s', n)"
proof -
  obtain d where "devices s k = Some d"
      "refs_view k s' = (if kref d = 1 then None else Some (d\<lparr>kref := kref d - 1\<rparr>), ubbd_dev_list s, ubbd_wq s)"
    using put_view [OF assms(1)] by blast
  then show ?thesis using assms(2) by (auto simp: refs_inv_def refs_view_def count_list_0_iff)
qed

lemma upd_dev_view:
  assumes "upd_dev k f s = Some s'"
  shows "\<exists>d. devices s k = Some d \<and> refs_view k s' = (Some (f d), ubbd_dev_list s, ubbd_wq s)"
  using assms by (auto simp: upd_dev_def bind_eq_Some_conv refs_view_def)

lemma get_inv:
  assumes "ubbd_dev_get k s = Some s'" and "refs_inv k (s, n)"
  shows "refs_inv k (s', n + 1)"
  using upd_dev_view [OF assms(1) [unfolded ubbd_dev_get_def]] assms(2) by (auto simp: refs_inv_def refs_view_def)

text \<open>A change of a device that keeps its count, its opens and whether it has a disk.\<close>

definition same_refs :: "ubbd_device \<Rightarrow> ubbd_device \<Rightarrow> bool" where
  "same_refs d d' \<longleftrightarrow> kref d' = kref d \<and> open_count d' = open_count d \<and> (disk d' = None \<longleftrightarrow> disk d = None)"

definition same_view :: "nat \<Rightarrow> ubbd_sys \<Rightarrow> ubbd_sys \<Rightarrow> bool" where
  "same_view k s s' \<longleftrightarrow> (\<exists>d d'. devices s k = Some d \<and> same_refs d d' \<and> refs_view k s' = (Some d', ubbd_dev_list s, ubbd_wq s))"

lemma same_view_trans: "same_view k s s' \<Longrightarrow> same_view k s' s'' \<Longrightarrow> same_view k s s''"
  by (auto simp: same_view_def same_refs_def refs_view_def)

lemma same_view_ok: "same_view k s s' \<Longrightarrow> refs_ok k n (refs_view k s') = refs_ok k n (refs_view k s)"
  by (auto simp: same_view_def same_refs_def refs_view_def)

lemma set_rq_timeout_view: "set_rq_timeout t k s = Some s' \<Longrightarrow> same_view k s s'"
  by (auto simp: set_rq_timeout_def upd_disk_def bind_eq_Some_conv same_view_def same_refs_def refs_view_def)

lemma add_disk_view: "ubbd_add_disk C k s = Some (ret, s') \<Longrightarrow> same_view k s s'"
  by (auto simp: ubbd_add_disk_def bind_eq_Some_conv same_view_def same_refs_def refs_view_def take_ret_def Let_def
      split: if_splits list.splits)

lemma add_disk_begin_view: "add_disk_begin C k s = Some (go, s') \<Longrightarrow> same_view k s s'"
  by (auto simp: add_disk_begin_def bind_eq_Some_conv same_view_def same_refs_def refs_view_def ubbd_dev_status_flags_set_def
      split: if_splits)

lemma add_disk_work_view: "add_disk_work C k s = Some (go, s') \<Longrightarrow> same_view k s s'"
  by (auto simp: add_disk_work_def bind_eq_Some_conv split: if_splits
      dest!: set_rq_timeout_view add_disk_view intro: same_view_trans)

lemma work_inv:
  assumes "ubbd_add_disk_fn C k s = Some s'" and "k \<in> set (ubbd_wq s)" and "refs_inv k (s, n)"
  shows "refs_inv k (s', n)"
proof -
  let ?s0 = "s\<lparr>ubbd_wq := remove1 k (ubbd_wq s)\<rparr>"
  obtain go s1 running s2 s3 where b: "add_disk_begin C k ?s0 = Some (go, s1)"
      "(if go then add_disk_work C k s1 else Some (False, s1)) = Some (running, s2)"
    and u: "upd_dev k (\<lambda>d. let d1 = ubbd_dev_status_flags_clear C d UBBD_DEV_STATUS_FLAG_INTRANS in
             if running then d1\<lparr>dv_status := UBBD_DEV_KSTATUS_RUNNING\<rparr> else d1) s2 = Some s3"
    and p: "ubbd_dev_put k s3 = Some s'"
    using assms(1) by (auto simp: ubbd_add_disk_fn_def add_disk_finish_def bind_eq_Some_conv)
  note v1 = add_disk_begin_view [OF b(1)]
  have v2: "same_view k ?s0 s2" using b(2) v1 add_disk_work_view same_view_trans by (auto split: if_splits)
  have "same_view k s2 s3" using upd_dev_view [OF u] by (auto simp: same_view_def same_refs_def ubbd_dev_status_flags_clear_def Let_def)
  then have v: "same_view k ?s0 s3" using v2 same_view_trans by blast
  have "count_list (remove1 k w) k = count_list w k - 1" for w by (induction w) auto
  moreover have "0 < count_list (ubbd_wq s) k" using assms(2) count_list_0_iff by fastforce
  ultimately have "refs_ok k (n + 1) (refs_view k ?s0)"
    using assms(3) v by (auto simp: refs_inv_def refs_view_def same_view_def)
  then show ?thesis using put_inv [OF p] same_view_ok [OF v] by simp
qed

lemma remove_inv:
  assumes "ubbd_dev_remove_dev C k s = Some (ret, s')" and "refs_inv k (s, n)"
  shows "refs_inv k (s', n)"
proof -
  obtain d where d: "devices s k = Some d" using assms(1) by (auto simp: ubbd_dev_remove_dev_def bind_eq_Some_conv)
  let ?s0 = "s\<lparr>ubbd_total_devs := ubbd_total_devs s - 1, ubbd_dev_list := remove1 k (ubbd_dev_list s)\<rparr>"
  consider "s' = s" | s1 where "ubbd_free_disk k ?s0 = Some s1" "ubbd_dev_put k s1 = Some s'"
    using assms(1) by (auto simp: ubbd_dev_remove_dev_def bind_eq_Some_conv split: if_splits)
  then show ?thesis
  proof cases
    case 2
    obtain sa sb where f: "disk d \<noteq> None" "free_res R_disk ?s0 = Some sa" "free_res R_tag_set sa = Some sb"
        "upd_dev k (\<lambda>d. d\<lparr>disk := None, tag_set := None\<rparr>) sb = Some s1"
      using 2(1) d by (auto simp: ubbd_free_disk_def bind_eq_Some_conv)
    have v: "refs_view k s1 = (Some (d\<lparr>disk := None, tag_set := None\<rparr>), remove1 k (ubbd_dev_list s), ubbd_wq s)"
      using upd_dev_view [OF f(4)] free_res_view [OF f(3)] free_res_view [OF f(2)] d by auto
    have "refs_ok k (n + 1) (refs_view k s1)"
      using assms(2) d f(1) unfolding v by (auto simp: refs_inv_def refs_view_def)
    then show ?thesis using put_inv [OF 2(2)] by blast
  qed (use assms(2) in simp)
qed

lemma file_inv:
  assumes "ubbd_debugfs_open linked k s = Some (ret, s')" and "refs_inv k (s, n)"
  shows "refs_inv k (s', if ret = 0 then n + 1 else n)"
proof -
  consider "ret = - ESTALE" "s' = s" | s1 s2 where "ubbd_dev_get k s = Some s1" "take_ret s1 = (ret, s2)"
      "if ret \<noteq> 0 then ubbd_dev_put k s2 = Some s' else s' = s2"
    using assms(1)
    by (auto simp: ubbd_debugfs_open_def ubbd_dev_get_unless_zero_def bind_eq_Some_conv Let_def split: if_splits prod.splits)
  then show ?thesis
  proof cases
    case (2 s1 s2)
    then have "refs_inv k (s2, n + 1)" using get_inv [OF 2(1) assms(2)] take_ret_view [OF 2(2)] by (simp add: refs_inv_def)
    then show ?thesis using 2(3) put_inv by (auto simp: refs_inv_def split: if_splits)
  qed (use assms(2) in simp)
qed

lemma open_inv:
  assumes "ubbd_open k s = Some (ret, s')" and "refs_inv k (s, n)"
  shows "refs_inv k (s', n)"
  using assms by (auto simp: ubbd_open_def ubbd_dev_get_def upd_dev_def bind_eq_Some_conv refs_inv_def refs_view_def)

lemma close_inv:
  assumes "ubbd_release k s = Some s'" and "devices s k = Some d" and "0 < open_count d" and "refs_inv k (s, n)"
  shows "refs_inv k (s', n)"
proof -
  obtain s1 where u: "upd_dev k (\<lambda>d. d\<lparr>open_count := open_count d - 1\<rparr>) s = Some s1" "ubbd_dev_put k s1 = Some s'"
    using assms(1) by (auto simp: ubbd_release_def bind_eq_Some_conv)
  then have "refs_ok k (n + 1) (refs_view k s1)"
    using upd_dev_view [OF u(1)] assms(2-4) by (auto simp: refs_inv_def refs_view_def)
  then show ?thesis using put_inv [OF u(2)] by blast
qed

lemma queue_work_inv:
  assumes "ubbd_dev_add_disk k s = Some (ret, s')" and "refs_inv k (s, n)"
  shows "refs_inv k (s', n)"
  using assms
  by (auto simp: ubbd_dev_add_disk_def ubbd_dev_get_def upd_dev_def bind_eq_Some_conv refs_inv_def refs_view_def split: if_splits)

lemma drop_inv: "ubbd_dev_put k s = Some s' \<Longrightarrow> refs_inv k (s, n + 1) \<Longrightarrow> refs_inv k (s', n)"
  using put_inv by (simp add: refs_inv_def)

interpretation dev_refs: step_invariant "dev_init k" "dev_step C k" "refs_inv k" for C k
proof
  fix c assume "dev_init k c"
  then show "refs_inv k c" by (auto simp: dev_init_def refs_inv_def refs_view_def)
next
  fix c c' assume inv: "refs_inv k c"
  assume "dev_step C k c c'"
  then show "refs_inv k c'"
  proof (cases rule: dev_step.cases)
    case (dev_take s s' n) then show ?thesis using inv get_inv [of k s s' n] by simp
  next
    case (dev_drop s s' n) then show ?thesis using inv drop_inv [of k s s' n] by simp
  next
    case (dev_open s ret s' n) then show ?thesis using inv open_inv [of k s ret s' n] by simp
  next
    case (dev_close s d s' n) then show ?thesis using inv close_inv [of k s s' d n] by simp
  next
    case (dev_file linked s ret s' n) then show ?thesis using inv file_inv [of linked k s ret s' n] by simp
  next
    case (dev_queue_work s ret s' n) then show ?thesis using inv queue_work_inv [of k s ret s' "n + 1"] by simp
  next
    case (dev_run_work s s' n) then show ?thesis using inv work_inv [of C k s s' n] by simp
  next
    case (dev_remove s ret s' n) then show ?thesis using inv remove_inv [of C k s ret s' "n + 1"] by simp
  qed
qed

section \<open>Properties\<close>

text \<open>In every state reachable from that of a device just added, by any interleaving of commands,
  opens and closes of the disk and of debugfs files, mappings, and the \<open>add_disk\<close> work item:
  the count of the device is exactly the number of its holders, nobody holds a device that is
  gone, and the device has its disk exactly as long as it is listed.\<close>

theorem device_lives_while_held:
  assumes "reach (dev_init k) (dev_step C k) (s, n)"
  shows "(devices s k = None \<longrightarrow> n = 0 \<and> k \<notin> set (ubbd_dev_list s) \<and> k \<notin> set (ubbd_wq s)) \<and>
    (\<forall>d. devices s k = Some d \<longrightarrow> 0 < kref d \<and> (disk d \<noteq> None \<longleftrightarrow> k \<in> set (ubbd_dev_list s)) \<and>
       kref d = of_bool (k \<in> set (ubbd_dev_list s)) + open_count d + count_list (ubbd_wq s) k + n)"
  using dev_refs.reach_inv [OF assms] by (cases "devices s k") (auto simp: refs_inv_def refs_view_def)

definition rsys0 :: ubbd_sys where
  "rsys0 = (usys0 [])\<lparr>devices := [0 \<mapsto> rdev0\<lparr>dv_status := UBBD_DEV_KSTATUS_PREPARED\<rparr>], ubbd_dev_list := [0],
     live := (\<lambda>_. 1)\<rparr>"

lemma rsys0_facts:
  "devices rsys0 0 = Some (rdev0\<lparr>dv_status := UBBD_DEV_KSTATUS_PREPARED\<rparr>)" "ubbd_dev_list rsys0 = [0]" "ubbd_wq rsys0 = []"
  "live rsys0 = (\<lambda>_. 1)" "kref rdev0 = 1" "open_count rdev0 = 0" "disk rdev0 = Some gd0" "status_flags rdev0 = 0"
  by (simp_all add: rsys0_def usys0_def rdev0_def zero_device_def)

theorem device_lives_while_held_witness:
  "\<exists>s. reach (dev_init 0) (dev_step (C0 True) 0) (s, 1) \<and>
     (devices s 0 = None \<longrightarrow> (1::nat) = 0 \<and> 0 \<notin> set (ubbd_dev_list s) \<and> 0 \<notin> set (ubbd_wq s)) \<and>
     (\<forall>d. devices s 0 = Some d \<longrightarrow> 0 < kref d \<and> (disk d \<noteq> None \<longleftrightarrow> 0 \<in> set (ubbd_dev_list s)) \<and>
       kref d = of_bool (0 \<in> set (ubbd_dev_list s)) + open_count d + count_list (ubbd_wq s) 0 + 1)"
proof -
  obtain s where s: "ubbd_dev_get 0 rsys0 = Some s" by (simp add: ubbd_dev_get_def upd_dev_def rsys0_facts)
  have "dev_init 0 (rsys0, 0)" by (simp add: dev_init_def rsys0_facts)
  then have "reach (dev_init 0) (dev_step (C0 True) 0) (s, 0 + 1)" by (rule reach_step [OF reach_init]) (rule dev_take [OF s])
  then show ?thesis using device_lives_while_held [of 0 "C0 True" s 1] by auto
qed

text \<open>C39: A queued \<open>add_disk\<close> is a hazard. The device stays \<open>PREPARED\<close> until the work item runs, so a
  second \<open>add_disk\<close> is accepted and initialises the work item that is still queued; and
  \<open>remove_dev\<close> is accepted as well, after which the work item dereferences the freed disk.\<close>

theorem queued_add_disk_hazards:
  assumes "devices s k = Some d" and "removable C d" and "dv_status d = UBBD_DEV_KSTATUS_PREPARED"
    and "k \<notin> set (ubbd_wq s)" and "0 < kref d" and "0 < live s R_disk" and "0 < live s R_tag_set"
  shows "\<exists>s1 s2. ubbd_dev_add_disk k s = Some (0, s1) \<and> ubbd_dev_add_disk k s1 = None \<and>
    ubbd_dev_remove_dev C k s1 = Some (0, s2) \<and> ubbd_add_disk_fn C k s2 = None"
proof -
  have t: "\<not> ubbd_dev_status_flags_test C d UBBD_DEV_STATUS_FLAG_INTRANS" and dk: "disk d \<noteq> None"
    using assms(2) by (simp_all add: removable_def)
  define s1 where "s1 = s\<lparr>devices := (devices s)(k \<mapsto> d\<lparr>kref := kref d + 1\<rparr>), ubbd_wq := ubbd_wq s @ [k]\<rparr>"
  have a: "ubbd_dev_add_disk k s = Some (0, s1)"
    using assms(1,3,4) by (simp add: ubbd_dev_add_disk_def ubbd_dev_get_def upd_dev_def s1_def)
  have b: "ubbd_dev_add_disk k s1 = None"
    using assms(3) by (simp add: ubbd_dev_add_disk_def ubbd_dev_get_def upd_dev_def s1_def)
  define d2 where "d2 = d\<lparr>disk := None, tag_set := None\<rparr>"
  obtain s2 where c: "ubbd_dev_remove_dev C k s1 = Some (0, s2)" "devices s2 k = Some d2"
    using assms(3,5-7) t dk
    by (auto simp: ubbd_dev_remove_dev_def s1_def ubbd_dev_state_get_lock_def ubbd_dev_status_flags_test_def ubbd_free_disk_def
        free_res_def upd_dev_def ubbd_dev_put_def d2_def)
  have "ubbd_add_disk_fn C k s2 = None"
    using c(2) t assms(3)
    by (simp add: ubbd_add_disk_fn_def add_disk_begin_def d2_def ubbd_dev_state_get_lock_def ubbd_dev_status_flags_test_def
        add_disk_work_def set_rq_timeout_def upd_disk_def ubbd_dev_status_flags_set_def)
  then show ?thesis using a b c(1) by blast
qed

theorem queued_add_disk_hazards_witness:
  "\<exists>s1 s2. ubbd_dev_add_disk 0 rsys0 = Some (0, s1) \<and> ubbd_dev_add_disk 0 s1 = None \<and>
    ubbd_dev_remove_dev (C0 True) 0 s1 = Some (0, s2) \<and> ubbd_add_disk_fn (C0 True) 0 s2 = None"
  by (rule queued_add_disk_hazards [OF rsys0_facts(1)])
    (simp_all add: rsys0_facts removable_def ubbd_dev_status_flags_test_def)

end
