(* ===== verification/Netlink.thy ===== *)
theory Netlink
  imports Device_Queues Device_Refs
begin

text \<open>
  The netlink interface (\<open>src/ubbd_nl.c\<close>): the size estimates of the replies, the replies as
  sequences of attributes written into a buffer of that size, and the command handlers.

  A kernel call that can fail draws its result from \<open>rets\<close>. \<open>None\<close> is a fault: a \<open>NULL\<close> attribute
  or nest pointer dereferenced, or a fault of the device operations.
\<close>

section \<open>Messages\<close>

text \<open>Attribute types of \<open>ubbd.h\<close>, and the values the driver puts.\<close>

datatype nl_attr = UBBD_ATTR_RETVAL | UBBD_ATTR_DEV_INFO | UBBD_ATTR_DEV_LIST | UBBD_LIST_DEV_ID | UBBD_STATUS_DEV_ID
  | UBBD_STATUS_STATUS | UBBD_STATUS_QUEUE_INFO | UBBD_QUEUE_INFO_ITEM | UBBD_QUEUE_INFO_KRING_ID
  | UBBD_QUEUE_INFO_KRING_MAP_SIZE | UBBD_QUEUE_INFO_B_PID | UBBD_QUEUE_INFO_STATUS | UBBD_QUEUE_INFO_CPU_LIST
  | UBBD_QUEUE_INFO_CPU_ID

datatype nl_tok = Nest_Start nl_attr | Nest_End nl_attr | Put_s32 nl_attr int | Put_u64 nl_attr u64
  | Put_u8_status nl_attr dev_status | Put_s32_status nl_attr queue_status

text \<open>Constants of \<open>ubbd.h\<close> and of the build that only the commands use; \<open>nl_pad\<close> says at which lengths
  of a message a 64-bit attribute needs padding on the architecture.\<close>

record nl_const =
  nl_base :: ubbd_const
  UBBD_ATTR_FLAGS_REMOVE_FORCE :: u64
  UBBD_ATTR_FLAGS_QUEUE_OP_STOP :: u64
  UBBD_ATTR_FLAGS_QUEUE_OP_START :: u64
  nr_cpu_ids :: u32
  nl_pad :: "nat \<Rightarrow> bool"

definition UBBD_KRING_DATA_PAGES :: u32 where "UBBD_KRING_DATA_PAGES = 256 * 1024"

text \<open>Sizes of attributes: a header of four bytes, payload padded to four.\<close>

definition nla_attr_size :: "nat \<Rightarrow> nat" where "nla_attr_size payload = 4 + payload"

definition nla_total_size :: "nat \<Rightarrow> nat" where "nla_total_size payload = (nla_attr_size payload + 3) div 4 * 4"

text \<open>A message under construction: the bytes left of what \<open>genlmsg_new\<close> was asked for, the bytes
  used, and what was put.\<close>

record sk_buff =
  sk_room :: nat
  sk_used :: nat
  sk_toks :: "nl_tok list"

definition nla_reserve :: "nat \<Rightarrow> nl_tok \<Rightarrow> sk_buff \<Rightarrow> bool \<times> sk_buff" where
  "nla_reserve n tok skb =
     (if sk_room skb < n then (False, skb)
      else (True, skb\<lparr>sk_room := sk_room skb - n, sk_used := sk_used skb + n, sk_toks := sk_toks skb @ [tok]\<rparr>))"

definition nla_put :: "nat \<Rightarrow> nl_tok \<Rightarrow> sk_buff \<Rightarrow> int \<times> sk_buff" where
  "nla_put n tok skb = (let (ok, skb1) = nla_reserve (nla_total_size n) tok skb in (if ok then 0 else - EMSGSIZE, skb1))"

definition nla_put_u64_64bit :: "nl_const \<Rightarrow> nl_tok \<Rightarrow> sk_buff \<Rightarrow> int \<times> sk_buff" where
  "nla_put_u64_64bit N tok skb =
     (let (ok, skb1) = nla_reserve (nla_total_size 8 + (if nl_pad N (sk_used skb) then 4 else 0)) tok skb
      in (if ok then 0 else - EMSGSIZE, skb1))"

text \<open>\<open>nla_nest_start\<close> returns \<open>NULL\<close> when there is no room; \<open>nla_nest_end\<close> writes through the pointer.\<close>

definition nla_nest_start :: "nl_attr \<Rightarrow> sk_buff \<Rightarrow> bool \<times> sk_buff" where
  "nla_nest_start ty skb = nla_reserve (nla_total_size 0) (Nest_Start ty) skb"

definition nla_nest_end :: "bool \<Rightarrow> nl_attr \<Rightarrow> sk_buff \<Rightarrow> sk_buff option" where
  "nla_nest_end nest ty skb = (if nest then Some (skb\<lparr>sk_toks := sk_toks skb @ [Nest_End ty]\<rparr>) else None)"

section \<open>Size estimates\<close>

definition get_queue_msg_size :: "dev_queue \<Rightarrow> nat" where
  "get_queue_msg_size q =
     (let msg_size = nla_attr_size 4;
          msg_size = msg_size + (nla_attr_size 4 + nla_attr_size (8 + nla_attr_size 4));
          msg_size = msg_size + nla_attr_size 4;
          msg_size = msg_size + nla_attr_size 4;
          cpulist_size = nla_attr_size 4 * length (dq_cpumask q)
      in msg_size + cpulist_size)"

definition get_status_msg_size :: "ubbd_device \<Rightarrow> nat" where
  "get_status_msg_size d =
     (let msg_size = nla_attr_size 4 + nla_attr_size (1 + nla_attr_size 4)
      in nla_total_size (msg_size + sum_list (map get_queue_msg_size (queues d))))"

section \<open>Filling in the replies\<close>

definition kring_minor :: "ubbd_sys \<Rightarrow> dev_queue \<Rightarrow> nat option" where
  "kring_minor s q = do { key \<leftarrow> ki_dev (dq_info q); d \<leftarrow> devs (kring s) key; Some (kd_minor d) }"

fun put_cpus :: "nat list \<Rightarrow> sk_buff \<Rightarrow> sk_buff" where
  "put_cpus [] skb = skb"
| "put_cpus (c # cs) skb = put_cpus cs (snd (nla_put 4 (Put_s32 UBBD_QUEUE_INFO_CPU_ID (int c)) skb))"

definition fill_queue_info_item :: "nl_const \<Rightarrow> ubbd_sys \<Rightarrow> dev_queue \<Rightarrow> sk_buff \<Rightarrow> (int \<times> sk_buff) option" where
  "fill_queue_info_item N s q skb = do {
     let (item, skb1) = nla_nest_start UBBD_QUEUE_INFO_ITEM skb;
     minor \<leftarrow> kring_minor s q;
     let (r1, skb2) = nla_put 4 (Put_s32 UBBD_QUEUE_INFO_KRING_ID (int minor)) skb1;
     if r1 \<noteq> 0 then Some (- EMSGSIZE, skb2)
     else do {
       let (r2, skb3) = nla_put_u64_64bit N (Put_u64 UBBD_QUEUE_INFO_KRING_MAP_SIZE (ki_size (dq_info q))) skb2;
       if r2 \<noteq> 0 then Some (- EMSGSIZE, skb3)
       else do {
         let (r3, skb4) = nla_put 4 (Put_s32 UBBD_QUEUE_INFO_B_PID (dq_backend_pid q)) skb3;
         if r3 \<noteq> 0 then Some (- EMSGSIZE, skb4)
         else do {
           let (r4, skb5) = nla_put 4 (Put_s32_status UBBD_QUEUE_INFO_STATUS (q_status (dq_core q))) skb4;
           if r4 \<noteq> 0 then Some (- EMSGSIZE, skb5)
           else do {
             let (cpu_list, skb6) = nla_nest_start UBBD_QUEUE_INFO_CPU_LIST skb5;
             skb7 \<leftarrow> nla_nest_end cpu_list UBBD_QUEUE_INFO_CPU_LIST (put_cpus (dq_cpumask q) skb6);
             skb8 \<leftarrow> nla_nest_end item UBBD_QUEUE_INFO_ITEM skb7;
             Some (0, skb8)
           }
         }
       }
     }
   }"

fun fill_queues_loop :: "nl_const \<Rightarrow> ubbd_sys \<Rightarrow> dev_queue list \<Rightarrow> sk_buff \<Rightarrow> (int \<times> sk_buff) option" where
  "fill_queues_loop N s [] skb = Some (0, skb)"
| "fill_queues_loop N s (q # qs) skb = do {
     (ret, skb1) \<leftarrow> fill_queue_info_item N s q skb;
     if ret \<noteq> 0 then Some (ret, skb1) else fill_queues_loop N s qs skb1
   }"

definition fill_ubbd_status_queue_info :: "nl_const \<Rightarrow> ubbd_sys \<Rightarrow> ubbd_device \<Rightarrow> sk_buff \<Rightarrow> (int \<times> sk_buff) option" where
  "fill_ubbd_status_queue_info N s d skb = do {
     let (nest, skb1) = nla_nest_start UBBD_STATUS_QUEUE_INFO skb;
     (ret, skb2) \<leftarrow> fill_queues_loop N s (queues d) skb1;
     if ret \<noteq> 0 then Some (ret, skb2)
     else do { skb3 \<leftarrow> nla_nest_end nest UBBD_STATUS_QUEUE_INFO skb2; Some (0, skb3) }
   }"

definition fill_ubbd_status_detail :: "nl_const \<Rightarrow> ubbd_sys \<Rightarrow> ubbd_device \<Rightarrow> sk_buff \<Rightarrow> (int \<times> sk_buff) option" where
  "fill_ubbd_status_detail N s d skb = do {
     let (r1, skb1) = nla_put 4 (Put_s32 UBBD_STATUS_DEV_ID (int (dev_id d))) skb;
     if r1 \<noteq> 0 then Some (- EMSGSIZE, skb1)
     else do {
       let (r2, skb2) = nla_put 1 (Put_u8_status UBBD_STATUS_STATUS (dv_status d)) skb1;
       if r2 \<noteq> 0 then Some (- EMSGSIZE, skb2)
       else do {
         (r3, skb3) \<leftarrow> fill_ubbd_status_queue_info N s d skb2;
         Some (if r3 \<noteq> 0 then - EMSGSIZE else 0, skb3)
       }
     }
   }"

definition fill_ubbd_status :: "nl_const \<Rightarrow> ubbd_sys \<Rightarrow> ubbd_device \<Rightarrow> sk_buff \<Rightarrow> (int \<times> sk_buff) option" where
  "fill_ubbd_status N s d skb = do {
     let (nest, skb1) = nla_nest_start UBBD_ATTR_DEV_INFO skb;
     if \<not> nest then Some (- EMSGSIZE, skb1)
     else do {
       (ret, skb2) \<leftarrow> fill_ubbd_status_detail N s d skb1;
       if ret \<noteq> 0 then Some (ret, skb2)
       else do { skb3 \<leftarrow> nla_nest_end nest UBBD_ATTR_DEV_INFO skb2; Some (0, skb3) }
     }
   }"

text \<open>\<open>fill_ubbd_list\<close>: a listed device exists, its list node is part of it.\<close>

fun fill_list_loop :: "ubbd_sys \<Rightarrow> nat list \<Rightarrow> sk_buff \<Rightarrow> (int \<times> sk_buff) option" where
  "fill_list_loop s [] skb = Some (0, skb)"
| "fill_list_loop s (k # ks) skb = do {
     d \<leftarrow> devices s k;
     let (ret, skb1) = nla_put 4 (Put_s32 UBBD_LIST_DEV_ID (int (dev_id d))) skb;
     if ret \<noteq> 0 then Some (- EMSGSIZE, skb1) else fill_list_loop s ks skb1
   }"

definition fill_ubbd_list :: "ubbd_sys \<Rightarrow> sk_buff \<Rightarrow> (int \<times> sk_buff) option" where
  "fill_ubbd_list s skb = do {
     let (nest, skb1) = nla_nest_start UBBD_ATTR_DEV_LIST skb;
     (ret, skb2) \<leftarrow> fill_list_loop s (ubbd_dev_list s) skb1;
     if ret \<noteq> 0 then Some (ret, skb2)
     else do { skb3 \<leftarrow> nla_nest_end nest UBBD_ATTR_DEV_LIST skb2; Some (0, skb3) }
   }"

section \<open>Commands\<close>

text \<open>The attributes of a request, \<open>None\<close> where \<open>info->attrs\<close> has \<open>NULL\<close>; the nested options come with
  the result of parsing them by the policy.\<close>

record dev_opts =
  opt_dp_reserve :: "u32 option"
  opt_dev_size :: "u64 option"
  opt_data_pages :: "u32 option"
  opt_dev_queues :: "u32 option"
  opt_io_timeout :: "u32 option"

record genl_info =
  attr_dev_id :: "int option"
  attr_queue_id :: "int option"
  attr_flags :: "u64 option"
  attr_dev_opts :: "(int + dev_opts) option"

type_synonym reply = "nl_tok list"

definition genlmsg_new :: "nat \<Rightarrow> ubbd_sys \<Rightarrow> sk_buff option \<times> ubbd_sys" where
  "genlmsg_new payload s = (let (ret, s1) = take_ret s in
     (if ret \<noteq> 0 then None else Some \<lparr>sk_room = payload, sk_used = 0, sk_toks = []\<rparr>, s1))"

definition genlmsg_put_reply :: "ubbd_sys \<Rightarrow> bool \<times> ubbd_sys" where
  "genlmsg_put_reply s = (let (ret, s1) = take_ret s in (ret = 0, s1))"

definition genlmsg_reply :: "sk_buff \<Rightarrow> ubbd_sys \<Rightarrow> int \<times> reply option \<times> ubbd_sys" where
  "genlmsg_reply skb s = (let (ret, s1) = take_ret s in (ret, if ret = 0 then Some (sk_toks skb) else None, s1))"

text \<open>The end of a reply: the return value is added and the message sent.\<close>

definition ubbd_nl_reply_add_dev_done :: "nl_const \<Rightarrow> nat \<Rightarrow> ubbd_sys \<Rightarrow> (int \<times> reply option \<times> ubbd_sys) option" where
  "ubbd_nl_reply_add_dev_done N k s = do {
     d \<leftarrow> devices s k;
     let msg_size = get_status_msg_size d + nla_total_size (nla_attr_size 4) + nla_total_size (nla_attr_size 4);
     case genlmsg_new msg_size s of
       (None, s1) \<Rightarrow> Some (- EMSGSIZE, None, s1)
     | (Some skb, s1) \<Rightarrow> do {
         let (head, s2) = genlmsg_put_reply s1;
         if \<not> head then Some (- EMSGSIZE, None, s2)
         else do {
           let (nest, skb1) = nla_nest_start UBBD_ATTR_DEV_INFO skb;
           if \<not> nest then Some (- EMSGSIZE, None, s2)
           else do {
             (r1, skb2) \<leftarrow> fill_ubbd_status_detail N s2 d skb1;
             if r1 \<noteq> 0 then Some (- EMSGSIZE, None, s2)
             else do {
               skb3 \<leftarrow> nla_nest_end nest UBBD_ATTR_DEV_INFO skb2;
               let (r2, skb4) = nla_put 4 (Put_s32 UBBD_ATTR_RETVAL 0) skb3;
               if r2 \<noteq> 0 then Some (- EMSGSIZE, None, s2) else Some (genlmsg_reply skb4 s2)
             }
           }
         }
       }
   }"

text \<open>The options of \<open>add_dev\<close> with their defaults.\<close>

definition add_opts_of :: "nl_const \<Rightarrow> u64 \<Rightarrow> u64 \<Rightarrow> dev_opts \<Rightarrow> ubbd_dev_add_opts" where
  "add_opts_of N flags sz o1 =
     (let nq = (case opt_dev_queues o1 of None \<Rightarrow> 0 | Some n \<Rightarrow> n);
          tmo = (case opt_io_timeout o1 of None \<Rightarrow> 0 | Some t \<Rightarrow> t)
      in \<lparr>ao_data_pages = (case opt_data_pages o1 of None \<Rightarrow> UBBD_KRING_DATA_PAGES | Some n \<Rightarrow> n),
          ao_device_size = sz, ao_dev_features = flags,
          ao_num_queues = (if nq = 0 then nr_cpu_ids N else nq),
          ao_io_timeout = (if tmo = 0 then UINT_MAX else tmo)\<rparr>)"

definition handle_cmd_add_dev ::
  "nl_const \<Rightarrow> (nat \<Rightarrow> ubbd_request) \<Rightarrow> genl_info \<Rightarrow> ubbd_sys \<Rightarrow> (int \<times> reply option \<times> ubbd_sys) option" where
  "handle_cmd_add_dev N pd info s =
     (case (attr_dev_opts info, attr_flags info) of
        (Some opts, Some flags) \<Rightarrow>
          (case opts of
             Inl err \<Rightarrow> Some (err, None, s)
           | Inr o1 \<Rightarrow>
               (case opt_dev_size o1 of
                  None \<Rightarrow> Some (- EINVAL, None, s)
                | Some sz \<Rightarrow> do {
                    (ret, dev, s1) \<leftarrow> ubbd_dev_add_dev (nl_base N) pd (add_opts_of N flags sz o1) s;
                    case dev of
                      None \<Rightarrow> Some (ret, None, s1)
                    | Some k \<Rightarrow> do {
                        (ret, reply, s2) \<leftarrow> ubbd_nl_reply_add_dev_done N k s1;
                        if ret \<noteq> 0
                        then do { (r, s3) \<leftarrow> ubbd_dev_remove_dev (nl_base N) k s2; Some (ret, None, s3) }
                        else Some (0, reply, s2)
                      }
                  }))
      | _ \<Rightarrow> Some (- EINVAL, None, s))"

fun find_dev_loop :: "int \<Rightarrow> ubbd_sys \<Rightarrow> nat list \<Rightarrow> nat option option" where
  "find_dev_loop did s [] = Some None"
| "find_dev_loop did s (k # ks) = do {
     d \<leftarrow> devices s k;
     if int (dev_id d) = did then Some (Some k) else find_dev_loop did s ks
   }"

text \<open>\<open>find_ubbd_dev\<close>: the device found comes with a reference.\<close>

definition find_ubbd_dev :: "int \<Rightarrow> ubbd_sys \<Rightarrow> (nat option \<times> ubbd_sys) option" where
  "find_ubbd_dev did s = do {
     r \<leftarrow> find_dev_loop did s (ubbd_dev_list s);
     case r of
       None \<Rightarrow> Some (None, s)
     | Some k \<Rightarrow> do { s1 \<leftarrow> ubbd_dev_get k s; Some (Some k, s1) }
   }"

definition handle_cmd_add_disk :: "genl_info \<Rightarrow> ubbd_sys \<Rightarrow> (int \<times> ubbd_sys) option" where
  "handle_cmd_add_disk info s = do {
     did \<leftarrow> attr_dev_id info;
     (dev, s1) \<leftarrow> find_ubbd_dev did s;
     case dev of
       None \<Rightarrow> Some (- ENOENT, s1)
     | Some k \<Rightarrow> do {
         (ret, s2) \<leftarrow> ubbd_dev_add_disk k s1;
         s3 \<leftarrow> ubbd_dev_put k s2;
         Some (ret, s3)
       }
   }"

text \<open>An operation on a device and the memory it uses.\<close>

definition on_dev :: "nat \<Rightarrow> (ubbd_device \<Rightarrow> kmem \<Rightarrow> ('r \<times> ubbd_device \<times> kmem) option) \<Rightarrow> ubbd_sys \<Rightarrow> ('r \<times> ubbd_sys) option" where
  "on_dev k f s = do {
     d \<leftarrow> devices s k;
     (r, d1, km) \<leftarrow> f d (mem s);
     Some (r, s\<lparr>devices := (devices s)(k \<mapsto> d1), mem := km\<rparr>)
   }"

definition handle_cmd_remove_disk :: "nl_const \<Rightarrow> genl_info \<Rightarrow> ubbd_sys \<Rightarrow> (int \<times> ubbd_sys) option" where
  "handle_cmd_remove_disk N info s = do {
     did \<leftarrow> attr_dev_id info;
     flags \<leftarrow> attr_flags info;
     (dev, s1) \<leftarrow> find_ubbd_dev did s;
     case dev of
       None \<Rightarrow> Some (- ENOENT, s1)
     | Some k \<Rightarrow> do {
         let force = (flags AND UBBD_ATTR_FLAGS_REMOVE_FORCE N \<noteq> 0);
         d \<leftarrow> devices s1 k;
         if \<not> force \<and> open_count d \<noteq> 0 then do { s2 \<leftarrow> ubbd_dev_put k s1; Some (- EBUSY, s2) }
         else do {
           (_, s2) \<leftarrow> on_dev k (\<lambda>d km. map_option (Pair ()) (ubbd_dev_remove_disk (nl_base N) force d km)) s1;
           s3 \<leftarrow> ubbd_dev_put k s2;
           Some (0, s3)
         }
       }
   }"

definition handle_cmd_remove_dev :: "nl_const \<Rightarrow> genl_info \<Rightarrow> ubbd_sys \<Rightarrow> (int \<times> ubbd_sys) option" where
  "handle_cmd_remove_dev N info s = do {
     did \<leftarrow> attr_dev_id info;
     (dev, s1) \<leftarrow> find_ubbd_dev did s;
     case dev of
       None \<Rightarrow> Some (- ENOENT, s1)
     | Some k \<Rightarrow> do {
         (ret, s2) \<leftarrow> ubbd_dev_remove_dev (nl_base N) k s1;
         s3 \<leftarrow> ubbd_dev_put k s2;
         Some (ret, s3)
       }
   }"

text \<open>The reply of \<open>status\<close> and \<open>list\<close> from the allocation of the message on; both return \<open>-ENOMEM\<close> for a
  failing allocation and send what \<open>fill\<close> and the return value put.\<close>

definition send_reply :: "nat \<Rightarrow> (ubbd_sys \<Rightarrow> sk_buff \<Rightarrow> (int \<times> sk_buff) option) \<Rightarrow> ubbd_sys \<Rightarrow> (int \<times> reply option \<times> ubbd_sys) option" where
  "send_reply msg_size fill s =
     (case genlmsg_new msg_size s of
        (None, s1) \<Rightarrow> Some (- ENOMEM, None, s1)
      | (Some skb, s1) \<Rightarrow> do {
          let (head, s2) = genlmsg_put_reply s1;
          if \<not> head then Some (- ENOMEM, None, s2)
          else do {
            (ret, skb1) \<leftarrow> fill s2 skb;
            if ret \<noteq> 0 then Some (ret, None, s2)
            else do {
              let (r2, skb2) = nla_put 4 (Put_s32 UBBD_ATTR_RETVAL 0) skb1;
              if r2 \<noteq> 0 then Some (- EMSGSIZE, None, s2) else Some (genlmsg_reply skb2 s2)
            }
          }
        })"

definition handle_cmd_status :: "nl_const \<Rightarrow> genl_info \<Rightarrow> ubbd_sys \<Rightarrow> (int \<times> reply option \<times> ubbd_sys) option" where
  "handle_cmd_status N info s =
     (case attr_dev_id info of
        None \<Rightarrow> Some (- EINVAL, None, s)
      | Some did \<Rightarrow> do {
          let msg_size = nla_total_size (nla_attr_size 4);
          (dev, s1) \<leftarrow> find_ubbd_dev did s;
          case dev of
            None \<Rightarrow> Some (- ENOENT, None, s1)
          | Some k \<Rightarrow> do {
              d \<leftarrow> devices s1 k;
              let msg_size = msg_size + get_status_msg_size d;
              let msg_size = msg_size + nla_attr_size 4;
              (ret, reply, s2) \<leftarrow> send_reply msg_size (\<lambda>s skb. fill_ubbd_status N s d skb) s1;
              s3 \<leftarrow> ubbd_dev_put k s2;
              Some (ret, reply, s3)
            }
        })"

definition handle_cmd_list :: "ubbd_sys \<Rightarrow> (int \<times> reply option \<times> ubbd_sys) option" where
  "handle_cmd_list s =
     (let msg_size = nla_total_size (nla_attr_size 4);
          msg_size = msg_size + nla_total_size (nla_attr_size 4);
          msg_size = msg_size + nla_attr_size 4 * length (ubbd_dev_list s)
      in send_reply msg_size fill_ubbd_list s)"

definition config_opts_of :: "dev_opts \<Rightarrow> ubbd_dev_config_opts" where
  "config_opts_of o1 =
     (let c0 = \<lparr>co_flags = 0, co_dp_reserve_percnt = 0, co_dev_size = 0\<rparr>;
          c1 = (case opt_dp_reserve o1 of
                  None \<Rightarrow> c0
                | Some p \<Rightarrow> c0\<lparr>co_flags := co_flags c0 OR UBBD_DEV_CONFIG_FLAG_DP_RESERVE, co_dp_reserve_percnt := p\<rparr>)
      in case opt_dev_size o1 of
           None \<Rightarrow> c1
         | Some sz \<Rightarrow> c1\<lparr>co_flags := co_flags c1 OR UBBD_DEV_CONFIG_FLAG_DEV_SIZE, co_dev_size := sz\<rparr>)"

definition handle_cmd_config :: "genl_info \<Rightarrow> ubbd_sys \<Rightarrow> (int \<times> ubbd_sys) option" where
  "handle_cmd_config info s =
     (case (attr_dev_id info, attr_dev_opts info) of
        (Some did, Some opts) \<Rightarrow> do {
          (dev, s1) \<leftarrow> find_ubbd_dev did s;
          case dev of
            None \<Rightarrow> Some (- ENOENT, s1)
          | Some k \<Rightarrow> do {
              (ret, s2) \<leftarrow>
                (case opts of
                   Inl err \<Rightarrow> Some (err, s1)
                 | Inr o1 \<Rightarrow>
                     if (case opt_dp_reserve o1 of None \<Rightarrow> False | Some p \<Rightarrow> p > 100) then Some (- EINVAL, s1)
                     else on_dev k (\<lambda>d km. map_option (\<lambda>(ret, d1). (ret, d1, km)) (ubbd_dev_config (config_opts_of o1) d)) s1);
              s3 \<leftarrow> ubbd_dev_put k s2;
              Some (ret, s3)
            }
        }
      | _ \<Rightarrow> Some (- EINVAL, s))"

definition handle_cmd_queue_op :: "nl_const \<Rightarrow> genl_info \<Rightarrow> ubbd_sys \<Rightarrow> (int \<times> ubbd_sys) option" where
  "handle_cmd_queue_op N info s =
     (case (attr_dev_id info, attr_queue_id info, attr_flags info) of
        (Some did, Some queue_id, Some flags) \<Rightarrow> do {
          (dev, s1) \<leftarrow> find_ubbd_dev did s;
          case dev of
            None \<Rightarrow> Some (- ENOENT, s1)
          | Some k \<Rightarrow> do {
              (ret, s2) \<leftarrow>
                (if flags AND UBBD_ATTR_FLAGS_QUEUE_OP_STOP N \<noteq> 0
                 then on_dev k (ubbd_dev_stop_queue (uc_h (nl_base N)) queue_id) s1
                 else if flags AND UBBD_ATTR_FLAGS_QUEUE_OP_START N \<noteq> 0
                 then on_dev k (\<lambda>d km. let (ret, d1) = ubbd_dev_start_queue queue_id d in Some (ret, d1, km)) s1
                 else Some (- EINVAL, s1));
              s3 \<leftarrow> ubbd_dev_put k s2;
              Some (ret, s3)
            }
        }
      | _ \<Rightarrow> Some (- EINVAL, s))"

section \<open>What fits into a reply\<close>

text \<open>At least \<open>n\<close> bytes hold the attributes \<open>ts\<close>.\<close>

definition wrote :: "nat \<Rightarrow> nl_tok list \<Rightarrow> sk_buff \<Rightarrow> sk_buff \<Rightarrow> bool" where
  "wrote n ts skb skb' \<longleftrightarrow> sk_toks skb' = sk_toks skb @ ts \<and> sk_room skb \<le> sk_room skb' + n"

lemma wrote_trans: "wrote n ts a b \<Longrightarrow> wrote m us b c \<Longrightarrow> wrote (n + m) (ts @ us) a c"
  by (simp add: wrote_def)

lemma total_sizes [simp]: "nla_total_size 0 = 4" "nla_total_size (Suc 0) = 8" "nla_total_size 4 = 8" "nla_total_size 8 = 12"
  by (simp_all add: nla_total_size_def nla_attr_size_def)

lemmas nl_defs = nla_put_def nla_put_u64_64bit_def nla_nest_start_def nla_nest_end_def nla_reserve_def Let_def

lemma put_ok: "nla_total_size n \<le> sk_room skb \<Longrightarrow> \<exists>skb'. nla_put n tok skb = (0, skb') \<and> wrote (nla_total_size n) [tok] skb skb'"
  by (simp add: nl_defs wrote_def)

lemma put64_ok: "16 \<le> sk_room skb \<Longrightarrow> \<exists>skb'. nla_put_u64_64bit N tok skb = (0, skb') \<and> wrote 16 [tok] skb skb'"
  by (simp add: nl_defs wrote_def)

lemma nest_ok: "4 \<le> sk_room skb \<Longrightarrow> \<exists>skb'. nla_nest_start ty skb = (True, skb') \<and> wrote 4 [Nest_Start ty] skb skb'"
  by (simp add: nl_defs wrote_def)

lemma nest_end_ok: "\<exists>skb'. nla_nest_end True ty skb = Some skb' \<and> wrote 0 [Nest_End ty] skb skb'"
  by (simp add: nl_defs wrote_def)

lemma put_cpus_ok:
  "8 * length cs \<le> sk_room skb \<Longrightarrow>
     wrote (8 * length cs) (map (\<lambda>c. Put_s32 UBBD_QUEUE_INFO_CPU_ID (int c)) cs) skb (put_cpus cs skb)"
proof (induction cs arbitrary: skb)
  case (Cons c cs)
  obtain skb1 where 1: "nla_put 4 (Put_s32 UBBD_QUEUE_INFO_CPU_ID (int c)) skb = (0, skb1)"
      "wrote (nla_total_size 4) [Put_s32 UBBD_QUEUE_INFO_CPU_ID (int c)] skb skb1"
    using put_ok [of 4 skb] Cons.prems by auto
  then have "8 * length cs \<le> sk_room skb1" using Cons.prems by (simp add: wrote_def)
  then show ?case using wrote_trans [OF 1(2) Cons.IH] 1(1) by simp
qed (simp add: wrote_def)

definition queue_toks :: "ubbd_sys \<Rightarrow> dev_queue \<Rightarrow> nl_tok list" where
  "queue_toks s q = [Nest_Start UBBD_QUEUE_INFO_ITEM, Put_s32 UBBD_QUEUE_INFO_KRING_ID (int (the (kring_minor s q))),
     Put_u64 UBBD_QUEUE_INFO_KRING_MAP_SIZE (ki_size (dq_info q)), Put_s32 UBBD_QUEUE_INFO_B_PID (dq_backend_pid q),
     Put_s32_status UBBD_QUEUE_INFO_STATUS (q_status (dq_core q)), Nest_Start UBBD_QUEUE_INFO_CPU_LIST] @
     map (\<lambda>c. Put_s32 UBBD_QUEUE_INFO_CPU_ID (int c)) (dq_cpumask q) @
     [Nest_End UBBD_QUEUE_INFO_CPU_LIST, Nest_End UBBD_QUEUE_INFO_ITEM]"

lemma queue_msg_size: "get_queue_msg_size q = 52 + 8 * length (dq_cpumask q)"
  by (simp add: get_queue_msg_size_def nla_attr_size_def)

lemma fill_item_ok:
  assumes "48 + 8 * length (dq_cpumask q) \<le> sk_room skb" and "kring_minor s q \<noteq> None"
  shows "\<exists>skb'. fill_queue_info_item N s q skb = Some (0, skb') \<and> wrote (48 + 8 * length (dq_cpumask q)) (queue_toks s q) skb skb'"
proof -
  obtain minor where m: "kring_minor s q = Some minor" using assms(2) by blast
  obtain b1 where 1: "nla_nest_start UBBD_QUEUE_INFO_ITEM skb = (True, b1)" "wrote 4 [Nest_Start UBBD_QUEUE_INFO_ITEM] skb b1"
    using nest_ok [of skb] assms(1) by fastforce
  have "44 + 8 * length (dq_cpumask q) \<le> sk_room b1" using 1(2) assms(1) by (simp add: wrote_def)
  then obtain b2 where 2: "nla_put 4 (Put_s32 UBBD_QUEUE_INFO_KRING_ID (int minor)) b1 = (0, b2)"
      "wrote 8 [Put_s32 UBBD_QUEUE_INFO_KRING_ID (int minor)] b1 b2" "36 + 8 * length (dq_cpumask q) \<le> sk_room b2"
    using put_ok [of 4 b1] by (fastforce simp: wrote_def)
  then obtain b3 where 3: "nla_put_u64_64bit N (Put_u64 UBBD_QUEUE_INFO_KRING_MAP_SIZE (ki_size (dq_info q))) b2 = (0, b3)"
      "wrote 16 [Put_u64 UBBD_QUEUE_INFO_KRING_MAP_SIZE (ki_size (dq_info q))] b2 b3" "20 + 8 * length (dq_cpumask q) \<le> sk_room b3"
    using put64_ok [of b2] by (fastforce simp: wrote_def)
  then obtain b4 where 4: "nla_put 4 (Put_s32 UBBD_QUEUE_INFO_B_PID (dq_backend_pid q)) b3 = (0, b4)"
      "wrote 8 [Put_s32 UBBD_QUEUE_INFO_B_PID (dq_backend_pid q)] b3 b4" "12 + 8 * length (dq_cpumask q) \<le> sk_room b4"
    using put_ok [of 4 b3] by (fastforce simp: wrote_def)
  then obtain b5 where 5: "nla_put 4 (Put_s32_status UBBD_QUEUE_INFO_STATUS (q_status (dq_core q))) b4 = (0, b5)"
      "wrote 8 [Put_s32_status UBBD_QUEUE_INFO_STATUS (q_status (dq_core q))] b4 b5" "4 + 8 * length (dq_cpumask q) \<le> sk_room b5"
    using put_ok [of 4 b4] by (fastforce simp: wrote_def)
  then obtain b6 where 6: "nla_nest_start UBBD_QUEUE_INFO_CPU_LIST b5 = (True, b6)" "wrote 4 [Nest_Start UBBD_QUEUE_INFO_CPU_LIST] b5 b6"
      "8 * length (dq_cpumask q) \<le> sk_room b6"
    using nest_ok [of b5] by (fastforce simp: wrote_def)
  note w = put_cpus_ok [OF 6(3)]
  obtain b7 where 7: "nla_nest_end True UBBD_QUEUE_INFO_CPU_LIST (put_cpus (dq_cpumask q) b6) = Some b7"
      "wrote 0 [Nest_End UBBD_QUEUE_INFO_CPU_LIST] (put_cpus (dq_cpumask q) b6) b7" using nest_end_ok by blast
  obtain b8 where 8: "nla_nest_end True UBBD_QUEUE_INFO_ITEM b7 = Some b8" "wrote 0 [Nest_End UBBD_QUEUE_INFO_ITEM] b7 b8"
    using nest_end_ok by blast
  have "fill_queue_info_item N s q skb = Some (0, b8)"
    using m 1(1) 2(1) 3(1) 4(1) 5(1) 6(1) 7(1) 8(1) by (simp add: fill_queue_info_item_def)
  moreover have "wrote (48 + 8 * length (dq_cpumask q)) (queue_toks s q) skb b8"
    using 1(2) 2(2) 3(2) 4(2) 5(2) 6(2) w 7(2) 8(2) m by (simp add: wrote_def queue_toks_def)
  ultimately show ?thesis by blast
qed

lemma fill_queues_ok:
  assumes "sum_list (map (\<lambda>q. 48 + 8 * length (dq_cpumask q)) qs) \<le> sk_room skb" and "\<forall>q \<in> set qs. kring_minor s q \<noteq> None"
  shows "\<exists>skb'. fill_queues_loop N s qs skb = Some (0, skb') \<and>
    wrote (sum_list (map (\<lambda>q. 48 + 8 * length (dq_cpumask q)) qs)) (concat (map (queue_toks s) qs)) skb skb'"
  using assms
proof (induction qs arbitrary: skb)
  case Nil
  then show ?case by (simp add: wrote_def)
next
  case (Cons q qs)
  obtain skb1 where 1: "fill_queue_info_item N s q skb = Some (0, skb1)" "wrote (48 + 8 * length (dq_cpumask q)) (queue_toks s q) skb skb1"
    using fill_item_ok [of q skb s N] Cons.prems by auto
  then obtain skb2 where "fill_queues_loop N s qs skb1 = Some (0, skb2)"
      "wrote (sum_list (map (\<lambda>q. 48 + 8 * length (dq_cpumask q)) qs)) (concat (map (queue_toks s) qs)) skb1 skb2"
    using Cons.IH [of skb1] Cons.prems by (auto simp: wrote_def)
  then show ?case using 1 wrote_trans by auto
qed

text \<open>The attributes that describe a device, and the estimate of their size.\<close>

definition status_toks :: "ubbd_sys \<Rightarrow> ubbd_device \<Rightarrow> nl_tok list" where
  "status_toks s d = [Put_s32 UBBD_STATUS_DEV_ID (int (dev_id d)), Put_u8_status UBBD_STATUS_STATUS (dv_status d),
     Nest_Start UBBD_STATUS_QUEUE_INFO] @ concat (map (queue_toks s) (queues d)) @ [Nest_End UBBD_STATUS_QUEUE_INFO]"

definition info_toks :: "ubbd_sys \<Rightarrow> ubbd_device \<Rightarrow> nl_tok list" where
  "info_toks s d = Nest_Start UBBD_ATTR_DEV_INFO # status_toks s d @ [Nest_End UBBD_ATTR_DEV_INFO]"

definition queues_size :: "ubbd_device \<Rightarrow> nat" where
  "queues_size d = sum_list (map (\<lambda>q. 48 + 8 * length (dq_cpumask q)) (queues d))"

lemma status_size: "25 + queues_size d \<le> get_status_msg_size d"
proof -
  have "x + 4 \<le> nla_total_size x" for x by (simp add: nla_total_size_def nla_attr_size_def)
  from this [of "21 + sum_list (map get_queue_msg_size (queues d))"]
  have "25 + sum_list (map get_queue_msg_size (queues d)) \<le> get_status_msg_size d"
    by (simp add: get_status_msg_size_def nla_attr_size_def)
  moreover have "queues_size d \<le> sum_list (map get_queue_msg_size (queues d))"
    unfolding queues_size_def by (intro sum_list_mono) (simp add: queue_msg_size)
  ultimately show ?thesis by simp
qed

lemma fill_detail_ok:
  assumes "20 + queues_size d \<le> sk_room skb" and "\<forall>q \<in> set (queues d). kring_minor s q \<noteq> None"
  shows "\<exists>skb'. fill_ubbd_status_detail N s d skb = Some (0, skb') \<and> wrote (20 + queues_size d) (status_toks s d) skb skb'"
proof -
  obtain b1 where 1: "nla_put 4 (Put_s32 UBBD_STATUS_DEV_ID (int (dev_id d))) skb = (0, b1)"
      "wrote 8 [Put_s32 UBBD_STATUS_DEV_ID (int (dev_id d))] skb b1" "12 + queues_size d \<le> sk_room b1"
    using put_ok [of 4 skb] assms(1) by (fastforce simp: wrote_def)
  then obtain b2 where 2: "nla_put 1 (Put_u8_status UBBD_STATUS_STATUS (dv_status d)) b1 = (0, b2)"
      "wrote 8 [Put_u8_status UBBD_STATUS_STATUS (dv_status d)] b1 b2" "4 + queues_size d \<le> sk_room b2"
    using put_ok [of 1 b1] by (fastforce simp: wrote_def)
  then obtain b3 where 3: "nla_nest_start UBBD_STATUS_QUEUE_INFO b2 = (True, b3)" "wrote 4 [Nest_Start UBBD_STATUS_QUEUE_INFO] b2 b3"
      "queues_size d \<le> sk_room b3"
    using nest_ok [of b2] by (fastforce simp: wrote_def)
  then obtain b4 where 4: "fill_queues_loop N s (queues d) b3 = Some (0, b4)"
      "wrote (queues_size d) (concat (map (queue_toks s) (queues d))) b3 b4"
    using fill_queues_ok [of "queues d" b3 s N] assms(2) unfolding queues_size_def by blast
  obtain b5 where 5: "nla_nest_end True UBBD_STATUS_QUEUE_INFO b4 = Some b5" "wrote 0 [Nest_End UBBD_STATUS_QUEUE_INFO] b4 b5"
    using nest_end_ok by blast
  have "fill_ubbd_status_detail N s d skb = Some (0, b5)"
    using 1(1) 2(1) 3(1) 4(1) 5(1) by (simp add: fill_ubbd_status_detail_def fill_ubbd_status_queue_info_def)
  then show ?thesis using 1(2) 2(2) 3(2) 4(2) 5(2) by (simp add: wrote_def status_toks_def)
qed

lemma fill_status_ok:
  assumes "24 + queues_size d \<le> sk_room skb" and "\<forall>q \<in> set (queues d). kring_minor s q \<noteq> None"
  shows "\<exists>skb'. fill_ubbd_status N s d skb = Some (0, skb') \<and> wrote (24 + queues_size d) (info_toks s d) skb skb'"
proof -
  obtain b1 where 1: "nla_nest_start UBBD_ATTR_DEV_INFO skb = (True, b1)" "wrote 4 [Nest_Start UBBD_ATTR_DEV_INFO] skb b1"
      "20 + queues_size d \<le> sk_room b1"
    using nest_ok [of skb] assms(1) by (fastforce simp: wrote_def)
  then obtain b2 where 2: "fill_ubbd_status_detail N s d b1 = Some (0, b2)" "wrote (20 + queues_size d) (status_toks s d) b1 b2"
    using fill_detail_ok [of d b1 s N] assms(2) by blast
  obtain b3 where 3: "nla_nest_end True UBBD_ATTR_DEV_INFO b2 = Some b3" "wrote 0 [Nest_End UBBD_ATTR_DEV_INFO] b2 b3"
    using nest_end_ok by blast
  have "fill_ubbd_status N s d skb = Some (0, b3)" using 1(1) 2(1) 3(1) by (simp add: fill_ubbd_status_def)
  then show ?thesis using 1(2) 2(2) 3(2) by (simp add: wrote_def info_toks_def)
qed

lemma fill_list_ok:
  assumes "8 * length ks \<le> sk_room skb" and "\<forall>k \<in> set ks. devices s k \<noteq> None"
  shows "\<exists>skb'. fill_list_loop s ks skb = Some (0, skb') \<and>
    wrote (8 * length ks) (map (\<lambda>k. Put_s32 UBBD_LIST_DEV_ID (int (dev_id (the (devices s k))))) ks) skb skb'"
  using assms
proof (induction ks arbitrary: skb)
  case (Cons k ks)
  then obtain d where d: "devices s k = Some d" by auto
  obtain b1 where 1: "nla_put 4 (Put_s32 UBBD_LIST_DEV_ID (int (dev_id d))) skb = (0, b1)"
      "wrote 8 [Put_s32 UBBD_LIST_DEV_ID (int (dev_id d))] skb b1" "8 * length ks \<le> sk_room b1"
    using put_ok [of 4 skb] Cons.prems(1) by (fastforce simp: wrote_def)
  with Cons.IH [of b1] Cons.prems(2) obtain b2 where "fill_list_loop s ks b1 = Some (0, b2)"
      "wrote (8 * length ks) (map (\<lambda>k. Put_s32 UBBD_LIST_DEV_ID (int (dev_id (the (devices s k))))) ks) b1 b2" by auto
  then show ?case using 1 d by (simp add: wrote_def)
qed (simp add: wrote_def)

section \<open>Sending\<close>

lemma take_ret_form: "take_ret s = (r, s1) \<Longrightarrow> s1 = s\<lparr>rets := rets s1\<rparr> \<and> (rets s = [] \<longrightarrow> r = 0 \<and> rets s1 = [])"
  by (auto simp: take_ret_def split: list.splits)

lemma minor_rets [simp]: "kring_minor (s\<lparr>rets := rs\<rparr>) = kring_minor s" "queue_toks (s\<lparr>rets := rs\<rparr>) = queue_toks s"
  by (simp_all add: fun_eq_iff kring_minor_def queue_toks_def)

lemma toks_rets [simp]: "status_toks (s\<lparr>rets := rs\<rparr>) = status_toks s" "info_toks (s\<lparr>rets := rs\<rparr>) = info_toks s"
  by (simp_all add: fun_eq_iff status_toks_def info_toks_def)

text \<open>A reply whose attributes fit its estimate is either sent whole or not at all, and then only
  because a kernel call failed.\<close>

lemma send_reply_ok:
  assumes fill: "\<And>rs skb. n \<le> sk_room skb \<Longrightarrow> \<exists>skb'. fill (s\<lparr>rets := rs\<rparr>) skb = Some (0, skb') \<and> wrote n ts skb skb'"
    and sz: "n + 8 \<le> msg_size"
  shows "\<exists>ret s'. send_reply msg_size fill s =
      Some (ret, if ret = 0 then Some (ts @ [Put_s32 UBBD_ATTR_RETVAL 0]) else None, s') \<and>
    s' = s\<lparr>rets := rets s'\<rparr> \<and> (rets s = [] \<longrightarrow> ret = 0)"
proof -
  obtain r1 s1 where t1: "take_ret s = (r1, s1)" by fastforce
  obtain r2 s2 where t2: "take_ret s1 = (r2, s2)" by fastforce
  obtain r3 s3 where t3: "take_ret s2 = (r3, s3)" by fastforce
  have f: "s1 = s\<lparr>rets := rets s1\<rparr>" "s2 = s\<lparr>rets := rets s2\<rparr>" "s3 = s\<lparr>rets := rets s3\<rparr>"
      "rets s = [] \<longrightarrow> r1 = 0 \<and> r2 = 0 \<and> r3 = 0"
    using take_ret_form [OF t1] take_ret_form [OF t2] take_ret_form [OF t3] by (metis ubbd_sys.update_convs(3) ubbd_sys.surjective)+
  let ?skb = "\<lparr>sk_room = msg_size, sk_used = 0, sk_toks = []\<rparr>"
  obtain b1 where 1: "fill s2 ?skb = Some (0, b1)" "wrote n ts ?skb b1" using fill [of ?skb "rets s2"] sz f(2) by auto
  obtain b2 where 2: "nla_put 4 (Put_s32 UBBD_ATTR_RETVAL 0) b1 = (0, b2)" "wrote 8 [Put_s32 UBBD_ATTR_RETVAL 0] b1 b2"
    using put_ok [of 4 b1] 1(2) sz by (fastforce simp: wrote_def)
  consider "r1 \<noteq> 0" | "r1 = 0" "r2 \<noteq> 0" | "r1 = 0" "r2 = 0" by blast
  then show ?thesis
  proof cases
    case 1
    then have "send_reply msg_size fill s = Some (- ENOMEM, None, s1)" by (simp add: send_reply_def genlmsg_new_def t1)
    then show ?thesis using 1 f by auto
  next
    case 2
    then have "send_reply msg_size fill s = Some (- ENOMEM, None, s2)"
      by (simp add: send_reply_def genlmsg_new_def t1 genlmsg_put_reply_def t2)
    then show ?thesis using 2 f by auto
  next
    case 3
    then have "send_reply msg_size fill s = Some (r3, if r3 = 0 then Some (sk_toks b2) else None, s3)"
      using 1(1) 2(1) by (simp add: send_reply_def genlmsg_new_def t1 genlmsg_put_reply_def t2 genlmsg_reply_def t3)
    moreover have "sk_toks b2 = ts @ [Put_s32 UBBD_ATTR_RETVAL 0]" using 1(2) 2(2) by (simp add: wrote_def)
    ultimately show ?thesis using f by auto
  qed
qed

section \<open>Finding a device\<close>

text \<open>Every listed device exists, is referenced, and its queues have their kring devices.\<close>

definition listed_ok :: "ubbd_sys \<Rightarrow> bool" where
  "listed_ok s \<longleftrightarrow> (\<forall>k \<in> set (ubbd_dev_list s). \<exists>d. devices s k = Some d \<and> 0 < kref d \<and> (\<forall>q \<in> set (queues d). kring_minor s q \<noteq> None))"

lemma find_loop_ok:
  assumes "\<forall>k \<in> set ks. devices s k \<noteq> None"
  shows "\<exists>r. find_dev_loop did s ks = Some r \<and>
    (case r of None \<Rightarrow> \<forall>k \<in> set ks. \<forall>d. devices s k = Some d \<longrightarrow> int (dev_id d) \<noteq> did
     | Some k \<Rightarrow> k \<in> set ks \<and> (\<exists>d. devices s k = Some d \<and> int (dev_id d) = did))"
  using assms
proof (induction ks)
  case (Cons k ks)
  then obtain d r where "devices s k = Some d" "find_dev_loop did s ks = Some r"
    "case r of None \<Rightarrow> \<forall>k \<in> set ks. \<forall>d. devices s k = Some d \<longrightarrow> int (dev_id d) \<noteq> did
     | Some k \<Rightarrow> k \<in> set ks \<and> (\<exists>d. devices s k = Some d \<and> int (dev_id d) = did)" by auto
  then show ?case by (auto split: option.splits)
qed simp

text \<open>The device with an id, if one is listed.\<close>

definition dev_with_id :: "ubbd_sys \<Rightarrow> int \<Rightarrow> nat \<Rightarrow> ubbd_device \<Rightarrow> bool" where
  "dev_with_id s did k d \<longleftrightarrow> k \<in> set (ubbd_dev_list s) \<and> devices s k = Some d \<and> int (dev_id d) = did"

definition grabbed :: "nat \<Rightarrow> ubbd_device \<Rightarrow> ubbd_sys \<Rightarrow> ubbd_sys" where
  "grabbed k d s = s\<lparr>devices := (devices s)(k \<mapsto> d\<lparr>kref := kref d + 1\<rparr>)\<rparr>"

lemma find_dev_ok:
  assumes "listed_ok s"
  obtains (missing) "find_ubbd_dev did s = Some (None, s)" "\<forall>k d. \<not> dev_with_id s did k d"
  | (found) k d where "find_ubbd_dev did s = Some (Some k, grabbed k d s)" "dev_with_id s did k d" "0 < kref d"
      "\<forall>q \<in> set (queues d). kring_minor s q \<noteq> None"
proof -
  have l: "\<forall>k \<in> set (ubbd_dev_list s). devices s k \<noteq> None" using assms by (auto simp: listed_ok_def)
  obtain r where r: "find_dev_loop did s (ubbd_dev_list s) = Some r"
    "case r of None \<Rightarrow> \<forall>k \<in> set (ubbd_dev_list s). \<forall>d. devices s k = Some d \<longrightarrow> int (dev_id d) \<noteq> did
     | Some k \<Rightarrow> k \<in> set (ubbd_dev_list s) \<and> (\<exists>d. devices s k = Some d \<and> int (dev_id d) = did)"
    using find_loop_ok [OF l] by blast
  show ?thesis
  proof (cases r)
    case None
    then show ?thesis using missing r by (simp add: find_ubbd_dev_def dev_with_id_def)
  next
    case (Some k)
    then obtain d where d: "k \<in> set (ubbd_dev_list s)" "devices s k = Some d" "int (dev_id d) = did" using r(2) by auto
    then have "0 < kref d" "\<forall>q \<in> set (queues d). kring_minor s q \<noteq> None" using assms by (auto simp: listed_ok_def)
    moreover have "find_ubbd_dev did s = Some (Some k, grabbed k d s)"
      using r(1) Some d(2) by (simp add: find_ubbd_dev_def ubbd_dev_get_def upd_dev_def grabbed_def)
    ultimately show ?thesis using found d by (simp add: dev_with_id_def)
  qed
qed

text \<open>Dropping the reference of a command on a device that somebody else holds.\<close>

lemma drop_grabbed:
  assumes "devices s k = Some d" and "1 < kref d"
  shows "ubbd_dev_put k s = Some (s\<lparr>devices := (devices s)(k \<mapsto> d\<lparr>kref := kref d - 1\<rparr>)\<rparr>)"
  using assms by (simp add: ubbd_dev_put_def upd_dev_def)

lemma grab_drop:
  assumes "devices s k = Some d" and "0 < kref d"
  shows "ubbd_dev_put k ((grabbed k d s)\<lparr>rets := rs\<rparr>) = Some (s\<lparr>rets := rs\<rparr>)"
proof -
  have "ubbd_dev_put k ((grabbed k d s)\<lparr>rets := rs\<rparr>) =
      Some ((grabbed k d s)\<lparr>rets := rs, devices := (devices (grabbed k d s))(k \<mapsto> d)\<rparr>)"
    using drop_grabbed [of "(grabbed k d s)\<lparr>rets := rs\<rparr>" k "d\<lparr>kref := kref d + 1\<rparr>"] assms(2) by (simp add: grabbed_def)
  also have "(grabbed k d s)\<lparr>rets := rs, devices := (devices (grabbed k d s))(k \<mapsto> d)\<rparr> = s\<lparr>rets := rs\<rparr>"
    using assms(1) by (intro ubbd_sys.equality) (simp_all add: grabbed_def fun_upd_idem)
  finally show ?thesis .
qed

section \<open>Status and list\<close>

lemma minor_grabbed [simp]: "kring_minor (grabbed k d s) = kring_minor s" "queue_toks (grabbed k d s) = queue_toks s"
  by (simp_all add: fun_eq_iff kring_minor_def queue_toks_def grabbed_def)

lemma toks_grabbed [simp]: "info_toks (grabbed k d s) e = info_toks s e" "info_toks s (e\<lparr>kref := n\<rparr>) = info_toks s e"
  "queues_size (e\<lparr>kref := n\<rparr>) = queues_size e" "get_status_msg_size (e\<lparr>kref := n\<rparr>) = get_status_msg_size e"
  by (simp_all add: info_toks_def status_toks_def queues_size_def get_status_msg_size_def)

lemma status_handler_ok:
  assumes "listed_ok s" and "attr_dev_id info = Some did" and "dev_with_id s did k d" and "find_ubbd_dev did s = Some (Some k, grabbed k d s)"
    and "0 < kref d" and "\<forall>q \<in> set (queues d). kring_minor s q \<noteq> None"
  shows "\<exists>ret s'. handle_cmd_status N info s =
      Some (ret, if ret = 0 then Some (info_toks s d @ [Put_s32 UBBD_ATTR_RETVAL 0]) else None, s') \<and>
    s' = s\<lparr>rets := rets s'\<rparr> \<and> (rets s = [] \<longrightarrow> ret = 0)"
proof -
  let ?d = "d\<lparr>kref := kref d + 1\<rparr>" and ?s = "grabbed k d s"
  let ?size = "nla_total_size (nla_attr_size 4) + get_status_msg_size ?d + nla_attr_size 4"
  have d: "devices s k = Some d" using assms(3) by (simp add: dev_with_id_def)
  have "\<exists>skb'. fill_ubbd_status N (?s\<lparr>rets := rs\<rparr>) ?d skb = Some (0, skb') \<and> wrote (24 + queues_size d) (info_toks s d) skb skb'"
    if "24 + queues_size d \<le> sk_room skb" for rs skb
    using fill_status_ok [of ?d skb "?s\<lparr>rets := rs\<rparr>" N] that assms(6) by simp
  moreover have "24 + queues_size d + 8 \<le> ?size" using status_size [of d] by (simp add: nla_total_size_def nla_attr_size_def)
  ultimately obtain ret s' where r: "send_reply ?size (\<lambda>s skb. fill_ubbd_status N s ?d skb) ?s =
      Some (ret, if ret = 0 then Some (info_toks s d @ [Put_s32 UBBD_ATTR_RETVAL 0]) else None, s')"
      "s' = ?s\<lparr>rets := rets s'\<rparr>" "rets ?s = [] \<longrightarrow> ret = 0"
    using send_reply_ok [of "24 + queues_size d" "\<lambda>s skb. fill_ubbd_status N s ?d skb" ?s "info_toks s d" ?size] by blast
  have "ubbd_dev_put k s' = Some (s\<lparr>rets := rets s'\<rparr>)" using grab_drop [OF d assms(5)] r(2) by metis
  then have "handle_cmd_status N info s = Some (ret, if ret = 0 then Some (info_toks s d @ [Put_s32 UBBD_ATTR_RETVAL 0]) else None, s\<lparr>rets := rets s'\<rparr>)"
    using assms(2,4) r(1) by (simp add: handle_cmd_status_def) (simp add: grabbed_def)
  moreover have "rets ?s = rets s" by (simp add: grabbed_def)
  ultimately show ?thesis using r(3) by auto
qed

text \<open>C30: The reply of a status command always fits the size computed for it: for a listed device the
  command returns, and either sends the complete description of the device and its queues,
  or nothing because a kernel call failed. An id that is not listed gives \<open>-ENOENT\<close>. In every
  case the reference it took is dropped and the driver's state is as before.\<close>

theorem status_reply_complete:
  assumes "listed_ok s" and "attr_dev_id info = Some did"
  shows "\<exists>ret reply s'. handle_cmd_status N info s = Some (ret, reply, s') \<and> s' = s\<lparr>rets := rets s'\<rparr> \<and>
    (if \<exists>k d. dev_with_id s did k d
     then \<exists>k d. dev_with_id s did k d \<and> (rets s = [] \<longrightarrow> ret = 0) \<and>
       reply = (if ret = 0 then Some (info_toks s d @ [Put_s32 UBBD_ATTR_RETVAL 0]) else None)
     else ret = - ENOENT \<and> reply = None)"
proof (cases rule: find_dev_ok [OF assms(1), of did])
  case 1
  then have "handle_cmd_status N info s = Some (- ENOENT, None, s)" using assms(2) by (simp add: handle_cmd_status_def)
  then show ?thesis using 1(2) by simp
next
  case (2 k d)
  have e: "\<exists>k d. dev_with_id s did k d" using 2(2) by blast
  show ?thesis unfolding if_P [OF e] using status_handler_ok [OF assms 2(2,1,3,4), of N] 2(2) by blast
qed

definition N0 :: nl_const where
  "N0 = \<lparr>nl_base = C0 False, UBBD_ATTR_FLAGS_REMOVE_FORCE = 1, UBBD_ATTR_FLAGS_QUEUE_OP_STOP = 1, UBBD_ATTR_FLAGS_QUEUE_OP_START = 2,
     nr_cpu_ids = 1, nl_pad = (\<lambda>n. n mod 8 = 0)\<rparr>"

definition info0 :: genl_info where
  "info0 = \<lparr>attr_dev_id = Some 0, attr_queue_id = Some 0, attr_flags = Some 1, attr_dev_opts = None\<rparr>"

text \<open>A listed device with one queue whose kring device has minor 0 and which two CPUs feed.\<close>

definition nsys0 :: ubbd_sys where
  "nsys0 = rsys0\<lparr>devices := [0 \<mapsto> rdev0\<lparr>queues := [(rq0 0)\<lparr>dq_cpumask := [0, 1], dq_info := \<lparr>ki_name = Name ''ubbd0-0'', ki_dev = Some 0, ki_size = 20480\<rparr>\<rparr>]\<rparr>]\<rparr>"

lemma nsys0_ok: "listed_ok nsys0"
  by (simp add: listed_ok_def nsys0_def rsys0_def usys0_def rdev0_def zero_device_def kring_minor_def sys0_def)

theorem status_reply_complete_witness:
  "\<exists>s'. handle_cmd_status N0 info0 nsys0 =
     Some (0, Some [Nest_Start UBBD_ATTR_DEV_INFO, Put_s32 UBBD_STATUS_DEV_ID 0, Put_u8_status UBBD_STATUS_STATUS UBBD_DEV_KSTATUS_RUNNING,
       Nest_Start UBBD_STATUS_QUEUE_INFO, Nest_Start UBBD_QUEUE_INFO_ITEM, Put_s32 UBBD_QUEUE_INFO_KRING_ID 0,
       Put_u64 UBBD_QUEUE_INFO_KRING_MAP_SIZE 20480, Put_s32 UBBD_QUEUE_INFO_B_PID 0,
       Put_s32_status UBBD_QUEUE_INFO_STATUS UBBD_QUEUE_KSTATUS_RUNNING, Nest_Start UBBD_QUEUE_INFO_CPU_LIST,
       Put_s32 UBBD_QUEUE_INFO_CPU_ID 0, Put_s32 UBBD_QUEUE_INFO_CPU_ID 1, Nest_End UBBD_QUEUE_INFO_CPU_LIST,
       Nest_End UBBD_QUEUE_INFO_ITEM, Nest_End UBBD_STATUS_QUEUE_INFO, Nest_End UBBD_ATTR_DEV_INFO, Put_s32 UBBD_ATTR_RETVAL 0], s')"
proof -
  have "attr_dev_id info0 = Some 0" by (simp add: info0_def)
  from status_reply_complete [OF nsys0_ok this, of N0] show ?thesis
    by (auto simp: dev_with_id_def nsys0_def rsys0_def usys0_def rdev0_def zero_device_def rq0_def zero_queue_def info_toks_def
        status_toks_def queue_toks_def kring_minor_def sys0_def split: if_splits)
qed

text \<open>C31: The list command returns: it sends the ids of all listed devices, which always fit the size
  computed for them, or nothing because a kernel call failed.\<close>

theorem list_reply_complete:
  assumes "listed_ok s"
  shows "\<exists>ret s'. handle_cmd_list s = Some (ret, if ret = 0
       then Some (Nest_Start UBBD_ATTR_DEV_LIST # map (\<lambda>k. Put_s32 UBBD_LIST_DEV_ID (int (dev_id (the (devices s k))))) (ubbd_dev_list s) @
                  [Nest_End UBBD_ATTR_DEV_LIST, Put_s32 UBBD_ATTR_RETVAL 0])
       else None, s') \<and>
    s' = s\<lparr>rets := rets s'\<rparr> \<and> (rets s = [] \<longrightarrow> ret = 0)"
proof -
  let ?ks = "ubbd_dev_list s" and ?t = "\<lambda>k. Put_s32 UBBD_LIST_DEV_ID (int (dev_id (the (devices s k))))"
  let ?ts = "Nest_Start UBBD_ATTR_DEV_LIST # map ?t ?ks @ [Nest_End UBBD_ATTR_DEV_LIST]"
  let ?size = "nla_total_size (nla_attr_size 4) + nla_total_size (nla_attr_size 4) + nla_attr_size 4 * length ?ks"
  have "\<exists>skb'. fill_ubbd_list (s\<lparr>rets := rs\<rparr>) skb = Some (0, skb') \<and> wrote (4 + 8 * length ?ks) ?ts skb skb'"
    if room: "4 + 8 * length ?ks \<le> sk_room skb" for rs skb
  proof -
    obtain b1 where 1: "nla_nest_start UBBD_ATTR_DEV_LIST skb = (True, b1)" "wrote 4 [Nest_Start UBBD_ATTR_DEV_LIST] skb b1"
        "8 * length ?ks \<le> sk_room b1"
      using nest_ok [of skb] room by (fastforce simp: wrote_def)
    have "\<forall>k \<in> set ?ks. devices (s\<lparr>rets := rs\<rparr>) k \<noteq> None" using assms by (auto simp: listed_ok_def)
    then obtain b2 where 2: "fill_list_loop (s\<lparr>rets := rs\<rparr>) ?ks b1 = Some (0, b2)" "wrote (8 * length ?ks) (map ?t ?ks) b1 b2"
      using fill_list_ok [OF 1(3), of "s\<lparr>rets := rs\<rparr>"] by auto
    obtain b3 where 3: "nla_nest_end True UBBD_ATTR_DEV_LIST b2 = Some b3" "wrote 0 [Nest_End UBBD_ATTR_DEV_LIST] b2 b3"
      using nest_end_ok by blast
    have "fill_ubbd_list (s\<lparr>rets := rs\<rparr>) skb = Some (0, b3)" using 1(1) 2(1) 3(1) by (simp add: fill_ubbd_list_def)
    then show ?thesis using 1(2) 2(2) 3(2) by (simp add: wrote_def)
  qed
  moreover have "4 + 8 * length ?ks + 8 \<le> ?size"
    by (simp add: nla_total_size_def nla_attr_size_def)
  ultimately obtain ret s' where r: "send_reply ?size fill_ubbd_list s = Some (ret, if ret = 0 then Some (?ts @ [Put_s32 UBBD_ATTR_RETVAL 0]) else None, s')"
      "s' = s\<lparr>rets := rets s'\<rparr>" "rets s = [] \<longrightarrow> ret = 0"
    using send_reply_ok [of "4 + 8 * length ?ks" fill_ubbd_list s ?ts ?size] by blast
  have "handle_cmd_list s = send_reply ?size fill_ubbd_list s" by (simp only: handle_cmd_list_def Let_def)
  note r1 = r(1) [folded this]
  have "?ts @ [Put_s32 UBBD_ATTR_RETVAL 0] =
      Nest_Start UBBD_ATTR_DEV_LIST # map ?t ?ks @ [Nest_End UBBD_ATTR_DEV_LIST, Put_s32 UBBD_ATTR_RETVAL 0]" by simp
  note r2 = r1 [unfolded this]
  show ?thesis by (rule exI [of _ ret], rule exI [of _ s'], rule conjI [OF r2 conjI [OF r(2,3)]])
qed

theorem list_reply_complete_witness:
  "\<exists>s'. handle_cmd_list nsys0 =
     Some (0, Some [Nest_Start UBBD_ATTR_DEV_LIST, Put_s32 UBBD_LIST_DEV_ID 0, Nest_End UBBD_ATTR_DEV_LIST, Put_s32 UBBD_ATTR_RETVAL 0], s')"
  using list_reply_complete [OF nsys0_ok] by (auto simp: nsys0_def rsys0_def usys0_def rdev0_def zero_device_def)

end
