(* ===== verification/Netlink_Cmds.thy ===== *)
theory Netlink_Cmds
  imports Netlink
begin

text \<open>
  The command table of the netlink family (\<open>src/ubbd_nl.c\<close>), who may send
  commands, adding a device by command, and commands that lack their attributes.
\<close>

section \<open>The command table\<close>

datatype nl_cmd = UBBD_CMD_ADD_DEV | UBBD_CMD_ADD_DISK | UBBD_CMD_REMOVE_DISK | UBBD_CMD_REMOVE_DEV
  | UBBD_CMD_STATUS | UBBD_CMD_CONFIG | UBBD_CMD_QUEUE_OP | UBBD_CMD_LIST

record genl_op =
  op_admin_perm :: bool                \<comment> \<open>\<open>.flags = GENL_ADMIN_PERM\<close>\<close>
  op_doit :: "genl_info \<Rightarrow> ubbd_sys \<Rightarrow> (int \<times> reply option \<times> ubbd_sys) option"

definition no_reply :: "(genl_info \<Rightarrow> ubbd_sys \<Rightarrow> (int \<times> ubbd_sys) option) \<Rightarrow> genl_info \<Rightarrow> ubbd_sys \<Rightarrow> (int \<times> reply option \<times> ubbd_sys) option" where
  "no_reply f info s = map_option (\<lambda>(ret, s1). (ret, None, s1)) (f info s)"

fun ubbd_genl_ops :: "nl_const \<Rightarrow> (nat \<Rightarrow> ubbd_request) \<Rightarrow> nl_cmd \<Rightarrow> genl_op" where
  "ubbd_genl_ops N pd UBBD_CMD_ADD_DEV = \<lparr>op_admin_perm = True, op_doit = handle_cmd_add_dev N pd\<rparr>"
| "ubbd_genl_ops N pd UBBD_CMD_ADD_DISK = \<lparr>op_admin_perm = True, op_doit = no_reply handle_cmd_add_disk\<rparr>"
| "ubbd_genl_ops N pd UBBD_CMD_REMOVE_DISK = \<lparr>op_admin_perm = True, op_doit = no_reply (handle_cmd_remove_disk N)\<rparr>"
| "ubbd_genl_ops N pd UBBD_CMD_REMOVE_DEV = \<lparr>op_admin_perm = True, op_doit = no_reply (handle_cmd_remove_dev N)\<rparr>"
| "ubbd_genl_ops N pd UBBD_CMD_STATUS = \<lparr>op_admin_perm = True, op_doit = handle_cmd_status N\<rparr>"
| "ubbd_genl_ops N pd UBBD_CMD_CONFIG = \<lparr>op_admin_perm = True, op_doit = no_reply handle_cmd_config\<rparr>"
| "ubbd_genl_ops N pd UBBD_CMD_QUEUE_OP = \<lparr>op_admin_perm = True, op_doit = no_reply (handle_cmd_queue_op N)\<rparr>"
| "ubbd_genl_ops N pd UBBD_CMD_LIST = \<lparr>op_admin_perm = True, op_doit = (\<lambda>_. handle_cmd_list)\<rparr>"

text \<open>What generic netlink does with a message of the family: a command marked \<open>GENL_ADMIN_PERM\<close> is
  refused to a sender without \<open>CAP_NET_ADMIN\<close>, the others go to the handler.\<close>

definition genl_rcv ::
  "nl_const \<Rightarrow> (nat \<Rightarrow> ubbd_request) \<Rightarrow> bool \<Rightarrow> nl_cmd \<Rightarrow> genl_info \<Rightarrow> ubbd_sys \<Rightarrow> (int \<times> reply option \<times> ubbd_sys) option" where
  "genl_rcv N pd cap cmd info s =
     (let op = ubbd_genl_ops N pd cmd in
      if op_admin_perm op \<and> \<not> cap then Some (- EPERM, None, s) else op_doit op info s)"

section \<open>Adding a device by command\<close>

text \<open>Every queue of a prepared device has its kring device.\<close>

lemma held_minor:
  assumes "queues_held b qs s" and "q \<in> set qs" and "ki_dev (dq_info q) \<noteq> None"
  shows "kring_minor s q \<noteq> None"
proof -
  obtain key where k: "ki_dev (dq_info q) = Some key" using assms(3) by blast
  have "key \<in> set (q_keys qs)" using assms(2) k by (induction qs) (auto split: option.splits)
  then have "devs (kring s) key \<noteq> None" using assms(1) unfolding queues_held_def kheld_def by fastforce
  then show ?thesis using k by (auto simp: kring_minor_def)
qed

lemma set_up_queues: "set_up C m l d d' \<Longrightarrow> list_all2 same_but_hctx (queues d) (queues d')"
  by (auto simp: set_up_def disk_made_def)

lemma prepared_has_krings:
  assumes "prepared C s0 opts d" and "q \<in> set (queues d)"
  shows "ki_dev (dq_info q) \<noteq> None"
proof -
  obtain d0 d1 where d: "new_device C opts d0" "set_up C (ubbd_major s0) (def_limits s0) d1 (d\<lparr>dv_status := UBBD_DEV_KSTATUS_INIT\<rparr>)"
      "queues d1 = queues d0" using assms(1) by (auto simp: prepared_def)
  have "list_all2 same_but_hctx (queues d0) (queues d)" using set_up_queues [OF d(2)] d(3) by simp
  then obtain q0 where "q0 \<in> set (queues d0)" "same_but_hctx q0 q" using assms(2)
    by (metis in_set_conv_nth list_all2_conv_all_nth)
  moreover from this(1) have "ki_dev (dq_info q0) \<noteq> None" using d(1) by (auto simp: new_device_def new_queue_def in_set_conv_nth)
  ultimately show ?thesis by (auto simp: same_but_hctx_def)
qed

text \<open>The reply of \<open>add_dev\<close> has the same attributes as that of \<open>status\<close>.\<close>

lemma reply_add_dev_ok:
  assumes d: "devices s k = Some d" and m: "\<forall>q \<in> set (queues d). kring_minor s q \<noteq> None"
  shows "\<exists>ret s'. ubbd_nl_reply_add_dev_done N k s =
      Some (ret, if ret = 0 then Some (info_toks s d @ [Put_s32 UBBD_ATTR_RETVAL 0]) else None, s') \<and>
    s' = s\<lparr>rets := rets s'\<rparr> \<and> (rets s = [] \<longrightarrow> ret = 0)"
proof -
  obtain r1 s1 where t1: "take_ret s = (r1, s1)" by fastforce
  obtain r2 s2 where t2: "take_ret s1 = (r2, s2)" by fastforce
  obtain r3 s3 where t3: "take_ret s2 = (r3, s3)" by fastforce
  have f: "s1 = s\<lparr>rets := rets s1\<rparr>" "s2 = s\<lparr>rets := rets s2\<rparr>" "s3 = s\<lparr>rets := rets s3\<rparr>"
      "rets s = [] \<longrightarrow> r1 = 0 \<and> r2 = 0 \<and> r3 = 0"
    using take_ret_form [OF t1] take_ret_form [OF t2] take_ret_form [OF t3] by (metis ubbd_sys.update_convs(3) ubbd_sys.surjective)+
  let ?size = "get_status_msg_size d + nla_total_size (nla_attr_size 4) + nla_total_size (nla_attr_size 4)"
  let ?skb = "\<lparr>sk_room = ?size, sk_used = 0, sk_toks = []\<rparr>"
  have sz: "32 + queues_size d \<le> ?size" using status_size [of d] by (simp add: nla_total_size_def nla_attr_size_def)
  obtain b1 where 1: "nla_nest_start UBBD_ATTR_DEV_INFO ?skb = (True, b1)" "wrote 4 [Nest_Start UBBD_ATTR_DEV_INFO] ?skb b1"
      "28 + queues_size d \<le> sk_room b1"
    using nest_ok [of ?skb] sz by (fastforce simp: wrote_def)
  have e: "kring_minor s2 = kring_minor s" "status_toks s2 = status_toks s" by (subst f(2), simp)+
  obtain b2 where 2: "fill_ubbd_status_detail N s2 d b1 = Some (0, b2)" "wrote (20 + queues_size d) (status_toks s2 d) b1 b2"
      "8 \<le> sk_room b2"
    using fill_detail_ok [of d b1 s2 N] 1(3) m e(1) by (fastforce simp: wrote_def)
  obtain b3 where 3: "nla_nest_end True UBBD_ATTR_DEV_INFO b2 = Some b3" "wrote 0 [Nest_End UBBD_ATTR_DEV_INFO] b2 b3"
    using nest_end_ok by blast
  obtain b4 where 4: "nla_put 4 (Put_s32 UBBD_ATTR_RETVAL 0) b3 = (0, b4)" "wrote 8 [Put_s32 UBBD_ATTR_RETVAL 0] b3 b4"
    using put_ok [of 4 b3] 2(3) 3(2) by (fastforce simp: wrote_def)
  have toks: "sk_toks b4 = info_toks s d @ [Put_s32 UBBD_ATTR_RETVAL 0]"
    using 1(2) 2(2) 3(2) 4(2) e(2) by (simp add: wrote_def info_toks_def)
  let ?r = "ubbd_nl_reply_add_dev_done N k s"
  note defs = ubbd_nl_reply_add_dev_done_def genlmsg_new_def genlmsg_put_reply_def genlmsg_reply_def t1 t2 t3 d Let_def
  consider "r1 \<noteq> 0" "?r = Some (- EMSGSIZE, None, s1)" | "r1 = 0" "r2 \<noteq> 0" "?r = Some (- EMSGSIZE, None, s2)"
    | "?r = Some (r3, if r3 = 0 then Some (sk_toks b4) else None, s3)"
    using 1(1) 2(1) 3(1) 4(1) by (cases "r1 = 0"; cases "r2 = 0") (simp_all add: defs)
  then show ?thesis using f toks by cases auto
qed

lemma dev_held_rets: "dev_held b d s \<Longrightarrow> dev_held b d (s\<lparr>rets := rs\<rparr>)"
  by (simp add: dev_held_def dev_base_def queues_held_def srest_def module_add_def)

text \<open>A request the parser could have produced: a failed parse has an error, and the number of queues
  is one the kernel can map its CPUs to.\<close>

definition info_ok :: "nl_const \<Rightarrow> genl_info \<Rightarrow> bool" where
  "info_ok N info \<longleftrightarrow> (case attr_dev_opts info of
       None \<Rightarrow> True
     | Some (Inl err) \<Rightarrow> err \<noteq> 0
     | Some (Inr o1) \<Rightarrow> (\<forall>flags sz. opts_ok (nl_base N) (add_opts_of N flags sz o1)))"

text \<open>What the command leaves in each of its outcomes.\<close>

definition added :: "nl_const \<Rightarrow> genl_info \<Rightarrow> ubbd_sys \<Rightarrow> reply option \<Rightarrow> ubbd_sys \<Rightarrow> bool" where
  "added N info s reply s' \<longleftrightarrow> (\<exists>flags sz o1 d. attr_flags info = Some flags \<and> attr_dev_opts info = Some (Inr o1) \<and>
     opt_dev_size o1 = Some sz \<and> devices s' (dev_next s) = Some d \<and> prepared (nl_base N) s (add_opts_of N flags sz o1) d \<and>
     ubbd_dev_list s' = ubbd_dev_list s @ [dev_next s] \<and> reply = Some (info_toks s' d @ [Put_s32 UBBD_ATTR_RETVAL 0]))"

lemma reply_or_remove:
  assumes ok: "sys_ok s" and p: "prepared (nl_base N) s opts d" and h: "dev_held (with_disk (with_dev s d)) d s1"
    and d: "devices s1 (dev_next s) = Some d"
  shows "\<exists>ret reply s2. ubbd_nl_reply_add_dev_done N (dev_next s) s1 = Some (ret, reply, s2) \<and>
    (if ret = 0 then reply = Some (info_toks s2 d @ [Put_s32 UBBD_ATTR_RETVAL 0]) \<and> devices s2 = devices s1 \<and> ubbd_dev_list s2 = ubbd_dev_list s1
     else \<exists>s3. ubbd_dev_remove_dev (nl_base N) (dev_next s) s2 = Some (0, s3) \<and> same_sys (s\<lparr>dev_next := dev_next s3\<rparr>) s3)"
proof -
  have "\<forall>q \<in> set (queues d). kring_minor s1 q \<noteq> None"
    using held_minor [of _ "queues d" s1] h prepared_has_krings [OF p] by (auto simp: dev_held_def)
  then obtain ret s2 where r: "ubbd_nl_reply_add_dev_done N (dev_next s) s1 =
        Some (ret, if ret = 0 then Some (info_toks s1 d @ [Put_s32 UBBD_ATTR_RETVAL 0]) else None, s2)" "s2 = s1\<lparr>rets := rets s2\<rparr>"
    using reply_add_dev_ok [OF d] by blast
  have e: "devices s2 = devices s1" "ubbd_dev_list s2 = ubbd_dev_list s1" "info_toks s2 = info_toks s1" by (subst r(2), simp)+
  show ?thesis
  proof (cases "ret = 0")
    case True
    then show ?thesis using r(1) e by auto
  next
    case False
    have "dev_held (with_disk (with_dev s d)) d s2" by (subst r(2)) (rule dev_held_rets [OF h])
    then have "\<exists>s3. ubbd_dev_remove_dev (nl_base N) (dev_next s) s2 = Some (0, s3) \<and> same_sys (s\<lparr>dev_next := dev_next s3\<rparr>) s3"
      using remove_new_dev [OF ok p] d e(1) by simp
    then show ?thesis using r(1) False by auto
  qed
qed


definition info1 :: genl_info where
  "info1 = \<lparr>attr_dev_id = None, attr_queue_id = None, attr_flags = Some 2, attr_dev_opts = Some (Inr
     \<lparr>opt_dp_reserve = None, opt_dev_size = Some 1048576, opt_data_pages = Some 4, opt_dev_queues = Some 1, opt_io_timeout = None\<rparr>)\<rparr>"

lemma info1_ok: "info_ok N0 info1"
  by (simp add: info_ok_def info1_def opts_ok_def add_opts_of_def N0_def C0_def)


section \<open>Requests without their attributes\<close>



end
