(* ===== verification/Driver.thy ===== *)
theory Driver
  imports Netlink_Cmds
begin

text \<open>
  The driver as a machine: netlink commands, the block layer, debugfs files, mappings and the
  work queue interleave in any order, from the state in which the module was just loaded. The
  references of all devices are accounted for along every run.
\<close>

section \<open>The machine\<close>

text \<open>The state of the driver and, for every device, the number of references that commands in
  progress, debugfs files and mappings hold.\<close>

type_synonym drv_state = "ubbd_sys \<times> (nat \<Rightarrow> nat)"

inductive drv_step :: "nl_const \<Rightarrow> (nat \<Rightarrow> ubbd_request) \<Rightarrow> drv_state \<Rightarrow> drv_state \<Rightarrow> bool" for N pd where
  drv_cmd: "genl_rcv N pd cap cmd info s = Some (ret, reply, s') \<Longrightarrow> drv_step N pd (s, h) (s', h)"
| drv_dev: "dev_step (nl_base N) k (s, h k) (s', n) \<Longrightarrow> drv_step N pd (s, h) (s', h(k := n))"
| drv_timeout: "on_dev k (ubbd_timeout (nl_base N) req) s = Some (ret, s') \<Longrightarrow> drv_step N pd (s, h) (s', h)"

definition drv_init :: "drv_state \<Rightarrow> bool" where
  "drv_init = (\<lambda>(s, h). devices s = Map.empty \<and> ubbd_dev_list s = [] \<and> ubbd_wq s = [] \<and> h = (\<lambda>_. 0))"

definition drv_inv :: "drv_state \<Rightarrow> bool" where
  "drv_inv = (\<lambda>(s, h). (\<forall>k. refs_inv k (s, h k)) \<and> (\<forall>k. dev_next s \<le> k \<longrightarrow> devices s k = None))"

section \<open>What a step on one device leaves alone\<close>

definition frame :: "nat \<Rightarrow> ubbd_sys \<Rightarrow> ubbd_sys \<Rightarrow> bool" where
  "frame k s s' \<longleftrightarrow> (\<forall>j. j \<noteq> k \<longrightarrow> devices s' j = devices s j \<and> (j \<in> set (ubbd_dev_list s') \<longleftrightarrow> j \<in> set (ubbd_dev_list s)) \<and>
       count_list (ubbd_wq s') j = count_list (ubbd_wq s) j) \<and>
     (devices s k = None \<longrightarrow> devices s' k = None) \<and>
     (distinct (ubbd_dev_list s) \<longrightarrow> distinct (ubbd_dev_list s')) \<and> dev_next s' = dev_next s"

lemma frame_trans: "frame k s s' \<Longrightarrow> frame k s' s'' \<Longrightarrow> frame k s s''"
  by (simp add: frame_def)

lemma kept_frame: "kept s s' \<Longrightarrow> frame k s s'"
  by (simp add: frame_def)

lemma frame_refs:
  assumes "frame k s s'" and "j \<noteq> k" and "refs_inv j (s, n)"
  shows "refs_inv j (s', n)"
proof -
  have f: "devices s' j = devices s j" "j \<in> set (ubbd_dev_list s') \<longleftrightarrow> j \<in> set (ubbd_dev_list s)"
      "count_list (ubbd_wq s') j = count_list (ubbd_wq s) j" "distinct (ubbd_dev_list s) \<longrightarrow> distinct (ubbd_dev_list s')"
    using assms(1,2) by (auto simp: frame_def)
  then have "j \<in> set (ubbd_wq s') \<longleftrightarrow> j \<in> set (ubbd_wq s)" by (metis count_list_0_iff)
  then show ?thesis using assms(3) f by (cases "devices s j") (auto simp: refs_inv_def refs_view_def)
qed

lemma upd_dev_frame: "upd_dev k f s = Some s' \<Longrightarrow> frame k s s'"
  by (auto simp: upd_dev_def frame_def bind_eq_Some_conv)

lemma get_frame: "ubbd_dev_get k s = Some s' \<Longrightarrow> frame k s s'"
  by (simp add: ubbd_dev_get_def upd_dev_frame)

lemma put_frame:
  assumes "ubbd_dev_put k s = Some s'"
  shows "frame k s s'"
proof -
  obtain d where d: "devices s k = Some d" and
      r: "if kref d = 1 then ubbd_dev_destroy d (s\<lparr>devices := (devices s)(k := None)\<rparr>) = Some s' else upd_dev k (\<lambda>d. d\<lparr>kref := kref d - 1\<rparr>) s = Some s'"
    using assms by (auto simp: ubbd_dev_put_def bind_eq_Some_conv split: if_splits)
  show ?thesis
  proof (cases "kref d = 1")
    case True
    then have "kept (s\<lparr>devices := (devices s)(k := None)\<rparr>) s'" using r destroy_view by simp
    then show ?thesis by (simp add: frame_def)
  qed (use r upd_dev_frame in simp)
qed

lemma count_remove1: "count_list (remove1 k w) j = count_list w j - of_bool (j = k)"
  by (induction w) auto

lemma set_rq_timeout_frame: "set_rq_timeout t k s = Some s' \<Longrightarrow> frame k s s'"
  by (auto simp: set_rq_timeout_def bind_eq_Some_conv frame_def)

lemma add_disk_frame: "ubbd_add_disk C k s = Some (ret, s') \<Longrightarrow> frame k s s'"
  by (auto simp: ubbd_add_disk_def bind_eq_Some_conv frame_def take_ret_def Let_def split: if_splits list.splits)

lemma add_disk_work_frame: "add_disk_work C k s = Some (go, s') \<Longrightarrow> frame k s s'"
  by (auto simp: add_disk_work_def bind_eq_Some_conv split: if_splits dest!: set_rq_timeout_frame add_disk_frame intro: frame_trans)

lemma add_disk_fn_frame:
  assumes "ubbd_add_disk_fn C k s = Some s'"
  shows "frame k s s'"
proof -
  let ?s0 = "s\<lparr>ubbd_wq := remove1 k (ubbd_wq s)\<rparr>"
  obtain go s1 running s2 s3 f where b: "add_disk_begin C k ?s0 = Some (go, s1)"
      "(if go then add_disk_work C k s1 else Some (False, s1)) = Some (running, s2)" "upd_dev k f s2 = Some s3" "ubbd_dev_put k s3 = Some s'"
    using assms by (auto simp: ubbd_add_disk_fn_def add_disk_finish_def bind_eq_Some_conv)
  have "frame k s ?s0" by (simp add: frame_def count_remove1)
  moreover have "frame k ?s0 s1" using b(1) by (auto simp: add_disk_begin_def bind_eq_Some_conv frame_def split: if_splits)
  moreover have "frame k s1 s2" using b(2) add_disk_work_frame by (auto split: if_splits intro: kept_frame)
  ultimately show ?thesis using upd_dev_frame [OF b(3)] put_frame [OF b(4)] frame_trans by blast
qed

lemma free_disk_frame: "ubbd_free_disk k s = Some s' \<Longrightarrow> frame k s s'"
  by (auto simp: ubbd_free_disk_def bind_eq_Some_conv free_res_def upd_dev_def frame_def split: if_splits)

lemma remove_dev_frame:
  assumes "ubbd_dev_remove_dev C k s = Some (ret, s')"
  shows "frame k s s'"
proof -
  let ?s0 = "s\<lparr>ubbd_total_devs := ubbd_total_devs s - 1, ubbd_dev_list := remove1 k (ubbd_dev_list s)\<rparr>"
  consider "s' = s" | s1 where "ubbd_free_disk k ?s0 = Some s1" "ubbd_dev_put k s1 = Some s'"
    using assms by (auto simp: ubbd_dev_remove_dev_def bind_eq_Some_conv split: if_splits)
  then show ?thesis
  proof cases
    case 1
    then show ?thesis by (simp add: kept_frame)
  next
    case 2
    have "frame k s ?s0" by (auto simp: frame_def in_set_remove1)
    then show ?thesis using free_disk_frame [OF 2(1)] put_frame [OF 2(2)] frame_trans by blast
  qed
qed

lemma file_frame:
  assumes "ubbd_debugfs_open linked k s = Some (ret, s')"
  shows "frame k s s'"
proof -
  consider "s' = s" | s1 s2 where "ubbd_dev_get k s = Some s1" "take_ret s1 = (ret, s2)"
      "if ret \<noteq> 0 then ubbd_dev_put k s2 = Some s' else s' = s2"
    using assms by (auto simp: ubbd_debugfs_open_def ubbd_dev_get_unless_zero_def bind_eq_Some_conv Let_def split: if_splits prod.splits)
  then show ?thesis
  proof cases
    case (2 s1 s2)
    have "frame k s1 s2" using 2(2) by (auto simp: take_ret_def kept_frame split: list.splits)
    then have "frame k s s2" using get_frame [OF 2(1)] frame_trans by blast
    then show ?thesis using 2(3) put_frame frame_trans by (metis (full_types))
  qed (simp add: kept_frame)
qed

lemma open_frame: "ubbd_open k s = Some (ret, s') \<Longrightarrow> frame k s s'"
  by (auto simp: ubbd_open_def ubbd_dev_get_def upd_dev_def bind_eq_Some_conv frame_def split: if_splits)

lemma release_frame: "ubbd_release k s = Some s' \<Longrightarrow> frame k s s'"
  by (auto simp: ubbd_release_def bind_eq_Some_conv dest!: upd_dev_frame put_frame intro: frame_trans)

lemma queue_work_frame: "ubbd_dev_add_disk k s = Some (ret, s') \<Longrightarrow> frame k s s'"
  by (auto simp: ubbd_dev_add_disk_def ubbd_dev_get_def upd_dev_def bind_eq_Some_conv frame_def split: if_splits)

lemmas frames = get_frame put_frame open_frame release_frame file_frame queue_work_frame add_disk_fn_frame remove_dev_frame

lemma dev_step_frame: "dev_step C k (s, n) (s', n') \<Longrightarrow> frame k s s'"
  by (auto elim!: dev_step.cases dest: frames)

section \<open>Steps on one device keep the accounts of all\<close>

lemma drv_dev_step:
  assumes "drv_inv (s, h)" and "dev_step C k (s, h k) (s', n)"
  shows "drv_inv (s', h(k := n))"
proof -
  have "refs_inv k (s, h k)" using assms(1) by (simp add: drv_inv_def)
  then have "refs_inv k (s', n)" using dev_refs.inv_step assms(2) by blast
  moreover note f = dev_step_frame [OF assms(2)]
  moreover have "devices s' j = None" if "dev_next s' \<le> j" for j
    using that f assms(1) by (cases "j = k") (auto simp: drv_inv_def frame_def)
  ultimately show ?thesis using assms(1) frame_refs by (auto simp: drv_inv_def)
qed

lemma drv_get: "drv_inv (s, h) \<Longrightarrow> ubbd_dev_get k s = Some s' \<Longrightarrow> drv_inv (s', h(k := h k + 1))"
  by (rule drv_dev_step [OF _ dev_take])

lemma drv_put: "drv_inv (s, h(k := n + 1)) \<Longrightarrow> ubbd_dev_put k s = Some s' \<Longrightarrow> drv_inv (s', h(k := n))"
  using drv_dev_step [of s "h(k := n + 1)" undefined k s' n] dev_step.dev_drop [of k s s' undefined n] by simp

text \<open>A change of one device that keeps its references, and one that touches none.\<close>

lemma drv_quiet:
  assumes "drv_inv (s, h)" and "same_view k s s'" and "frame k s s'"
  shows "drv_inv (s', h)"
proof -
  have "refs_inv k (s', h k)" using assms(1) same_view_ok [OF assms(2)] by (simp add: drv_inv_def refs_inv_def)
  moreover have "devices s' j = None" if "dev_next s' \<le> j" for j
    using that assms(1,3) by (cases "j = k") (auto simp: drv_inv_def frame_def)
  ultimately show ?thesis using assms(1) frame_refs [OF assms(3)] by (auto simp: drv_inv_def) (metis)
qed

lemma drv_kept: "drv_inv (s, h) \<Longrightarrow> kept s s' \<Longrightarrow> drv_inv (s', h)"
  by (simp add: drv_inv_def refs_inv_def refs_view_def)

lemma on_dev_quiet:
  assumes "on_dev k f s = Some (r, s')" and "\<And>d km r d' km'. f d km = Some (r, d', km') \<Longrightarrow> same_refs d d'" and "drv_inv (s, h)"
  shows "drv_inv (s', h)"
proof -
  obtain d d1 km where d: "devices s k = Some d" "f d (mem s) = Some (r, d1, km)" "s' = s\<lparr>devices := (devices s)(k \<mapsto> d1), mem := km\<rparr>"
    using assms(1) by (auto simp: on_dev_def bind_eq_Some_conv)
  have "same_view k s s'" using d assms(2) [OF d(2)] by (auto simp: same_view_def refs_view_def)
  moreover have "frame k s s'" using d by (simp add: frame_def)
  ultimately show ?thesis using drv_quiet assms(3) by blast
qed

section \<open>The operations on a device keep its references\<close>

lemma upd_disk_refs: "upd_disk f d = Some d' \<Longrightarrow> same_refs d d'"
  by (auto simp: upd_disk_def same_refs_def bind_eq_Some_conv)

lemma config_refs: "ubbd_dev_config opts d = Some (ret, d') \<Longrightarrow> same_refs d d'"
  by (auto simp: ubbd_dev_config_def Let_def upd_disk_def same_refs_def bind_eq_Some_conv split: if_splits)

lemma stop_refs: "ubbd_dev_stop_queue H i d km = Some (ret, d', km') \<Longrightarrow> same_refs d d'"
  by (auto simp: ubbd_dev_stop_queue_def same_refs_def bind_eq_Some_conv split: if_splits)

lemma start_refs: "ubbd_dev_start_queue i d = (ret, d') \<Longrightarrow> same_refs d d'"
  by (auto simp: ubbd_dev_start_queue_def same_refs_def split: if_splits prod.splits)

lemma remove_disk_refs:
  assumes "ubbd_dev_remove_disk C force d km = Some (d', km')"
  shows "same_refs d d'"
proof -
  obtain qs km1 where l: "remove_queues_loop (uc_h C) force [0..<length (queues d)] (queues d) km = Some (qs, km1)"
    using assms by (auto simp: ubbd_dev_remove_disk_def ubbd_dev_remove_queues_def bind_eq_Some_conv)
  let ?d = "d\<lparr>queues := qs, dv_status := UBBD_DEV_KSTATUS_REMOVING\<rparr>"
  have r: "same_refs d ?d" by (simp add: same_refs_def)
  show ?thesis
  proof (cases "dv_status d = UBBD_DEV_KSTATUS_RUNNING")
    case True
    then have "upd_disk (\<lambda>gd. gd\<lparr>gd_added := False\<rparr>) ?d = Some d'"
      using assms by (simp add: ubbd_dev_remove_disk_def ubbd_dev_remove_queues_def l bind_eq_Some_conv)
    then show ?thesis using r upd_disk_refs by (fastforce simp: same_refs_def)
  next
    case False
    then have "d' = ?d" using assms by (simp add: ubbd_dev_remove_disk_def ubbd_dev_remove_queues_def l bind_eq_Some_conv)
    then show ?thesis using r by simp
  qed
qed

lemma timeout_refs: "ubbd_timeout C req d km = Some (r, d', km') \<Longrightarrow> same_refs d d'"
  by (auto simp: ubbd_timeout_def bind_eq_Some_conv same_refs_def split: if_splits dest!: remove_disk_refs)

section \<open>Adding a device\<close>

lemma take_ret_kept: "take_ret s = (r, s') \<Longrightarrow> kept s s'"
  by (auto simp: take_ret_def split: list.splits)

lemma got_kept [simp]: "kept s (got_res r s)" "kept s (s\<lparr>kring := k\<rparr>)" "kept s (s\<lparr>dfs := fs\<rparr>)" "kept s (ida_free i s)" "kept s (module_add s)"
  by (simp_all add: got_res_def ida_free_def module_add_def)

lemma alloc_kept: "alloc_res r s = (ok, s') \<Longrightarrow> kept s s'"
  by (auto simp: alloc_res_def got_res_def take_ret_def Let_def split: list.splits if_splits)

lemma sb_init_kept: "ubbd_queue_sb_init C q s = (ret, q', s') \<Longrightarrow> kept s s'"
  by (auto simp: ubbd_queue_sb_init_def Let_def dest!: alloc_kept split: prod.splits if_splits)

lemma kring_init_kept:
  assumes "queue_kring_init did q s = Some (ret, q', s')"
  shows "kept s s'"
proof -
  obtain ok s1 r2 s2 r3 s3 r4 s4 r5 s5 where t: "alloc_res R_name s = (ok, s1)" "take_ret s1 = (r2, s2)" "take_ret s2 = (r3, s3)"
      "take_ret s3 = (r4, s4)" "take_ret s4 = (r5, s5)" by (metis surj_pair)
  then obtain ks where "s' = s5\<lparr>kring := ks\<rparr>" using assms by (auto simp: queue_kring_init_def bind_eq_Some_conv)
  then show ?thesis using alloc_kept [OF t(1)] take_ret_kept [OF t(2)] take_ret_kept [OF t(3)] take_ret_kept [OF t(4)] take_ret_kept [OF t(5)]
    by simp
qed

lemma queue_create_kept:
  assumes "ubbd_queue_create C did pages q s = Some (ret, q', s')"
  shows "kept s s'"
proof -
  obtain ok s1 where 1: "alloc_res R_bitmap s = (ok, s1)" by fastforce
  define q2 where "q2 = q\<lparr>dq_core := (dq_core q)\<lparr>data_pages := pages, data_pages_reserved := pages * UBBD_KRING_DATA_RESERVE_PERCENT div 100,
    data_pages_array := Map.empty\<rparr>\<rparr>"
  obtain r q3 s2 where 2: "ubbd_queue_sb_init C (q2\<lparr>dq_bitmap := True, dq_core := (dq_core q2)\<lparr>data_bitmap := replicate (unat pages) False\<rparr>\<rparr>) s1 = (r, q3, s2)"
    by (metis surj_pair)
  have e: "ubbd_queue_create C did pages q s = (if \<not> ok then Some (- ENOMEM, q2, s1) else if r \<noteq> 0 then Some (r, q3, s2)
     else do { (ret, q4, s3) \<leftarrow> queue_kring_init did q3 s2;
         if ret \<noteq> 0 then Some (ret, q4, s3)
         else Some (0, q4\<lparr>dq_core := (dq_core q4)\<lparr>inflight_reqs := [], q_req_tid := 0,
                 q_status := UBBD_QUEUE_KSTATUS_RUNNING\<rparr>, dq_cpumask := []\<rparr>, s3) })"
    unfolding ubbd_queue_create_def Let_def 1 2 [unfolded q2_def] prod.case q2_def ..
  consider "s' = s1" | "s' = s2" | r2 q4 where "queue_kring_init did q3 s2 = Some (r2, q4, s')"
    using assms unfolding e by (auto simp: bind_eq_Some_conv split: if_splits)
  then show ?thesis using alloc_kept [OF 1] sb_init_kept [OF 2] by cases (auto dest!: kring_init_kept)
qed

lemma create_loop_kept: "create_queues_loop C did pages is qs s = Some (ret, qs', s') \<Longrightarrow> kept s s'"
  by (induction "is" arbitrary: qs s) (auto simp: bind_eq_Some_conv dest!: queue_create_kept split: if_splits)

lemma destroy_queues_kept: "ubbd_dev_destroy_queues d s = Some s' \<Longrightarrow> kept s s'"
  by (auto simp: ubbd_dev_destroy_queues_def bind_eq_Some_conv dest!: free_res_view destroy_loop_view)

lemma create_queues_kept:
  "ubbd_dev_create_queues C n pages pd d s = Some (ret, d', s') \<Longrightarrow> kept s s' \<and> kref d' = kref d \<and> open_count d' = open_count d"
  by (auto simp: ubbd_dev_create_queues_def Let_def bind_eq_Some_conv dest!: alloc_kept create_loop_kept destroy_queues_kept
      split: prod.splits if_splits)

lemma ida_alloc_kept: "ida_alloc s = (i, s') \<Longrightarrow> kept s s'"
  by (auto simp: ida_alloc_def Let_def dest!: take_ret_kept split: prod.splits if_splits option.splits)

lemma create_kept:
  assumes "ubbd_dev_create C pd opts s = Some (r, s')"
  shows "kept s s' \<and> (\<forall>d. r = Some d \<longrightarrow> kref d = 1 \<and> open_count d = 0)"
proof -
  obtain ok s1 where 1: "alloc_res R_device s = (ok, s1)" by fastforce
  obtain i s2 where 2: "ida_alloc s1 = (i, s2)" by fastforce
  note k12 = alloc_kept [OF 1] ida_alloc_kept [OF 2]
  show ?thesis
  proof (cases "ok \<and> i \<noteq> None")
    case False
    then show ?thesis using assms 1 2 k12
      by (auto simp: ubbd_dev_create_def dev_create0_def dev_free0_def bind_eq_Some_conv Let_def dest!: free_res_view split: if_splits option.splits)
  next
    case True
    then obtain id where i: "ok" "i = Some id" by blast
    let ?d1 = "zero_device\<lparr>dv_status := UBBD_DEV_KSTATUS_INIT, kref := 1, dev_id := id, dv_name := ''ubbd'' @ dec id\<rparr>"
    obtain ret d2 s3 where q: "ubbd_dev_create_queues C (ao_num_queues opts) (ao_data_pages opts) pd ?d1 s2 = Some (ret, d2, s3)"
      using assms 1 2 i by (auto simp: ubbd_dev_create_def dev_create0_def bind_eq_Some_conv Let_def)
    note q1 = create_queues_kept [OF q]
    obtain ok4 s4 where 4: "alloc_res R_task_wq s3 = (ok4, s4)" by fastforce
    show ?thesis
    proof (cases "ret \<noteq> 0 \<or> \<not> ok4")
      case True
      then show ?thesis using assms 1 2 i q 4 k12 q1 alloc_kept [OF 4]
        by (auto simp: ubbd_dev_create_def dev_create0_def dev_free0_def ida_free_def bind_eq_Some_conv Let_def zero_device_def
            dest!: free_res_view destroy_queues_kept split: if_splits)
    next
      case False
      then show ?thesis using assms 1 2 i q 4 k12 q1 alloc_kept [OF 4]
        by (auto simp: ubbd_dev_create_def dev_create0_def module_add_def bind_eq_Some_conv Let_def zero_device_def split: prod.splits)
    qed
  qed
qed

lemma ready_refs: "disk_ready C d s = Some d' \<Longrightarrow> kref d' = kref d \<and> open_count d' = open_count d \<and> disk d' \<noteq> None"
  by (auto simp: disk_ready_def bind_eq_Some_conv)

lemma init_disk_kept:
  assumes "ubbd_init_disk C d s = Some (ret, d', s')"
  shows "kept s s' \<and> kref d' = kref d \<and> open_count d' = open_count d"
  using assms
  by (auto simp: ubbd_init_disk_def init_disk_alloc_def init_disk_mq_def got_res_def bind_eq_Some_conv Let_def
      dest!: alloc_kept take_ret_kept free_res_view ready_refs split: if_splits prod.splits)

lemma setup_kept:
  assumes "ubbd_dev_device_setup C d s = Some (ret, d', s')"
  shows "kept s s' \<and> kref d' = kref d \<and> open_count d' = open_count d \<and> (ret = 0 \<longrightarrow> disk d' \<noteq> None)"
proof -
  let ?d1 = "d\<lparr>dv_major := ubbd_major s, dv_minor := ubbd_dev_id_to_minor (int (dev_id d))\<rparr>"
  obtain r d2 s1 where 1: "ubbd_init_disk C ?d1 s = Some (r, d2, s1)"
    using assms by (auto simp: ubbd_dev_device_setup_def bind_eq_Some_conv Let_def)
  note k = init_disk_kept [OF 1]
  obtain r2 s2 where 2: "take_ret s1 = (r2, s2)" by fastforce
  show ?thesis using assms 1 2 k take_ret_kept [OF 2]
    by (cases "r = 0"; cases "uc_kernel_6_8 C"; cases "r2 = 0")
      (auto simp: ubbd_dev_device_setup_def upd_disk_def bind_eq_Some_conv Let_def)
qed

lemma drv_new:
  assumes "drv_inv (s, h)" and "devices s' = (devices s)(dev_next s \<mapsto> d)" and "ubbd_dev_list s' = ubbd_dev_list s @ [dev_next s]"
    and "ubbd_wq s' = ubbd_wq s" and "dev_next s' = dev_next s + 1" and "kref d = 1" and "open_count d = 0" and "disk d \<noteq> None"
  shows "drv_inv (s', h)"
proof -
  let ?k = "dev_next s"
  have new: "devices s ?k = None" "refs_inv ?k (s, h ?k)" using assms(1) by (auto simp: drv_inv_def)
  then have n: "h ?k = 0" "?k \<notin> set (ubbd_dev_list s)" "?k \<notin> set (ubbd_wq s)" "distinct (ubbd_dev_list s)"
    by (auto simp: refs_inv_def refs_view_def)
  have "refs_inv j (s', h j)" for j
  proof (cases "j = ?k")
    case True
    then show ?thesis using assms n by (auto simp: refs_inv_def refs_view_def count_list_0_iff)
  next
    case False
    have "refs_inv j (s, h j)" using assms(1) by (simp add: drv_inv_def)
    then show ?thesis using False assms(2-4) n by (cases "devices s j") (auto simp: refs_inv_def refs_view_def)
  qed
  moreover have "devices s' j = None" if "dev_next s' \<le> j" for j using that assms(1,2,5) by (auto simp: drv_inv_def)
  ultimately show ?thesis by (simp add: drv_inv_def)
qed

lemma drv_add_dev:
  assumes "drv_inv (s, h)" and "ubbd_dev_add_dev C pd opts s = Some (ret, key, s')"
  shows "drv_inv (s', h)"
proof -
  obtain r s1 where c: "ubbd_dev_create C pd opts s = Some (r, s1)" using assms(2) by (auto simp: ubbd_dev_add_dev_def bind_eq_Some_conv)
  note k1 = create_kept [OF c]
  show ?thesis
  proof (cases r)
    case None
    then show ?thesis using assms c k1 drv_kept by (simp add: ubbd_dev_add_dev_def)
  next
    case (Some d)
    let ?k = "dev_next s"
    let ?d1 = "d\<lparr>dev_size := ao_device_size opts, dev_features := ao_dev_features opts, io_timeout := ao_io_timeout opts\<rparr>"
    obtain r2 d2 s2 where u: "ubbd_dev_device_setup C ?d1 (s1\<lparr>dev_next := ?k + 1\<rparr>) = Some (r2, d2, s2)"
      using assms(2) c Some k1 by (auto simp: ubbd_dev_add_dev_def bind_eq_Some_conv Let_def)
    have k2: "devices s2 = devices s" "ubbd_dev_list s2 = ubbd_dev_list s" "ubbd_wq s2 = ubbd_wq s" "dev_next s2 = ?k + 1"
        "kref d2 = 1" "open_count d2 = 0" "r2 = 0 \<longrightarrow> disk d2 \<noteq> None"
      using setup_kept [OF u] k1 Some by auto
    have none: "devices s ?k = None" using assms(1) by (simp add: drv_inv_def)
    show ?thesis
    proof (cases "r2 = 0")
      case True
      then have "s' = s2\<lparr>devices := (devices s2)(?k \<mapsto> d2\<lparr>dv_status := UBBD_DEV_KSTATUS_PREPARED\<rparr>),
          ubbd_total_devs := ubbd_total_devs s2 + 1, ubbd_dev_list := ubbd_dev_list s2 @ [?k]\<rparr>"
        using assms(2) c Some u k1 by (simp add: ubbd_dev_add_dev_def upd_dev_def Let_def)
      then show ?thesis using True k2 by (intro drv_new [OF assms(1), of s' "d2\<lparr>dv_status := UBBD_DEV_KSTATUS_PREPARED\<rparr>"]) simp_all
    next
      case False
      then have "ubbd_dev_destroy d2 (s2\<lparr>devices := (devices s2)(?k := None)\<rparr>) = Some s'"
        using assms(2) c Some u k1 k2 by (auto simp: ubbd_dev_add_dev_def ubbd_dev_put_def bind_eq_Some_conv)
      from destroy_view [OF this] have "devices s' = devices s" "ubbd_dev_list s' = ubbd_dev_list s" "ubbd_wq s' = ubbd_wq s" "dev_next s' = ?k + 1"
        using k2 none by (simp_all add: fun_upd_idem)
      then show ?thesis using assms(1) by (simp add: drv_inv_def refs_inv_def refs_view_def)
    qed
  qed
qed

section \<open>Every command keeps the accounts\<close>

text \<open>A command takes a reference of the device it names and drops it at its end.\<close>

lemma drv_found:
  assumes "find_ubbd_dev did s = Some (dev, s1)" and "drv_inv (s, h)"
  obtains (none) "dev = None" "s1 = s" | (some) k where "dev = Some k" "drv_inv (s1, h(k := h k + 1))"
  using assms drv_get by (auto simp: find_ubbd_dev_def bind_eq_Some_conv split: option.splits)

lemma drv_bracket:
  assumes "find_ubbd_dev did s = Some (Some k, s1)" and "drv_inv (s, h)"
    and "drv_inv (s1, h(k := h k + 1)) \<Longrightarrow> drv_inv (s2, h(k := h k + 1))" and "ubbd_dev_put k s2 = Some s3"
  shows "drv_inv (s3, h)"
proof -
  have "drv_inv (s1, h(k := h k + 1))" using assms(1,2) by (cases rule: drv_found) auto
  then show ?thesis using drv_put [OF assms(3,4)] by simp
qed

lemma drv_missed: "find_ubbd_dev did s = Some (None, s1) \<Longrightarrow> s1 = s"
  by (auto simp: find_ubbd_dev_def bind_eq_Some_conv split: option.splits)

lemma drv_queue_work:
  assumes "ubbd_dev_add_disk k s = Some (ret, s')" and "drv_inv (s, h(k := n + 1))"
  shows "drv_inv (s', h(k := n + 1))"
  using drv_dev_step [OF assms(2), of undefined k s' "n + 1"] dev_step.dev_queue_work [OF assms(1), of undefined n] by simp

lemma drv_remove:
  assumes "ubbd_dev_remove_dev C k s = Some (ret, s')" and "drv_inv (s, h)"
  shows "drv_inv (s', h)"
proof -
  have "refs_inv k (s', h k)" using assms(2) by (intro remove_inv [OF assms(1)]) (simp add: drv_inv_def)
  moreover note f = remove_dev_frame [OF assms(1)]
  moreover have "devices s' j = None" if "dev_next s' \<le> j" for j
    using that f assms(2) by (cases "j = k") (auto simp: drv_inv_def frame_def)
  ultimately show ?thesis using assms(2) frame_refs [OF f] by (auto simp: drv_inv_def) metis
qed

text \<open>The common shape of the handlers: nothing for an unknown id, otherwise an operation that keeps the
  accounts, between the two references.\<close>

definition balanced :: "nat \<Rightarrow> ubbd_sys \<Rightarrow> ubbd_sys \<Rightarrow> bool" where
  "balanced k s1 s' \<longleftrightarrow> (\<exists>s2. (\<forall>h n. drv_inv (s1, h(k := n + 1)) \<longrightarrow> drv_inv (s2, h(k := n + 1))) \<and> ubbd_dev_put k s2 = Some s')"

lemma drv_handler:
  assumes "find_ubbd_dev did s = Some (dev, s1)" and "drv_inv (s, h)"
    and "dev = None \<Longrightarrow> s' = s1" and "\<And>k. dev = Some k \<Longrightarrow> balanced k s1 s'"
  shows "drv_inv (s', h)"
proof (cases dev)
  case None
  then show ?thesis using assms(1-3) drv_missed by auto
next
  case (Some k)
  then obtain s2 where "\<forall>h n. drv_inv (s1, h(k := n + 1)) \<longrightarrow> drv_inv (s2, h(k := n + 1))" "ubbd_dev_put k s2 = Some s'"
    using assms(4) by (auto simp: balanced_def)
  then show ?thesis using drv_bracket [of did s k s1 h s2 s'] assms(1,2) Some by blast
qed

lemma balanced_nothing: "ubbd_dev_put k s1 = Some s' \<Longrightarrow> balanced k s1 s'"
  by (auto simp: balanced_def)

lemma balanced_work: "ubbd_dev_add_disk k s1 = Some (ret, s2) \<Longrightarrow> ubbd_dev_put k s2 = Some s' \<Longrightarrow> balanced k s1 s'"
  using drv_queue_work unfolding balanced_def by blast

lemma balanced_remove: "ubbd_dev_remove_dev C k s1 = Some (ret, s2) \<Longrightarrow> ubbd_dev_put k s2 = Some s' \<Longrightarrow> balanced k s1 s'"
  using drv_remove unfolding balanced_def by blast

lemma balanced_on_dev:
  assumes "on_dev k f s1 = Some (r, s2)" and "\<And>d km r d' km'. f d km = Some (r, d', km') \<Longrightarrow> same_refs d d'" and "ubbd_dev_put k s2 = Some s'"
  shows "balanced k s1 s'"
proof -
  have "drv_inv (s2, h)" if "drv_inv (s1, h)" for h using on_dev_quiet [of k f s1 r s2 h] assms(1,2) that by blast
  then show ?thesis using assms(3) by (auto simp: balanced_def)
qed

lemmas balanced_intros = balanced_nothing balanced_work balanced_remove balanced_on_dev

lemma drv_cmd_add_disk:
  assumes "handle_cmd_add_disk info s = Some (ret, s')" and "drv_inv (s, h)"
  shows "drv_inv (s', h)"
proof -
  obtain did dev s1 where f: "find_ubbd_dev did s = Some (dev, s1)" "attr_dev_id info = Some did"
    using assms(1) by (auto simp: handle_cmd_add_disk_def bind_eq_Some_conv)
  then show ?thesis using assms(1)
    by (intro drv_handler [OF f(1) assms(2)]) (auto simp: handle_cmd_add_disk_def bind_eq_Some_conv intro: balanced_work)
qed

lemma drv_cmd_remove_dev:
  assumes "handle_cmd_remove_dev N info s = Some (ret, s')" and "drv_inv (s, h)"
  shows "drv_inv (s', h)"
proof -
  obtain did dev s1 where f: "find_ubbd_dev did s = Some (dev, s1)" "attr_dev_id info = Some did"
    using assms(1) by (auto simp: handle_cmd_remove_dev_def bind_eq_Some_conv)
  then show ?thesis using assms(1)
    by (intro drv_handler [OF f(1) assms(2)]) (auto simp: handle_cmd_remove_dev_def bind_eq_Some_conv intro: balanced_remove)
qed

lemma drv_cmd_remove_disk:
  assumes "handle_cmd_remove_disk N info s = Some (ret, s')" and "drv_inv (s, h)"
  shows "drv_inv (s', h)"
proof -
  obtain did flags dev s1 where f: "find_ubbd_dev did s = Some (dev, s1)" "attr_dev_id info = Some did" "attr_flags info = Some flags"
    using assms(1) by (auto simp: handle_cmd_remove_disk_def bind_eq_Some_conv)
  have "balanced k s1 s'" if "dev = Some k" for k
    using assms(1) f that remove_disk_refs
    by (auto simp: handle_cmd_remove_disk_def bind_eq_Some_conv Let_def split: if_splits intro: balanced_nothing elim!: balanced_on_dev)
  then show ?thesis using assms(1) f by (intro drv_handler [OF f(1) assms(2)]) (auto simp: handle_cmd_remove_disk_def)
qed

lemma drv_cmd_config:
  assumes "handle_cmd_config info s = Some (ret, s')" and "drv_inv (s, h)"
  shows "drv_inv (s', h)"
proof (cases "attr_dev_id info = None \<or> attr_dev_opts info = None")
  case True
  then show ?thesis using assms by (auto simp: handle_cmd_config_def split: option.splits)
next
  case False
  then obtain did opts dev s1 where f: "find_ubbd_dev did s = Some (dev, s1)" "attr_dev_id info = Some did" "attr_dev_opts info = Some opts"
    using assms(1) by (auto simp: handle_cmd_config_def bind_eq_Some_conv)
  have "balanced k s1 s'" if "dev = Some k" for k
    using assms(1) f that config_refs
    by (auto simp: handle_cmd_config_def bind_eq_Some_conv split: sum.splits if_splits intro: balanced_nothing elim!: balanced_on_dev)
  then show ?thesis using assms(1) f by (intro drv_handler [OF f(1) assms(2)]) (auto simp: handle_cmd_config_def)
qed

lemma drv_cmd_queue_op:
  assumes "handle_cmd_queue_op N info s = Some (ret, s')" and "drv_inv (s, h)"
  shows "drv_inv (s', h)"
proof (cases "attr_dev_id info = None \<or> attr_queue_id info = None \<or> attr_flags info = None")
  case True
  then show ?thesis using assms by (auto simp: handle_cmd_queue_op_def split: option.splits)
next
  case False
  then obtain did i flags dev s1 where f: "find_ubbd_dev did s = Some (dev, s1)" "attr_dev_id info = Some did" "attr_queue_id info = Some i"
      "attr_flags info = Some flags"
    using assms(1) by (auto simp: handle_cmd_queue_op_def bind_eq_Some_conv)
  have "balanced k s1 s'" if "dev = Some k" for k
    using assms(1) f that stop_refs start_refs
    by (auto simp: handle_cmd_queue_op_def bind_eq_Some_conv split: if_splits prod.splits intro: balanced_nothing elim!: balanced_on_dev)
  then show ?thesis using assms(1) f by (intro drv_handler [OF f(1) assms(2)]) (auto simp: handle_cmd_queue_op_def)
qed

lemma take_ret_snd [simp]:
  "devices (snd (take_ret s)) = devices s" "ubbd_dev_list (snd (take_ret s)) = ubbd_dev_list s" "ubbd_wq (snd (take_ret s)) = ubbd_wq s"
  "dev_next (snd (take_ret s)) = dev_next s"
  by (simp_all add: take_ret_def split: list.split)

lemmas reply_defs = genlmsg_new_def genlmsg_put_reply_def genlmsg_reply_def case_prod_beta Let_def bind_eq_Some_conv

lemma send_reply_kept: "send_reply n fill s = Some (ret, reply, s') \<Longrightarrow> kept s s'"
  by (auto simp: send_reply_def reply_defs split: if_splits)

lemma reply_add_dev_kept: "ubbd_nl_reply_add_dev_done N k s = Some (ret, reply, s') \<Longrightarrow> kept s s'"
  by (auto simp: ubbd_nl_reply_add_dev_done_def reply_defs split: if_splits)

lemma drv_cmd_status:
  assumes "handle_cmd_status N info s = Some (ret, reply, s')" and "drv_inv (s, h)"
  shows "drv_inv (s', h)"
proof (cases "attr_dev_id info")
  case None
  then show ?thesis using assms by (simp add: handle_cmd_status_def)
next
  case (Some did)
  then obtain dev s1 where f: "find_ubbd_dev did s = Some (dev, s1)" using assms(1) by (auto simp: handle_cmd_status_def bind_eq_Some_conv)
  have "balanced k s1 s'" if d: "dev = Some k" for k
  proof -
    obtain n fill r rep s2 where "send_reply n fill s1 = Some (r, rep, s2)" "ubbd_dev_put k s2 = Some s'"
      using assms(1) f Some d by (auto simp: handle_cmd_status_def bind_eq_Some_conv Let_def)
    then show ?thesis using drv_kept [OF _ send_reply_kept] unfolding balanced_def by blast
  qed
  then show ?thesis using assms(1) f Some by (intro drv_handler [OF f assms(2)]) (auto simp: handle_cmd_status_def)
qed

lemma drv_cmd_add_dev:
  assumes "handle_cmd_add_dev N pd info s = Some (ret, reply, s')" and "drv_inv (s, h)"
  shows "drv_inv (s', h)"
proof -
  consider "s' = s" | opts r key s1 where "ubbd_dev_add_dev (nl_base N) pd opts s = Some (r, key, s1)"
      "case key of None \<Rightarrow> s' = s1
       | Some k \<Rightarrow> \<exists>r reply s2. ubbd_nl_reply_add_dev_done N k s1 = Some (r, reply, s2) \<and>
           (if r = 0 then s' = s2 else \<exists>r3. ubbd_dev_remove_dev (nl_base N) k s2 = Some (r3, s'))"
    using assms(1) by (fastforce simp: handle_cmd_add_dev_def bind_eq_Some_conv split: option.splits sum.splits if_splits)
  then show ?thesis
  proof cases
    case (2 opts r key s1)
    then have "drv_inv (s1, h)" using drv_add_dev assms(2) by blast
    moreover have "drv_inv (s2, h)" if "ubbd_nl_reply_add_dev_done N k s1 = Some (r, reply, s2)" for k r reply s2
      using drv_kept [OF calculation reply_add_dev_kept [OF that]] .
    ultimately show ?thesis using 2(2) drv_remove by (fastforce split: option.splits if_splits)
  qed (use assms(2) in simp)
qed

lemma drv_cmd_doit:
  assumes "op_doit (ubbd_genl_ops N pd cmd) info s = Some (ret, reply, s')" and "drv_inv (s, h)"
  shows "drv_inv (s', h)"
proof (cases cmd)
  case UBBD_CMD_LIST
  then show ?thesis using assms drv_kept [OF _ send_reply_kept] by (auto simp: handle_cmd_list_def Let_def)
qed (use assms in \<open>auto simp: no_reply_def intro: drv_cmd_add_dev drv_cmd_add_disk drv_cmd_remove_disk drv_cmd_remove_dev
    drv_cmd_status drv_cmd_config drv_cmd_queue_op\<close>)

interpretation driver: step_invariant drv_init "drv_step N pd" drv_inv for N pd
proof
  fix c assume "drv_init c"
  then show "drv_inv c" by (auto simp: drv_init_def drv_inv_def refs_inv_def refs_view_def)
next
  fix c c' assume inv: "drv_inv c"
  assume "drv_step N pd c c'"
  then show "drv_inv c'"
  proof (cases rule: drv_step.cases)
    case (drv_cmd cap cmd info s ret reply s' h)
    then show ?thesis using inv drv_cmd_doit by (auto simp: genl_rcv_def Let_def split: if_splits)
  next
    case (drv_dev k s h s' n) then show ?thesis using inv drv_dev_step by simp
  next
    case (drv_timeout k req s ret s' h) then show ?thesis using inv on_dev_quiet [of k "ubbd_timeout (nl_base N) req" s ret s' h] timeout_refs by blast
  qed
qed

section \<open>Properties\<close>

text \<open>C7: Along every run of the driver from the loaded module, with netlink commands (valid or not,
  allowed or not), opens and closes of disks and debugfs files, mappings, timeouts and work
  items in any order: a device that is gone is not listed, not queued and held by nobody; of a device
  that exists, the count is positive and is exactly the sum of its holders, and it has its disk
  as long as it is listed.\<close>

theorem every_reference_accounted:
  assumes "reach drv_init (drv_step N pd) (s, h)"
  shows "distinct (ubbd_dev_list s) \<and>
    (case devices s k of
       None \<Rightarrow> h k = 0 \<and> k \<notin> set (ubbd_dev_list s) \<and> k \<notin> set (ubbd_wq s)
     | Some d \<Rightarrow> 0 < kref d \<and> (disk d \<noteq> None \<longleftrightarrow> k \<in> set (ubbd_dev_list s)) \<and>
         kref d = of_bool (k \<in> set (ubbd_dev_list s)) + open_count d + count_list (ubbd_wq s) k + h k)"
proof -
  have "refs_inv k (s, h k)" using driver.reach_inv [OF assms] by (simp add: drv_inv_def)
  then show ?thesis by (cases "devices s k") (auto simp: refs_inv_def refs_view_def)
qed

text \<open>The module was loaded, a device was added by command and its disk opened once.\<close>

definition opts1 :: ubbd_dev_add_opts where "opts1 = opts0\<lparr>ao_io_timeout := UINT_MAX\<rparr>"

lemma opts1_ok: "opts_ok (C0 k) opts1"
  by (simp add: opts_ok_def opts1_def opts0_def C0_def)

lemma add_dev1: "\<exists>s1. ubbd_dev_add_dev (C0 False) pd opts1 (usys0 []) = Some (0, Some 0, s1) \<and> rets s1 = []"
  by (simp add: ubbd_dev_add_dev_def create_defs setup_defs usys0_def opts1_def opts0_def C0_def Let_def split: prod.split)

lemma cmd_add_dev1:
  "\<exists>reply s d. genl_rcv N0 pd True UBBD_CMD_ADD_DEV info1 (usys0 []) = Some (0, reply, s) \<and> devices s 0 = Some d \<and> kref d = 1 \<and> open_count d = 0"
proof -
  obtain s1 where 1: "ubbd_dev_add_dev (C0 False) pd opts1 (usys0 []) = Some (0, Some 0, s1)" "rets s1 = []" using add_dev1 by blast
  obtain d where d: "devices s1 0 = Some d" "prepared (C0 False) (usys0 []) opts1 d" "dev_held (with_disk (with_dev (usys0 []) d)) d s1"
    using add_dev_held [OF usys0_ok [of "[]"] opts1_ok [of False], of pd] 1(1) by auto
  have "\<forall>q \<in> set (queues d). kring_minor s1 q \<noteq> None"
    using held_minor [of _ "queues d" s1] d(3) prepared_has_krings [OF d(2)] by (auto simp: dev_held_def)
  from reply_add_dev_ok [OF d(1) this, of N0] 1(2) obtain reply s2 where
    2: "ubbd_nl_reply_add_dev_done N0 0 s1 = Some (0, reply, s2)" "s2 = s1\<lparr>rets := rets s2\<rparr>" by auto
  have "add_opts_of N0 2 1048576 \<lparr>opt_dp_reserve = None, opt_dev_size = Some 1048576, opt_data_pages = Some 4, opt_dev_queues = Some 1,
      opt_io_timeout = None\<rparr> = opts1" "nl_base N0 = C0 False"
    by (simp_all add: add_opts_of_def opts1_def opts0_def N0_def)
  then have "genl_rcv N0 pd True UBBD_CMD_ADD_DEV info1 (usys0 []) = Some (0, reply, s2)"
    using 1(1) 2(1) by (simp add: genl_rcv_def handle_cmd_add_dev_def info1_def)
  moreover have "devices s2 0 = Some d" by (subst 2(2)) (simp add: d(1))
  ultimately show ?thesis using d(2) by (auto simp: prepared_def)
qed

theorem every_reference_accounted_witness:
  "\<exists>s d. reach drv_init (drv_step N0 (\<lambda>_. ur0)) (s, \<lambda>_. 0) \<and> devices s 0 = Some d \<and> open_count d = 1 \<and>
     kref d = of_bool (0 \<in> set (ubbd_dev_list s)) + open_count d + count_list (ubbd_wq s) 0 + 0"
proof -
  obtain reply s d where c: "genl_rcv N0 (\<lambda>_. ur0) True UBBD_CMD_ADD_DEV info1 (usys0 []) = Some (0, reply, s)" "devices s 0 = Some d" "open_count d = 0"
    using cmd_add_dev1 by blast
  obtain ret s' where o: "ubbd_open 0 s = Some (ret, s')" "devices s' 0 = Some (d\<lparr>kref := kref d + 1, open_count := 1\<rparr>)"
    using c(2,3) by (auto simp: ubbd_open_def ubbd_dev_get_def upd_dev_def)
  have "reach drv_init (drv_step N0 (\<lambda>_. ur0)) (usys0 [], \<lambda>_. 0)" by (rule reach_init) (simp add: drv_init_def usys0_def)
  then have "reach drv_init (drv_step N0 (\<lambda>_. ur0)) (s, \<lambda>_. 0)" by (rule reach_step) (rule drv_cmd [OF c(1)])
  then have "reach drv_init (drv_step N0 (\<lambda>_. ur0)) (s', (\<lambda>_. 0)(0 := 0))" by (rule reach_step) (rule drv_dev, rule dev_open [OF o(1)])
  then have r: "reach drv_init (drv_step N0 (\<lambda>_. ur0)) (s', \<lambda>_. 0)" by (simp add: fun_upd_idem)
  show ?thesis using every_reference_accounted [OF r, of 0] r o(2) by (intro exI [of _ s'] exI [of _ "d\<lparr>kref := kref d + 1, open_count := 1\<rparr>"]) simp
qed

end
