(* ===== verification/Module.thy ===== *)
theory Module
  imports Driver
begin

text \<open>
  Loading and unloading the module (\<open>__ubbd_init\<close>, \<open>__ubbd_exit\<close> of \<open>src/ubbd_internal.h\<close> and
  \<open>src/ubbd_main.c\<close>): what is registered with the kernel, in which order, and how a failure
  unwinds.
\<close>

section \<open>Init and exit\<close>

text \<open>The state of the driver and what it has registered: its work queues, block majors, the netlink
  family and the root device of the krings.\<close>

record module_sys =
  m_drv :: ubbd_sys
  m_wqs :: nat                         \<comment> \<open>live work queues\<close>
  m_blkdevs :: "int set"               \<comment> \<open>registered majors\<close>
  m_genl :: bool
  m_root :: bool

text \<open>What the kernel answers to the calls of \<open>__ubbd_init\<close>, in their order.\<close>

record init_rets =
  ir_wq :: bool
  ir_blkdev :: int
  ir_genl :: int
  ir_region :: int
  ir_cdev :: bool
  ir_add :: int
  ir_class :: int
  ir_root :: int

definition on_drv :: "(ubbd_sys \<Rightarrow> ubbd_sys) \<Rightarrow> module_sys \<Rightarrow> module_sys" where
  "on_drv f m = m\<lparr>m_drv := f (m_drv m)\<rparr>"

definition destroy_workqueue :: "module_sys \<Rightarrow> module_sys" where
  "destroy_workqueue m = m\<lparr>m_wqs := m_wqs m - 1\<rparr>"

definition unregister_blkdev :: "module_sys \<Rightarrow> module_sys" where
  "unregister_blkdev m = m\<lparr>m_blkdevs := m_blkdevs m - {ubbd_major (m_drv m)}\<rparr>"

definition genl_unregister_family :: "module_sys \<Rightarrow> module_sys" where
  "genl_unregister_family m = m\<lparr>m_genl := False\<rparr>"

definition kring_exit :: "module_sys \<Rightarrow> module_sys" where
  "kring_exit = on_drv (\<lambda>s. s\<lparr>kring := ubbd_kring_exit (kring s)\<rparr>)"

text \<open>The labels of the error path, each falling through to the next.\<close>

definition err_out_wq :: "int \<Rightarrow> module_sys \<Rightarrow> int \<times> module_sys" where
  "err_out_wq rc m = (rc, destroy_workqueue m)"

definition err_out_blkdev :: "int \<Rightarrow> module_sys \<Rightarrow> int \<times> module_sys" where
  "err_out_blkdev rc m = err_out_wq rc (unregister_blkdev m)"

definition err_out_genl :: "int \<Rightarrow> module_sys \<Rightarrow> int \<times> module_sys" where
  "err_out_genl rc m = err_out_blkdev rc (genl_unregister_family m)"

definition err_exit_kring :: "int \<Rightarrow> module_sys \<Rightarrow> int \<times> module_sys" where
  "err_exit_kring rc m = err_out_genl rc (kring_exit m)"

definition ubbd_init0 :: "init_rets \<Rightarrow> module_sys \<Rightarrow> int \<times> module_sys" where
  "ubbd_init0 r m =
     (if \<not> ir_wq r then (- ENOMEM, m)
      else
        let m1 = m\<lparr>m_wqs := m_wqs m + 1\<rparr>;
            m2 = on_drv (\<lambda>s. s\<lparr>ubbd_major := ir_blkdev r\<rparr>) m1
        in
        if ubbd_major (m_drv m2) < 0 then err_out_wq (ubbd_major (m_drv m2)) m2
        else
          let m3 = m2\<lparr>m_blkdevs := insert (ubbd_major (m_drv m2)) (m_blkdevs m2)\<rparr> in
          if ir_genl r < 0 then err_out_blkdev (ir_genl r) m3
          else
            let m4 = m3\<lparr>m_genl := True\<rparr>;
                (rc, ks) = ubbd_kring_init (ir_region r) (ir_cdev r) (ir_add r) (ir_class r) (kring (m_drv m4));
                m5 = on_drv (\<lambda>s. s\<lparr>kring := ks\<rparr>) m4
            in
            if rc < 0 then err_out_genl rc m5
            else if ir_root r < 0 then err_exit_kring (ir_root r) m5
            else
              let m6 = m5\<lparr>m_root := True\<rparr> in
              (0, on_drv (\<lambda>s. s\<lparr>dfs := ubbd_debugfs_init (dfs s)\<rparr>) m6))"

definition ubbd_exit0 :: "module_sys \<Rightarrow> module_sys" where
  "ubbd_exit0 m =
     (let m1 = on_drv (\<lambda>s. s\<lparr>dfs := ubbd_debugfs_cleanup (dfs s)\<rparr>) m;
          m2 = on_drv (\<lambda>s. s\<lparr>ubbd_dev_id_ida := {}\<rparr>) m1;
          m3 = genl_unregister_family m2;
          m4 = m3\<lparr>m_root := False\<rparr>;
          m5 = unregister_blkdev m4;
          m6 = destroy_workqueue m5
      in kring_exit m6)"

text \<open>\<open>module_init\<close> and \<open>module_exit\<close>.\<close>

definition ubbd_init :: "init_rets \<Rightarrow> module_sys \<Rightarrow> int \<times> module_sys" where "ubbd_init = ubbd_init0"

definition ubbd_exit :: "module_sys \<Rightarrow> module_sys" where "ubbd_exit = ubbd_exit0"

section \<open>Loading is all or nothing\<close>

text \<open>A kernel into which the module is not loaded: nothing of it is registered, its tables are empty.\<close>

definition unloaded :: "module_sys \<Rightarrow> bool" where
  "unloaded m \<longleftrightarrow> (let s = m_drv m; k = kring s; fs = dfs s in
     \<not> m_genl m \<and> \<not> m_root m \<and> \<not> chrdev_region k \<and> \<not> class_reg k \<and> \<not> class_registered k \<and> idr k = Map.empty \<and> devs k = Map.empty \<and>
     devices s = Map.empty \<and> ubbd_dev_list s = [] \<and> ubbd_wq s = [] \<and> ubbd_dev_id_ida s = {} \<and>
     ubbd_debugfs_root fs = None \<and> ubbd_debugfs_devices fs = None \<and> (\<forall>e \<in> dfs_entries fs. \<not> prefix [''ubbd''] e))"

text \<open>The kernel answers with 0 or an error, and with a major that is free.\<close>

definition rets_ok :: "init_rets \<Rightarrow> module_sys \<Rightarrow> bool" where
  "rets_ok r m \<longleftrightarrow> ir_genl r \<le> 0 \<and> ir_region r \<le> 0 \<and> ir_add r \<le> 0 \<and> ir_class r \<le> 0 \<and> ir_root r \<le> 0 \<and> ir_blkdev r \<notin> m_blkdevs m"

lemma prefix_head: "prefix (x # xs) e \<Longrightarrow> prefix [x] e"
  by (cases e) auto

lemma debugfs_roundtrip:
  assumes "ubbd_debugfs_root fs = None" and "ubbd_debugfs_devices fs = None" and "\<forall>e \<in> dfs_entries fs. \<not> prefix [''ubbd''] e"
  shows "ubbd_debugfs_cleanup (ubbd_debugfs_init fs) = fs"
    "dfs_entries (ubbd_debugfs_init fs) = insert [''ubbd'', ''devices''] (insert [''ubbd''] (dfs_entries fs))"
    "ubbd_debugfs_devices (ubbd_debugfs_init fs) = Some [''ubbd'', ''devices'']"
proof -
  have n: "[''ubbd''] \<notin> dfs_entries fs" "[''ubbd'', ''devices''] \<notin> dfs_entries fs" using assms(3) by auto
  then have i: "ubbd_debugfs_init fs = fs\<lparr>dfs_entries := insert [''ubbd'', ''devices''] (insert [''ubbd''] (dfs_entries fs)),
      ubbd_debugfs_root := Some [''ubbd''], ubbd_debugfs_devices := Some [''ubbd'', ''devices'']\<rparr>"
    by (simp add: ubbd_debugfs_init_def debugfs_create_def Let_def)
  show "dfs_entries (ubbd_debugfs_init fs) = insert [''ubbd'', ''devices''] (insert [''ubbd''] (dfs_entries fs))"
    "ubbd_debugfs_devices (ubbd_debugfs_init fs) = Some [''ubbd'', ''devices'']" by (simp_all add: i)
  have "{e \<in> {e \<in> insert [''ubbd'', ''devices''] (insert [''ubbd''] (dfs_entries fs)). \<not> prefix [''ubbd'', ''devices''] e}. \<not> prefix [''ubbd''] e} = dfs_entries fs"
    using assms(3) by (auto dest: prefix_head)
  then show "ubbd_debugfs_cleanup (ubbd_debugfs_init fs) = fs"
    unfolding i using assms(1,2)
    by (intro debugfs.equality) (simp_all add: ubbd_debugfs_cleanup_def ubbd_debugfs_remove_def debugfs_remove_def)
qed

lemma kring_init_keeps:
  assumes "ubbd_kring_init region_ret cdev_ok add_ret class_ret k = (rc, ks)"
  shows "idr ks = idr k" "devs ks = devs k" "region_ret \<le> 0 \<Longrightarrow> add_ret \<le> 0 \<Longrightarrow> class_ret \<le> 0 \<Longrightarrow> rc \<le> 0"
  using assms
  by (auto simp: ubbd_kring_init_def init_ubbd_kring_class_def ubbd_kring_major_init_def ubbd_kring_major_cleanup_def Let_def split: if_splits)

text \<open>The driver as loading leaves it: ready for a first device.\<close>

lemma init_dfs_ok:
  assumes "ubbd_debugfs_root fs = None" and "ubbd_debugfs_devices fs = None" and "\<forall>e \<in> dfs_entries fs. \<not> prefix [''ubbd''] e"
    and "e \<in> dfs_entries (ubbd_debugfs_init fs)"
  shows "\<not> prefix ([''ubbd'', ''devices''] @ [n]) e"
proof -
  consider "e = [''ubbd'', ''devices'']" | "e = [''ubbd'']" | "\<not> prefix [''ubbd''] e"
    using assms(3,4) unfolding debugfs_roundtrip(2) [OF assms(1-3)] by blast
  then show ?thesis
  proof cases
    case 3
    then show ?thesis using prefix_head [of "''ubbd''" "[''devices'', n]" e] by auto
  qed auto
qed

lemma loaded_ok:
  assumes "unloaded m" and "devs k = Map.empty" and "idr k = Map.empty"
  shows "drv_init ((m_drv m)\<lparr>ubbd_major := j, kring := k, dfs := ubbd_debugfs_init (dfs (m_drv m))\<rparr>, \<lambda>_. 0)"
    "sys_ok ((m_drv m)\<lparr>ubbd_major := j, kring := k, dfs := ubbd_debugfs_init (dfs (m_drv m))\<rparr>)"
proof -
  let ?fs = "dfs (m_drv m)"
  have u: "devices (m_drv m) = Map.empty" "ubbd_dev_list (m_drv m) = []" "ubbd_wq (m_drv m) = []"
    and f: "ubbd_debugfs_root ?fs = None" "ubbd_debugfs_devices ?fs = None" "\<forall>e \<in> dfs_entries ?fs. \<not> prefix [''ubbd''] e"
    using assms(1) unfolding unloaded_def Let_def by blast+
  show "drv_init ((m_drv m)\<lparr>ubbd_major := j, kring := k, dfs := ubbd_debugfs_init ?fs\<rparr>, \<lambda>_. 0)" using u by (simp add: drv_init_def)
  have "dfs_ok ((m_drv m)\<lparr>ubbd_major := j, kring := k, dfs := ubbd_debugfs_init ?fs\<rparr>)"
    unfolding dfs_ok_def using debugfs_roundtrip(3) [OF f] init_dfs_ok [OF f]
    by (intro exI [of _ "[''ubbd'', ''devices'']"]) simp
  moreover have "registry_ok k" using assms(2,3) by (simp add: registry_ok_def)
  ultimately show "sys_ok ((m_drv m)\<lparr>ubbd_major := j, kring := k, dfs := ubbd_debugfs_init ?fs\<rparr>)" using u by (simp add: sys_ok_def)
qed

lemmas unwind_defs = err_out_wq_def err_out_blkdev_def err_out_genl_def err_exit_kring_def destroy_workqueue_def unregister_blkdev_def
  genl_unregister_family_def kring_exit_def on_drv_def

text \<open>C9: Loading the module is all or nothing: whichever of its registrations fails, \<open>ubbd_init\<close> returns
  the error and unregisters what it had registered before; when all succeed the driver is
  ready for its first device, and unloading it unregisters everything again. Only the variable
  that holds the major is left with its last value.\<close>

theorem module_load_roundtrip:
  assumes "unloaded m" and "rets_ok r m"
  shows "\<exists>rc m'. ubbd_init r m = (rc, m') \<and>
    (if rc = 0 then drv_init (m_drv m', \<lambda>_. 0) \<and> sys_ok (m_drv m') \<and> m_genl m' \<and> m_root m' \<and> class_registered (kring (m_drv m')) \<and>
       ubbd_exit m' = m\<lparr>m_drv := (m_drv m)\<lparr>ubbd_major := ubbd_major (m_drv m')\<rparr>\<rparr>
     else rc < 0 \<and> m' = m\<lparr>m_drv := (m_drv m)\<lparr>ubbd_major := ubbd_major (m_drv m')\<rparr>\<rparr>)"
proof -
  let ?s = "m_drv m" and ?j = "ir_blkdev r"
  note u = assms(1) [unfolded unloaded_def Let_def] and ok = assms(2) [unfolded rets_ok_def]
  have b: "m_blkdevs m - {?j} = m_blkdevs m" using ok by auto
  obtain rc ks where k: "ubbd_kring_init (ir_region r) (ir_cdev r) (ir_add r) (ir_class r) (kring ?s) = (rc, ks)" by fastforce
  have kr: "(rc \<noteq> 0 \<longrightarrow> ks = kring ?s) \<and> (rc = 0 \<longrightarrow> class_registered ks \<and> ubbd_kring_exit ks = kring ?s)"
    using u by (intro kring_init_exit_balanced [OF _ _ _ _ k]) simp_all
  have rc: "rc \<le> 0" using kring_init_keeps(3) [OF k] ok by blast
  let ?fail = "m\<lparr>m_drv := ?s\<lparr>ubbd_major := ?j\<rparr>\<rparr>"
  note defs = ubbd_init_def ubbd_init0_def unwind_defs Let_def
  consider (wq) "\<not> ir_wq r" | (blk) "ir_wq r" "?j < 0" | (genl) "ir_wq r" "0 \<le> ?j" "ir_genl r < 0"
    | (kring) "ir_wq r" "0 \<le> ?j" "0 \<le> ir_genl r" "rc < 0" | (root) "ir_wq r" "0 \<le> ?j" "0 \<le> ir_genl r" "rc = 0" "ir_root r < 0"
    | (ready) "ir_wq r" "0 \<le> ?j" "0 \<le> ir_genl r" "rc = 0" "ir_root r = 0" using rc ok by linarith
  then show ?thesis
  proof cases
    case wq
    then show ?thesis by (simp add: defs)
  next
    case blk
    then show ?thesis by (simp add: defs)
  next
    case genl
    then have "ubbd_init r m = (ir_genl r, ?fail)" using b by (simp add: defs)
    then show ?thesis using genl by simp
  next
    case kring
    then have "ubbd_init r m = (rc, ?fail)" using b k kr u by (simp add: defs)
    then show ?thesis using kring by simp
  next
    case root
    then have "ubbd_init r m = (ir_root r, ?fail)" using b k kr u by (simp add: defs)
    then show ?thesis using root by simp
  next
    case ready
    let ?s' = "?s\<lparr>ubbd_major := ?j, kring := ks, dfs := ubbd_debugfs_init (dfs ?s)\<rparr>"
    let ?m = "m\<lparr>m_drv := ?s', m_wqs := m_wqs m + 1, m_blkdevs := insert ?j (m_blkdevs m), m_genl := True, m_root := True\<rparr>"
    have "ubbd_init r m = (0, ?m)" using ready k ok by (simp add: defs)
    moreover have "drv_init (?s', \<lambda>_. 0)" "sys_ok ?s'" using loaded_ok [OF assms(1), of ks ?j] kring_init_keeps(1,2) [OF k] u by simp_all
    moreover have "ubbd_exit ?m = ?fail"
      using u b kr ready debugfs_roundtrip(1) [of "dfs ?s"] by (simp add: ubbd_exit_def ubbd_exit0_def unwind_defs Let_def)
    ultimately show ?thesis using kr ready by simp
  qed
qed

definition msys0 :: module_sys where
  "msys0 = \<lparr>m_drv = (usys0 [])\<lparr>kring := sys0\<lparr>chrdev_region := False, cdev_live := 0, class_reg := False, class_registered := False,
       idr := Map.empty, devs := Map.empty\<rparr>, dfs := \<lparr>dfs_entries = {}, ubbd_debugfs_root = None, ubbd_debugfs_devices = None\<rparr>\<rparr>,
     m_wqs = 0, m_blkdevs = {8}, m_genl = False, m_root = False\<rparr>"

definition irets0 :: init_rets where
  "irets0 = \<lparr>ir_wq = True, ir_blkdev = 250, ir_genl = 0, ir_region = 0, ir_cdev = True, ir_add = 0, ir_class = 0, ir_root = - 12\<rparr>"

text \<open>The last registration fails.\<close>

theorem module_load_roundtrip_witness:
  "\<exists>rc m'. ubbd_init irets0 msys0 = (rc, m') \<and>
    (if rc = 0 then drv_init (m_drv m', \<lambda>_. 0) \<and> sys_ok (m_drv m') \<and> m_genl m' \<and> m_root m' \<and> class_registered (kring (m_drv m')) \<and>
       ubbd_exit m' = msys0\<lparr>m_drv := (m_drv msys0)\<lparr>ubbd_major := ubbd_major (m_drv m')\<rparr>\<rparr>
     else rc < 0 \<and> m' = msys0\<lparr>m_drv := (m_drv msys0)\<lparr>ubbd_major := ubbd_major (m_drv m')\<rparr>\<rparr>)"
  by (rule module_load_roundtrip) (simp_all add: unloaded_def msys0_def usys0_def sys0_def rets_ok_def irets0_def)

end
