(* ===== verification/Dcache.thy ===== *)
theory Dcache
  imports Ubbd_Prelude
begin

text \<open>
  \<open>ubbd_flush_dcache_range\<close> (\<open>src/ubbd_internal.h\<close>): the pages flushed before the rings shared with
  the backend are read and after they were written. The loop ends when the unsigned size
  reaches zero, so it may not end for a size that is no multiple of the page size.
\<close>

definition offset_in_page :: "u64 \<Rightarrow> u64" where "offset_in_page vaddr = vaddr AND (PAGE_SIZE - 1)"

partial_function (option) dcache_loop :: "u64 \<Rightarrow> u64 \<Rightarrow> u64 list option" where
  "dcache_loop start sz =
     (if sz = 0 then Some []
      else do { pages \<leftarrow> dcache_loop (start + PAGE_SIZE) (sz - PAGE_SIZE); Some (start # pages) })"

definition ubbd_flush_dcache_range :: "u64 \<Rightarrow> u64 \<Rightarrow> u64 list option" where
  "ubbd_flush_dcache_range vaddr sz =
     (let offset = offset_in_page vaddr; start = vaddr - offset
      in dcache_loop start (round_up (sz + offset) PAGE_SIZE))"

lemma dcache_loop_pages:
  "unat sz = n * 4096 \<Longrightarrow> dcache_loop start sz = Some (map (\<lambda>i. start + of_nat i * PAGE_SIZE) [0..<n])"
proof (induction n arbitrary: start sz)
  case 0
  then have "sz = 0" by (simp add: unat_eq_zero)
  then show ?case by (simp add: dcache_loop.simps)
next
  case (Suc n)
  then have nz: "sz \<noteq> 0" by auto
  have "PAGE_SIZE \<le> sz" using Suc.prems by (simp add: word_le_nat_alt)
  then have "unat (sz - PAGE_SIZE) = n * 4096" using Suc.prems by (simp add: unat_sub)
  from Suc.IH [OF this, of "start + PAGE_SIZE"]
  have "dcache_loop start sz = Some (start # map (\<lambda>i. start + PAGE_SIZE + of_nat i * PAGE_SIZE) [0..<n])"
    using nz by (subst dcache_loop.simps) simp
  also have "start # map (\<lambda>i. start + PAGE_SIZE + of_nat i * PAGE_SIZE) [0..<n] = map (\<lambda>i. start + of_nat i * PAGE_SIZE) [0..<Suc n]"
    by (simp add: upt_conv_Cons map_Suc_upt [symmetric] algebra_simps del: upt_Suc)
  finally show ?case .
qed

lemma unat_offset: "unat (offset_in_page v) = unat v mod 4096"
proof -
  have "offset_in_page v = take_bit 12 v" by (simp add: offset_in_page_def take_bit_eq_mask mask_eq_exp_minus_1)
  then have "unat (offset_in_page v) = take_bit 12 (unat v)" by (simp only: unsigned_take_bit_eq)
  then show ?thesis by (simp add: take_bit_eq_mod)
qed

text \<open>The page starts from that of \<open>v\<close> on are those of the pages a range from \<open>v\<close> touches.\<close>

lemma touched_pages:
  fixes v s :: nat
  shows "(\<lambda>i. v - v mod 4096 + i * 4096) ` {0..<(s + v mod 4096 + 4095) div 4096} = {p. 4096 dvd p \<and> p < v + s \<and> v < p + 4096}"
proof -
  have n: "i < (x + 4095) div 4096 \<longleftrightarrow> i * 4096 < x" for i x :: nat
    by (simp add: Suc_le_eq [symmetric] less_eq_div_iff_mult_less_eq)
  define a m where "a = v div 4096" and "m = v mod 4096"
  have v: "v = 4096 * a + m" "m < 4096" "v - m = 4096 * a" by (simp_all add: a_def m_def minus_mod_eq_mult_div)
  have "p \<in> (\<lambda>i. 4096 * a + i * 4096) ` {0..<(s + m + 4095) div 4096} \<longleftrightarrow> 4096 dvd p \<and> p < v + s \<and> v < p + 4096" for p
  proof
    assume "p \<in> (\<lambda>i. 4096 * a + i * 4096) ` {0..<(s + m + 4095) div 4096}"
    then obtain i where "p = 4096 * (a + i)" "i * 4096 < s + m" by (auto simp: n)
    then show "4096 dvd p \<and> p < v + s \<and> v < p + 4096" using v(1,2) by simp
  next
    assume p: "4096 dvd p \<and> p < v + s \<and> v < p + 4096"
    then obtain c where c: "p = 4096 * c" by (auto elim: dvdE)
    then have "a \<le> c" using p v(1,2) by simp
    then obtain i where "c = a + i" using le_Suc_ex by blast
    then have "p = 4096 * a + i * 4096" "i * 4096 < s + m" using c p v(1) by simp_all
    then show "p \<in> (\<lambda>i. 4096 * a + i * 4096) ` {0..<(s + m + 4095) div 4096}" by (auto simp: n)
  qed
  then have "(\<lambda>i. 4096 * a + i * 4096) ` {0..<(s + m + 4095) div 4096} = {p. 4096 dvd p \<and> p < v + s \<and> v < p + 4096}" by blast
  then show ?thesis using v(3) by (simp only: m_def)
qed



end
