(* ===== verification/Queue_Io.thy ===== *)
theory Queue_Io
  imports Device_Queues Machines
begin

text \<open>
  A queue in operation: the block layer hands in requests, work items run, the backend publishes
  completions, completions are processed, queues are stopped, started, removed and drained by
  force, all in any order. From a new queue that a backend has opened, no step faults or fails to
  return, and every request the driver accepted is answered once.
\<close>

section \<open>The machine\<close>

text \<open>The queue, the memory, and the requests \<open>queue_rq\<close> accepted so far. A tag is reused only after its
  request was answered; the buffers of a request are live pages outside the pool; there are
  fewer requests than transaction ids. The backend writes completion entries, and data into live
  pages; where it writes the head, it leaves a ring of whole entries.\<close>

type_synonym io_state = "ubbd_queue \<times> kmem \<times> nat multiset"

definition rq_given :: "ubbd_h \<Rightarrow> nat \<Rightarrow> request \<Rightarrow> ubbd_queue \<Rightarrow> kmem \<Rightarrow> bool" where
  "rq_given H tag rq q km \<longleftrightarrow> tag \<notin> set (inflight_reqs q) \<and> tag \<notin> set (task_wq q) \<and> length (concat (rq_bio rq)) < 2 ^ 16 \<and>
     (rq_op rq = REQ_OP_READ \<or> rq_op rq = REQ_OP_WRITE \<longrightarrow> rq_bio rq \<noteq> [] \<and> bio_ok q km (zero_ur H rq)) \<and>
     unat (q_req_tid q) + length (task_wq q) + 1 < 2 ^ 64 - 1"

inductive io_step :: "ubbd_h \<Rightarrow> io_state \<Rightarrow> io_state \<Rightarrow> bool" for H where
  io_rq: "rq_given H tag rq q km \<Longrightarrow> ubbd_queue_rq H tag rq q = (st, q') \<Longrightarrow>
    io_step H (q, km, g) (q', km, if st = BLK_STS_OK then add_mset tag g else g)"
| io_work: "t \<in> set (task_wq q) \<Longrightarrow> ubbd_queue_workfn H t (q\<lparr>task_wq := remove1 t (task_wq q)\<rparr>) km = Some (q', km') \<Longrightarrow>
    io_step H (q, km, g) (q', km', g)"
| io_backend: "q' = q\<lparr>compr_head := hd', compr_mem := cm\<rparr> \<Longrightarrow> compr_ok H n q' \<Longrightarrow> same_live km km' \<Longrightarrow>
    io_step H (q, km, g) (q', km', g)"
| io_complete: "ubbd_queue_complete H q km = Some (q', km') \<Longrightarrow> io_step H (q, km, g) (q', km', g)"
| io_force: "ubbd_queue_end_inflight_reqs H ret q km = Some (q', km') \<Longrightarrow> io_step H (q, km, g) (q', km', g)"
| io_status: "io_step H (q, km, g) (q\<lparr>q_status := st\<rparr>, km, g)"
| io_reserve: "io_step H (q, km, g) (q\<lparr>data_pages_reserved := r\<rparr>, km, g)"

text \<open>A queue as \<open>ubbd_queue_create\<close> leaves it, opened by a backend.\<close>

definition io_init :: "ubbd_h \<Rightarrow> io_state \<Rightarrow> bool" where
  "io_init H = (\<lambda>(q, km, g). ubbd_h_ok H \<and> (\<exists>c. fresh_core H (data_pages c) c \<and> q = snd (ubbd_kring_dev_open c)) \<and>
     unat (data_pages q) < 2 ^ 31 \<and> dom (km_pages km) \<subseteq> {..<km_next km} \<and> g = {#})"

fun is_answer :: "blk_event \<Rightarrow> bool" where
  "is_answer (Started t) = False" | "is_answer (Requeued t) = True" | "is_answer (Ended t ret) = True"

definition answers :: "ubbd_queue \<Rightarrow> nat multiset" where
  "answers q = mset (map ev_tag (filter is_answer (blk_log q)))"

definition pending :: "ubbd_queue \<Rightarrow> nat multiset" where
  "pending q = mset (inflight_reqs q) + mset (task_wq q)"

definition io_inv :: "ubbd_h \<Rightarrow> io_state \<Rightarrow> bool" where
  "io_inv H = (\<lambda>(q, km, g). dev_queue_ok H q km \<and> (\<exists>n. compr_ok H n q) \<and> g = pending q + answers q)"

section \<open>A new queue\<close>

lemma fresh_core_inv:
  assumes "ubbd_h_ok H" and "fresh_core H pages c" and "unat pages < 2 ^ 31" and "dom (km_pages km) \<subseteq> {..<km_next km}"
  shows "queue_inv H [] (snd (ubbd_kring_dev_open c)) km" "compr_ok H 0 (snd (ubbd_kring_dev_open c))"
    "dev_queue_ok H (snd (ubbd_kring_dev_open c)) km"
proof -
  let ?q = "snd (ubbd_kring_dev_open c)"
  note f = assms(2) [unfolded fresh_core_def]
  have "0 < unat (CMDR_SIZE H)" using assms(1) by (auto simp: ubbd_h_ok_def)
  then have "ring_rep H [] ?q" using assms(1) f by (auto simp: ring_rep_def ring_inv_def ubbd_h_ok_def ubbd_kring_dev_open_def)
  moreover have "pool_inv {} ?q km" using assms(3,4) f by (simp add: pool_inv_def ubbd_kring_dev_open_def)
  ultimately show inv: "queue_inv H [] ?q km"
    using f by (simp add: queue_inv_def reqs_inv_def reqs_apart_def ubbd_kring_dev_open_def unfinished_locs_def)
  show "compr_ok H 0 ?q" using assms(1) f by (simp add: compr_ok_def ubbd_h_ok_def ubbd_kring_dev_open_def)
  have "pending_ok (task_wq ?q) ?q km" using f by (simp add: pending_ok_def ubbd_kring_dev_open_def)
  then show "dev_queue_ok H ?q km" using inv by (auto simp: dev_queue_ok_def)
qed

section \<open>What each step does to the requests\<close>

lemma answers_log:
  "blk_log q' = blk_log q @ evs \<Longrightarrow> list_all is_answer evs \<Longrightarrow> answers q' = answers q + mset (map ev_tag evs)"
  by (simp add: answers_def list_all_iff)

lemma gives_back_answers: "list_all (gives_back err) evs \<Longrightarrow> list_all is_answer evs"
proof -
  have "gives_back err ev \<Longrightarrow> is_answer ev" for ev by (cases ev) simp_all
  then show "list_all (gives_back err) evs \<Longrightarrow> list_all is_answer evs" by (simp add: list_all_iff)
qed

lemma conserved_io: "conserved err q q' \<Longrightarrow> pending q' + answers q' = pending q + answers q"
  unfolding conserved_def pending_def using answers_log gives_back_answers by (fastforce simp: ac_simps)

lemma compr_same_ok: "compr_same q q' \<Longrightarrow> compr_ok H n q \<Longrightarrow> compr_ok H n q'"
  by (auto simp: compr_ok_def compr_same_def)

text \<open>The parts of a queue its requests do not depend on.\<close>

lemma dev_queue_cong:
  assumes "cmdr_size q' = cmdr_size q" "cmd_head q' = cmd_head q" "cmd_tail q' = cmd_tail q" "cmdr_mem q' = cmdr_mem q"
    "data_bitmap q' = data_bitmap q" "data_pages q' = data_pages q" "data_pages_array q' = data_pages_array q"
    "data_pages_allocated q' = data_pages_allocated q" "inode_set q' = inode_set q" "pdus q' = pdus q" "q_req_tid q' = q_req_tid q"
    "inflight_reqs q' = inflight_reqs q" "task_wq q' = task_wq q"
  shows "dev_queue_ok H q' km = dev_queue_ok H q km"
  using reqs_inv_cong [OF assms(1-11)] pending_cong [of q' q] assms by (simp add: dev_queue_ok_def queue_inv_def)

lemma dev_queue_upd [simp]:
  "dev_queue_ok H (q\<lparr>blk_log := l\<rparr>) km = dev_queue_ok H q km"
  "dev_queue_ok H (q\<lparr>q_status := st\<rparr>) km = dev_queue_ok H q km"
  "dev_queue_ok H (q\<lparr>data_pages_reserved := r\<rparr>) km = dev_queue_ok H q km"
  "dev_queue_ok H (q\<lparr>compr_head := ch, compr_mem := cm\<rparr>) km = dev_queue_ok H q km"
  by (rule dev_queue_cong; simp)+

lemma dev_queue_live:
  assumes "dev_queue_ok H q km" and "same_live km km'" shows "dev_queue_ok H q km'"
proof -
  have "bio_ok q km' r = bio_ok q km r" for r using assms(2) by (simp add: bio_ok_def same_live_def)
  then show ?thesis using assms(1)
    by (simp add: dev_queue_ok_def queue_inv_def reqs_inv_live [OF assms(2)] pending_ok_def fresh_req_def rq_wf_def)
qed

text \<open>A tag the queue does not know may get a new request, and then a work item.\<close>

lemma dev_queue_pdu:
  assumes "dev_queue_ok H q km" and "t \<notin> set (inflight_reqs q)" "t \<notin> set (task_wq q)"
  shows "dev_queue_ok H (q\<lparr>pdus := (pdus q)(t := r)\<rparr>) km"
proof -
  have "fresh_req u (q\<lparr>pdus := (pdus q)(t := r)\<rparr>) km = fresh_req u q km" if "u \<in> set (task_wq q)" for u
    using that assms(3) by (auto simp: fresh_req_def rq_wf_def bio_ok_def)
  then show ?thesis using assms reqs_inv_pdu [of H _ "set (inflight_reqs q)" q km t r]
    by (auto simp: dev_queue_ok_def queue_inv_def pending_ok_def)
qed

lemma dev_queue_work:
  assumes "dev_queue_ok H q km" and "fresh_req t q km" and "t \<notin> set (task_wq q)"
    and "unat (q_req_tid q) + length (task_wq q) + 1 < 2 ^ 64 - 1"
  shows "dev_queue_ok H (q\<lparr>task_wq := task_wq q @ [t]\<rparr>) km"
proof -
  let ?q = "q\<lparr>task_wq := task_wq q @ [t]\<rparr>"
  have "queue_inv H es ?q km = queue_inv H es q km" for es using reqs_inv_cong [of ?q q] by (simp add: queue_inv_def)
  moreover have "pending_ok (task_wq q @ [t]) ?q km = pending_ok (task_wq q @ [t]) q km" by (rule pending_cong) simp_all
  ultimately show ?thesis using assms by (auto simp: dev_queue_ok_def pending_ok_def)
qed

lemma rq_shape:
  assumes "ubbd_queue_rq H tag rq q = (st, q')"
  obtains (refused) "st \<noteq> BLK_STS_OK" "q' = q"
  | (unknown) "st \<noteq> BLK_STS_OK" "q' = q\<lparr>pdus := (pdus q)(tag := zero_ur H rq), blk_log := blk_log q @ [Started tag]\<rparr>"
  | (taken) oc where "st = BLK_STS_OK" "oc \<noteq> UBBD_OP_PAD" "rq_op rq = REQ_OP_READ \<longleftrightarrow> oc = UBBD_OP_READ" "rq_op rq = REQ_OP_WRITE \<longleftrightarrow> oc = UBBD_OP_WRITE"
      "q' = q\<lparr>blk_log := blk_log q @ [Started tag], pdus := (pdus q)(tag := (zero_ur H rq)\<lparr>ur_req := rq, ur_op := oc\<rparr>), task_wq := task_wq q @ [tag]\<rparr>"
proof (cases "q_status q = UBBD_QUEUE_KSTATUS_RUNNING")
  case False
  then show ?thesis using assms refused by (cases "q_status q") (auto simp: ubbd_queue_rq_def)
next
  case True
  then show ?thesis using assms unknown taken
    by (cases "rq_op rq") (auto simp: ubbd_queue_rq_def blk_tell_def ubbd_req_init_def Let_def)
qed

lemma rq_fresh:
  assumes "rq_given H tag rq q km" and "oc \<noteq> UBBD_OP_PAD" "rq_op rq = REQ_OP_READ \<longleftrightarrow> oc = UBBD_OP_READ" "rq_op rq = REQ_OP_WRITE \<longleftrightarrow> oc = UBBD_OP_WRITE"
  shows "fresh_req tag (q\<lparr>blk_log := l, pdus := (pdus q)(tag := (zero_ur H rq)\<lparr>ur_req := rq, ur_op := oc\<rparr>)\<rparr>) km"
proof -
  let ?r = "(zero_ur H rq)\<lparr>ur_req := rq, ur_op := oc\<rparr>"
  have "rq_wf q km ?r" using assms
    by (auto simp: rq_wf_def rq_given_def data_req_def bio_ok_def zero_ur_def rq_segs_def)
  moreover have "q_req_tid q < - 1" using assms(1)
    by (simp add: rq_given_def word_less_nat_alt unsigned_minus_1_eq_mask mask_eq_exp_minus_1)
  ultimately show ?thesis using assms(1) by (simp add: fresh_req_def rq_given_def rq_wf_def bio_ok_def zero_ur_def pi_ok_def)
qed

lemma rq_ok:
  assumes inv: "io_inv H (q, km, g)" and given: "rq_given H tag rq q km" and rq: "ubbd_queue_rq H tag rq q = (st, q')"
  shows "io_inv H (q', km, if st = BLK_STS_OK then add_mset tag g else g)"
proof -
  obtain n where ok: "dev_queue_ok H q km" "compr_ok H n q" "g = pending q + answers q" using inv by (auto simp: io_inv_def)
  have tag: "tag \<notin> set (inflight_reqs q)" "tag \<notin> set (task_wq q)" using given by (simp_all add: rq_given_def)
  from rq show ?thesis
  proof (cases rule: rq_shape)
    case refused
    then show ?thesis using inv by simp
  next
    case unknown
    have "dev_queue_ok H q' km" using dev_queue_pdu [OF ok(1) tag, of "zero_ur H rq"] unknown(2) by simp
    then show ?thesis using ok(2,3) unknown by (auto simp: io_inv_def compr_ok_def pending_def answers_def)
  next
    case (taken oc)
    let ?q1 = "q\<lparr>blk_log := blk_log q @ [Started tag]\<rparr>" and ?r = "(zero_ur H rq)\<lparr>ur_req := rq, ur_op := oc\<rparr>"
    have "dev_queue_ok H ?q1 km" using ok(1) by simp
    from dev_queue_pdu [OF this, of tag ?r] tag have 2: "dev_queue_ok H (?q1\<lparr>pdus := (pdus q)(tag := ?r)\<rparr>) km" by simp
    have "dev_queue_ok H q' km" unfolding taken(5)
      using dev_queue_work [OF 2 rq_fresh [OF given taken(2-4)]] tag given by (simp add: rq_given_def)
    then show ?thesis using ok(2,3) taken(1,5) by (auto simp: io_inv_def compr_ok_def pending_def answers_def)
  qed
qed

text \<open>A work item runs: its request goes onto the ring or back to the block layer.\<close>

lemma work_ready:
  assumes "queue_inv H es q km" and "pending_ok (task_wq q) q km" and t: "t \<in> set (task_wq q)"
  shows "queue_inv H es (q\<lparr>task_wq := remove1 t (task_wq q)\<rparr>) km"
    "pending_ok (t # remove1 t (task_wq q)) (q\<lparr>task_wq := remove1 t (task_wq q)\<rparr>) km"
proof -
  let ?ts = "remove1 t (task_wq q)" and ?q = "q\<lparr>task_wq := remove1 t (task_wq q)\<rparr>"
  show "queue_inv H es ?q km" using assms(1) reqs_inv_cong [of ?q q] by (simp add: queue_inv_def)
  have d: "distinct (task_wq q)" using assms(2) by (simp add: pending_ok_def)
  have "length (t # ?ts) = length (task_wq q)" using t by (simp add: length_remove1) (metis Suc_pred length_pos_if_in_set)
  then have "pending_ok (t # ?ts) q km" using assms(2) t d unfolding pending_ok_def by (simp add: set_remove1_eq)
  then show "pending_ok (t # ?ts) ?q km" using pending_cong [of ?q q] by simp
qed

lemma work_ok:
  assumes inv: "io_inv H (q, km, g)" and t: "t \<in> set (task_wq q)"
  shows "\<exists>q' km'. ubbd_queue_workfn H t (q\<lparr>task_wq := remove1 t (task_wq q)\<rparr>) km = Some (q', km') \<and> io_inv H (q', km', g)"
proof -
  let ?ts = "remove1 t (task_wq q)" and ?q = "q\<lparr>task_wq := remove1 t (task_wq q)\<rparr>"
  obtain n es where ok: "queue_inv H es q km" "pending_ok (task_wq q) q km" "compr_ok H n q" "g = pending q + answers q"
    using inv by (auto simp: io_inv_def dev_queue_ok_def)
  note iq = work_ready(1) [OF ok(1,2) t] and pd = work_ready(2) [OF ok(1,2) t]
  then have fr: "fresh_req t ?q km" by (simp add: pending_ok_def)
  obtain q' km' es' sub where w: "ubbd_queue_workfn H t ?q km = Some (q', km')" "queue_inv H es' q' km'" "pages_frame ?q km q' km'"
      "task_wq q' = ?ts" "compr_same ?q q'" "\<forall>u. u \<noteq> t \<longrightarrow> pdus q' u = pdus ?q u"
    and sub: "sub \<Longrightarrow> inflight_reqs q' = inflight_reqs q @ [t] \<and> blk_log q' = blk_log q \<and> q_req_tid q' = q_req_tid q + 1"
    and bk: "\<not> sub \<Longrightarrow> inflight_reqs q' = inflight_reqs q \<and> blk_log q' = blk_log q @ [back_ev (q_status q) t] \<and> q_req_tid q' = q_req_tid q"
    using workfn_one [OF iq fr] by auto
  have tid: "unat (q_req_tid q') \<le> unat (q_req_tid ?q) + 1" using sub bk by (cases sub) (auto simp: unat_word_ariths)
  have xs: "inflight_reqs q' = inflight_reqs ?q @ (if sub then [t] else [])" "set (if sub then [t] else []) \<subseteq> {t}" using sub bk by auto
  have "pending_ok (task_wq q') q' km'" using pending_step [OF pd w(3,6) xs tid] w(4) by simp
  then have "dev_queue_ok H q' km'" using w(2) by (auto simp: dev_queue_ok_def)
  moreover have "compr_ok H n q'" using compr_same_ok [OF _ ok(3)] w(5) by (simp add: compr_same_def)
  moreover have "mset (task_wq q) = add_mset t (mset (task_wq q'))" using t w(4) by simp
  then have "pending q' + answers q' = pending q + answers q"
    using sub bk by (cases sub) (auto simp: pending_def answers_def back_ev_def)
  ultimately show ?thesis using w(1) ok(4) by (auto simp: io_inv_def)
qed

text \<open>Completions are processed: the requests they name are ended.\<close>

lemma drop_key_mset: "distinct (map fst as) \<Longrightarrow> map_of as k = Some t \<Longrightarrow> mset as = add_mset (k, t) (mset (filter (\<lambda>x. fst x \<noteq> k) as))"
proof (induction as)
  case (Cons a as)
  show ?case
  proof (cases "fst a = k")
    case True
    then have "filter (\<lambda>x. fst x \<noteq> k) as = as" using Cons.prems(1) by (auto simp: filter_id_conv image_iff)
    then show ?thesis using True Cons.prems(2) by auto
  next
    case False
    then show ?thesis using Cons by simp
  qed
qed simp

lemma spec_complete_mset:
  assumes "distinct (map fst as)"
  shows "mset (map snd as) = mset (map snd (snd (spec_complete ces as))) + mset (map ev_tag (fst (spec_complete ces as))) \<and>
    list_all is_answer (fst (spec_complete ces as))"
  using assms
proof (induction ces as rule: spec_complete.induct)
  case (2 ce ces as)
  show ?case
  proof (cases "map_of as (ce_priv_data ce)")
    case None
    then show ?thesis using 2 by simp
  next
    case (Some t)
    let ?as = "filter (\<lambda>x. fst x \<noteq> ce_priv_data ce) as"
    have "distinct (map fst ?as)" using 2(3) by (simp add: distinct_map_filter)
    moreover have "mset (map snd as) = add_mset t (mset (map snd ?as))" using arg_cong [OF drop_key_mset [OF 2(3) Some], of "image_mset snd"] by simp
    ultimately show ?thesis using 2(2) [OF Some] Some by (simp add: Let_def)
  qed
qed simp

lemma complete_ok:
  assumes inv: "io_inv H (q, km, g)"
  shows "\<exists>q' km'. ubbd_queue_complete H q km = Some (q', km') \<and> io_inv H (q', km', g)"
proof (cases "q_status q = UBBD_QUEUE_KSTATUS_REMOVING")
  case True
  then show ?thesis using inv by (simp add: ubbd_queue_complete_def)
next
  case False
  obtain n es where ok: "queue_inv H es q km" "pending_ok (task_wq q) q km" "compr_ok H n q" "g = pending q + answers q"
    using inv by (auto simp: io_inv_def dev_queue_ok_def)
  have ri: "reqs_inv H es (set (inflight_reqs q)) q km" and d: "distinct (inflight_reqs q)" using ok(1) by (simp_all add: queue_inv_def)
  have H: "ubbd_h_ok H" using ri by (simp add: reqs_inv_def ring_rep_def)
  obtain q' km' es' where c: "complete_loop H q km = Some (q', km')" "queue_inv H es' q' km'"
      "blk_log q' = blk_log q @ fst (spec_complete (ce_list H n q) (abs_reqs q))"
      "abs_reqs q' = snd (spec_complete (ce_list H n q) (abs_reqs q))" "compr_tail q' = compr_head q" "compr_head q' = compr_head q"
      "complete_frame q km q' km'"
    using complete_loop_ok [OF H ok(1,3)] by blast
  note f = c(7) [unfolded complete_frame_def]
  have "fresh_req t q' km'" if "t \<in> set (task_wq q)" for t
  proof -
    have t: "fresh_req t q km" using that ok(2) by (simp add: pending_ok_def)
    then have "rq_wf q' km' (pdus q t)" 
      using rq_wf_cong [of q km "pdus q t" q' km'] bio_ok_frame [of q km "pdus q t" q' km'] f by (simp add: fresh_req_def)
    then show ?thesis using t f by (auto simp: fresh_req_def)
  qed
  then have "dev_queue_ok H q' km'" using c(2) f ok(2) by (auto simp: dev_queue_ok_def pending_ok_def)
  moreover have "compr_ok H 0 q'" using ok(3) f c(5,6) by (auto simp: compr_ok_def)
  moreover have snd_abs: "map snd (abs_reqs x) = inflight_reqs x" for x by (simp add: abs_reqs_def comp_def)
  have "inj_on (\<lambda>t. ur_tid (pdus q t)) (set (inflight_reqs q))" using ri by (auto simp: reqs_inv_def reqs_apart_def inj_on_def)
  then have "distinct (map fst (abs_reqs q))" using d by (simp add: abs_reqs_def comp_def distinct_map)
  from spec_complete_mset [OF this, of "ce_list H n q"] have "pending q' + answers q' = pending q + answers q"
    using answers_log [OF c(3)] f unfolding c(4) [symmetric] snd_abs by (simp add: pending_def ac_simps)
  ultimately show ?thesis using False c(1) ok(4) by (auto simp: io_inv_def ubbd_queue_complete_def)
qed

lemma force_ok:
  assumes "io_inv H (q, km, g)"
  shows "\<exists>q' km'. ubbd_queue_end_inflight_reqs H ret q km = Some (q', km') \<and> io_inv H (q', km', g)"
proof -
  obtain n where ok: "dev_queue_ok H q km" "compr_ok H n q" "g = pending q + answers q" using assms by (auto simp: io_inv_def)
  then obtain q' km' where e: "ubbd_queue_end_inflight_reqs H ret q km = Some (q', km')" "queue_step H q km q' km'" "ended ret q q'"
    using end_queue_ok by blast
  then show ?thesis using ok conserved_io [of ret q q'] compr_same_ok [of q q' H n] by (auto simp: io_inv_def ended_def queue_step_def)
qed

section \<open>Every request is answered once\<close>

lemma init_ok: "io_init H s \<Longrightarrow> io_inv H s"
proof -
  assume "io_init H s"
  then obtain c km where c: "ubbd_h_ok H" "fresh_core H (data_pages c) c" "s = (snd (ubbd_kring_dev_open c), km, {#})"
      "unat (data_pages c) < 2 ^ 31" "dom (km_pages km) \<subseteq> {..<km_next km}"
    by (auto simp: io_init_def ubbd_kring_dev_open_def)
  then show ?thesis using fresh_core_inv [OF c(1,2,4,5)] c(2)
    by (auto simp: io_inv_def pending_def answers_def fresh_core_def ubbd_kring_dev_open_def)
qed

lemma io_step_ok:
  assumes "io_step H s s'" and "io_inv H s" shows "io_inv H s'"
  using assms
proof (cases rule: io_step.cases)
  case (io_rq tag rq q km st q' g)
  then show ?thesis using rq_ok assms(2) by blast
next
  case (io_work t q km q' km' g)
  then show ?thesis using work_ok [of H q km g t] assms(2) by auto
next
  case (io_backend q' cm hd' q n km km' g)
  then have "dev_queue_ok H q' km'" "pending q' = pending q" "answers q' = answers q"
    using assms(2) dev_queue_live [of H q' km km'] by (simp_all add: io_inv_def pending_def answers_def)
  then show ?thesis using assms(2) io_backend by (auto simp: io_inv_def)
next
  case (io_complete q km q' km' g)
  then show ?thesis using complete_ok [of H q km g] assms(2) by auto
next
  case (io_force ret q km q' km' g)
  then show ?thesis using force_ok [of H q km g ret] assms(2) by auto
next
  case (io_status q km g st)
  then show ?thesis using assms(2) by (auto simp: io_inv_def compr_ok_def pending_def answers_def)
next
  case (io_reserve q km g r)
  then show ?thesis using assms(2) by (auto simp: io_inv_def compr_ok_def pending_def answers_def)
qed

interpretation queue_io: step_invariant "io_init H" "io_step H" "io_inv H" for H
  by unfold_locales (auto intro: init_ok io_step_ok)

text \<open>C2: In every state a queue in operation reaches, the requests accepted so far are, with their multiplicities,
  those that are outstanding or queued and those that were answered: none is lost and none is answered
  twice. No tag is held twice, and whichever operation comes next returns: no NULL dereference, no
  access out of range and no endless loop.\<close>

theorem every_request_answered_once:
  assumes "reach (io_init H) (io_step H) (q, km, accepted)"
  shows "accepted = mset (inflight_reqs q) + mset (task_wq q) + answers q \<and> distinct (inflight_reqs q @ task_wq q) \<and>
    (\<forall>t. t \<in> set (task_wq q) \<longrightarrow> ubbd_queue_workfn H t (q\<lparr>task_wq := remove1 t (task_wq q)\<rparr>) km \<noteq> None) \<and>
    ubbd_queue_complete H q km \<noteq> None \<and> ubbd_queue_end_inflight_reqs H ret q km \<noteq> None"
proof -
  have inv: "io_inv H (q, km, accepted)" by (rule queue_io.reach_inv [OF assms])
  then have "accepted = pending q + answers q" "dev_queue_ok H q km" by (auto simp: io_inv_def)
  moreover from this(2) have "distinct (inflight_reqs q @ task_wq q)"
    by (auto simp: dev_queue_ok_def queue_inv_def pending_ok_def fresh_req_def)
  moreover have "ubbd_queue_workfn H t (q\<lparr>task_wq := remove1 t (task_wq q)\<rparr>) km \<noteq> None" if "t \<in> set (task_wq q)" for t
    using work_ok [OF inv that] by auto
  ultimately show ?thesis using complete_ok [OF inv] force_ok [OF inv, of ret] by (auto simp: pending_def)
qed

text \<open>A queue with four data pages, to which the block layer hands a write of three segments under tag 7.\<close>

definition core1 :: ubbd_queue where
  "core1 = (dq_core (zero_queue (\<lambda>_. ur0)))\<lparr>cmdr_size := 256, compr_size := 64, data_pages := 4, data_pages_reserved := 3,
     data_bitmap := replicate 4 False, data_off := 4096, q_status := UBBD_QUEUE_KSTATUS_RUNNING\<rparr>"

lemma core1_init: "io_init H0 (snd (ubbd_kring_dev_open core1), km0 [], {#})"
proof -
  have "fresh_core H0 (data_pages core1) core1" by (simp add: fresh_core_def core1_def zero_queue_def)
  moreover have "unat (data_pages core1) < 2 ^ 31" by (simp add: core1_def)
  moreover have "dom (km_pages (km0 [])) \<subseteq> {..<km_next (km0 [])}" by (auto simp: km0_def)
  ultimately show ?thesis by (auto simp: io_init_def ubbd_kring_dev_open_def)
qed

definition queue_w :: ubbd_queue where "queue_w = snd (ubbd_queue_rq H0 7 (ur_req ur0) (snd (ubbd_kring_dev_open core1)))"

lemma queue_w_given: "rq_given H0 7 (ur_req ur0) (snd (ubbd_kring_dev_open core1)) (km0 [])"
  by (simp add: rq_given_def ubbd_kring_dev_open_def core1_def zero_queue_def ur0_def bio_ok_def zero_ur_def bv0_def km0_def)

lemma queue_w_taken: "ubbd_queue_rq H0 7 (ur_req ur0) (snd (ubbd_kring_dev_open core1)) = (BLK_STS_OK, queue_w)"
  by (simp add: queue_w_def ubbd_queue_rq_def ubbd_kring_dev_open_def core1_def zero_queue_def ur0_def Let_def)

lemma queue_w_wq: "task_wq queue_w = [7]"
  by (simp add: queue_w_def ubbd_queue_rq_def ubbd_kring_dev_open_def core1_def zero_queue_def ur0_def Let_def ubbd_req_init_def blk_tell_def)

lemma queue_w_reach: "reach (io_init H0) (io_step H0) (queue_w, km0 [], {#7#})"
proof -
  let ?q = "snd (ubbd_kring_dev_open core1)"
  have "reach (io_init H0) (io_step H0) (?q, km0 [], {#})" using core1_init by (rule reach_init)
  moreover have "io_step H0 (?q, km0 [], {#}) (queue_w, km0 [], {#7#})" using io_rq [OF queue_w_given queue_w_taken, of "{#}"] by simp
  ultimately show ?thesis by (rule reach_step)
qed

theorem every_request_answered_once_witness:
  "reach (io_init H0) (io_step H0) (queue_w, km0 [], {#7#}) \<and> {#7#} = mset (inflight_reqs queue_w) + mset (task_wq queue_w) + answers queue_w \<and>
   ubbd_queue_workfn H0 7 (queue_w\<lparr>task_wq := []\<rparr>) (km0 []) \<noteq> None"
  using every_request_answered_once [OF queue_w_reach] queue_w_reach queue_w_wq by simp

text \<open>C3: In every state a queue in operation reaches, its shared structures are well formed: the command ring is
  a list of entries, each unfinished one padding or the entry of exactly one outstanding request; the
  outstanding requests own disjoint slots that are marked in the bitmap and backed by live pages, and have
  distinct transaction ids; the completion ring holds whole entries; and the queued requests are fresh.\<close>

theorem queue_stays_well_formed:
  assumes "reach (io_init H) (io_step H) (q, km, accepted)"
  shows "(\<exists>es. queue_inv H es q km) \<and> pending_ok (task_wq q) q km \<and> (\<exists>n. compr_ok H n q)"
  using queue_io.reach_inv [OF assms] by (auto simp: io_inv_def dev_queue_ok_def)

theorem queue_stays_well_formed_witness:
  "(\<exists>es. queue_inv H0 es queue_w (km0 [])) \<and> pending_ok (task_wq queue_w) queue_w (km0 []) \<and> (\<exists>n. compr_ok H0 n queue_w)"
  by (rule queue_stays_well_formed [OF queue_w_reach])

end
