(* ===== verification/Queue_Races.thy ===== *)
theory Queue_Races
  imports Queue_Io
begin

text \<open>
  A queue under all its threads at once. Every section of \<open>src/ubbd_req.c\<close> that runs under one lock is
  a step of its own: a work item first prepares its request, then puts it on the inflight list, then publishes
  its entry; a completer first takes an entry of the completion ring, then fetches the request from the
  inflight list, then ends it; a forced end first takes the whole list. Any number of work items
  and completers are in progress at any time.
\<close>

section \<open>The machine\<close>

text \<open>Where a work item stands, and why a request is being ended.\<close>

datatype work_phase = Prepared | Listed

datatype end_cause = By_entry nat | By_force int

text \<open>The first part of \<open>ubbd_queue_workfn\<close>: the status and the preparation. The result says whether the
  work item goes on.\<close>

definition work_begin :: "nat \<Rightarrow> ubbd_queue \<Rightarrow> kmem \<Rightarrow> (bool \<times> ubbd_queue \<times> kmem) option" where
  "work_begin tag q km =
     (if workfn_status q \<noteq> 0 then Some (False, workfn_end_request tag (workfn_status q) q, km)
      else do {
        (ret, q1, km1) \<leftarrow> workfn_prepare tag q km;
        if ret \<noteq> 0 then Some (False, workfn_end_request tag ret q1, km1) else Some (True, q1, km1)
      })"

text \<open>The first section of a round of \<open>ubbd_queue_complete\<close>, under \<open>compr_lock\<close>.\<close>

definition take_entry :: "ubbd_h \<Rightarrow> ubbd_queue \<Rightarrow> (nat \<times> ubbd_queue) option" where
  "take_entry H q = map_option (\<lambda>off. (off, q\<lparr>compr_tail := UPDATE_COMPR_TAIL (compr_tail q) (sizeof_ce H) (compr_size q)\<rparr>))
     (get_complete_entry q)"

text \<open>The rest of a round for the request fetched, and of a forced end for the next request of its list. The
  entry is read where it lies.\<close>

definition end_fetched :: "ubbd_h \<Rightarrow> nat \<Rightarrow> end_cause \<Rightarrow> ubbd_queue \<Rightarrow> kmem \<Rightarrow> (ubbd_queue \<times> kmem) option" where
  "end_fetched H tag cause q km =
     (case cause of
        By_entry off \<Rightarrow> do {
          km1 \<leftarrow> (if rq_op (ur_req (pdus q tag)) = REQ_OP_READ then copy_data_from_ubbdreq q (pdus q tag) km else Some km);
          complete_inflight_req H tag (ce_result (compr_mem q off)) q km1
        }
      | By_force ret \<Rightarrow> complete_inflight_req H tag ret q km)"

text \<open>The queue and the memory; the work items in progress; the completion entries taken; the requests
  being ended; the requests accepted so far.\<close>

type_synonym race_state = "ubbd_queue \<times> kmem \<times> (nat \<rightharpoonup> work_phase) \<times> nat list \<times> (nat \<rightharpoonup> end_cause) \<times> nat multiset"

definition held :: "ubbd_queue \<Rightarrow> (nat \<rightharpoonup> work_phase) \<Rightarrow> (nat \<rightharpoonup> end_cause) \<Rightarrow> nat set" where
  "held q w e = set (inflight_reqs q) \<union> set (task_wq q) \<union> dom w \<union> dom e"

text \<open>The backend names in its entries only transaction ids it was given, so never 0; it respects the head
  as in \<open>Queue_Io\<close>. A forced end runs after the work queue was flushed.\<close>

inductive race_step :: "ubbd_h \<Rightarrow> race_state \<Rightarrow> race_state \<Rightarrow> bool" for H where
  x_rq: "rq_given H tag rq q km \<Longrightarrow> tag \<notin> held q w e \<Longrightarrow> unat (q_req_tid q) + length (task_wq q) + card (dom w) + 1 < 2 ^ 64 - 1 \<Longrightarrow>
    ubbd_queue_rq H tag rq q = (st, q') \<Longrightarrow>
    race_step H (q, km, w, c, e, g) (q', km, w, c, e, if st = BLK_STS_OK then add_mset tag g else g)"
| x_begin: "t \<in> set (task_wq q) \<Longrightarrow> work_begin t (q\<lparr>task_wq := remove1 t (task_wq q)\<rparr>) km = Some (go, q', km') \<Longrightarrow>
    race_step H (q, km, w, c, e, g) (q', km', if go then w(t \<mapsto> Prepared) else w, c, e, g)"
| x_list: "w t = Some Prepared \<Longrightarrow> race_step H (q, km, w, c, e, g) (workfn_inflight t q, km, w(t \<mapsto> Listed), c, e, g)"
| x_submit: "w t = Some Listed \<Longrightarrow> workfn_submit H t q = Some q' \<Longrightarrow>
    race_step H (q, km, w, c, e, g) (q', km, w(t := None), c, e, g)"
| x_backend: "q' = q\<lparr>compr_head := hd', compr_mem := cm\<rparr> \<Longrightarrow> compr_ok H n q' \<Longrightarrow> same_live km km' \<Longrightarrow>
    (\<forall>ce \<in> set (ce_list H n q'). ce_priv_data ce \<noteq> 0) \<Longrightarrow> (\<forall>off \<in> set c. ce_priv_data (cm off) \<noteq> 0) \<Longrightarrow>
    race_step H (q, km, w, c, e, g) (q', km', w, c, e, g)"
| x_take: "take_entry H q = Some (off, q') \<Longrightarrow> race_step H (q, km, w, c, e, g) (q', km, w, off # c, e, g)"
| x_fetch: "off \<in> set c \<Longrightarrow> fetch_inflight_req (ce_priv_data (compr_mem q off)) q = (r, q') \<Longrightarrow>
    race_step H (q, km, w, c, e, g) (q', km, w, remove1 off c, case r of None \<Rightarrow> e | Some t \<Rightarrow> e(t \<mapsto> By_entry off), g)"
| x_splice: "w = Map.empty \<Longrightarrow>
    race_step H (q, km, w, c, e, g) (q\<lparr>inflight_reqs := []\<rparr>, km, w, c, \<lambda>t. if t \<in> set (inflight_reqs q) then Some (By_force ret) else e t, g)"
| x_end: "e t = Some cause \<Longrightarrow> end_fetched H t cause q km = Some (q', km') \<Longrightarrow>
    race_step H (q, km, w, c, e, g) (q', km', w, c, e(t := None), g)"
| x_status: "race_step H (q, km, w, c, e, g) (q\<lparr>q_status := st\<rparr>, km, w, c, e, g)"
| x_reserve: "race_step H (q, km, w, c, e, g) (q\<lparr>data_pages_reserved := r\<rparr>, km, w, c, e, g)"

section \<open>The invariant\<close>

text \<open>A request whose work item is in progress has its slots and no id yet; one whose work item waits
  has neither.\<close>

definition half_ok :: "ubbd_queue \<Rightarrow> kmem \<Rightarrow> ubbd_request \<Rightarrow> bool" where
  "half_ok q km r \<longleftrightarrow> rq_wf q km r \<and> prep_req r r \<and> (\<forall>i \<in> owned r. i < length (data_bitmap q) \<and> data_bitmap q ! i) \<and> ur_tid r = 0"

definition waiting_ok :: "ubbd_queue \<Rightarrow> kmem \<Rightarrow> ubbd_request \<Rightarrow> bool" where
  "waiting_ok q km r \<longleftrightarrow> rq_wf q km r \<and> pi_ok r \<and> ur_pi r = None \<and> ur_tid r = 0"

text \<open>The requests whose entry is on the ring.\<close>

definition entered :: "ubbd_queue \<Rightarrow> (nat \<rightharpoonup> work_phase) \<Rightarrow> (nat \<rightharpoonup> end_cause) \<Rightarrow> nat set" where
  "entered q w e = (set (inflight_reqs q) - dom w) \<union> dom e"

definition places_ok :: "ubbd_queue \<Rightarrow> (nat \<rightharpoonup> work_phase) \<Rightarrow> (nat \<rightharpoonup> end_cause) \<Rightarrow> bool" where
  "places_ok q w e \<longleftrightarrow> distinct (inflight_reqs q) \<and> distinct (task_wq q) \<and> finite (dom w) \<and> finite (dom e) \<and>
     (\<forall>t \<in> dom w. t \<in> set (inflight_reqs q) \<longleftrightarrow> w t = Some Listed) \<and>
     dom e \<inter> (set (inflight_reqs q) \<union> dom w) = {} \<and> set (task_wq q) \<inter> (set (inflight_reqs q) \<union> dom w \<union> dom e) = {} \<and>
     unat (q_req_tid q) + length (task_wq q) + card (dom w) < 2 ^ 64 - 1"

definition halves_ok :: "ubbd_queue \<Rightarrow> kmem \<Rightarrow> nat set \<Rightarrow> nat set \<Rightarrow> bool" where
  "halves_ok q km W T \<longleftrightarrow> (\<forall>t \<in> W. half_ok q km (pdus q t)) \<and> (\<forall>t \<in> set (task_wq q). waiting_ok q km (pdus q t)) \<and>
     (\<forall>t \<in> W. \<forall>u \<in> W \<union> T. t \<noteq> u \<longrightarrow> owned (pdus q t) \<inter> owned (pdus q u) = {}) \<and> (\<forall>t \<in> T. ur_tid (pdus q t) \<noteq> 0)"

definition race_core :: "ubbd_h \<Rightarrow> ubbd_queue \<Rightarrow> kmem \<Rightarrow> (nat \<rightharpoonup> work_phase) \<Rightarrow> (nat \<rightharpoonup> end_cause) \<Rightarrow> bool" where
  "race_core H q km w e \<longleftrightarrow> (\<exists>es. reqs_inv H es (entered q w e) q km) \<and> halves_ok q km (dom w) (entered q w e) \<and> places_ok q w e"

lemma rq_wf_frame: "rq_wf q km r \<Longrightarrow> pages_frame q km q' km' \<Longrightarrow> rq_wf q' km' r"
  using rq_wf_cong [of q km r q' km'] bio_ok_frame [of q km r q' km'] by blast

lemma half_frame:
  "half_ok q km r \<Longrightarrow> pages_frame q km q' km' \<Longrightarrow> length (data_bitmap q') = length (data_bitmap q) \<Longrightarrow>
     (\<forall>i \<in> owned r. data_bitmap q ! i \<longrightarrow> data_bitmap q' ! i) \<Longrightarrow> half_ok q' km' r"
  using rq_wf_frame by (auto simp: half_ok_def)

lemma waiting_frame: "waiting_ok q km r \<Longrightarrow> pages_frame q km q' km' \<Longrightarrow> waiting_ok q' km' r"
  using rq_wf_frame by (auto simp: waiting_ok_def)

lemma halves_apart: "halves_ok q km W T \<Longrightarrow> t \<in> W \<Longrightarrow> u \<in> W \<union> T \<Longrightarrow> t \<noteq> u \<Longrightarrow> owned (pdus q t) \<inter> owned (pdus q u) = {}"
  by (simp add: halves_ok_def)

text \<open>A step that touches none of the requests in \<open>W\<close>, \<open>T\<close> and on the work queue.\<close>

lemma halves_frame:
  assumes "halves_ok q km W T" and "pages_frame q km q' km'" and "length (data_bitmap q') = length (data_bitmap q)"
    and "\<forall>t \<in> W. \<forall>i \<in> owned (pdus q t). data_bitmap q ! i \<longrightarrow> data_bitmap q' ! i"
    and "\<forall>t \<in> W \<union> T \<union> set (task_wq q'). pdus q' t = pdus q t" and "set (task_wq q') \<subseteq> set (task_wq q)"
  shows "halves_ok q' km' W T"
proof -
  have h: "\<forall>t \<in> W. half_ok q km (pdus q t)" "\<forall>t \<in> set (task_wq q). waiting_ok q km (pdus q t)"
      "\<forall>t \<in> W. \<forall>u \<in> W \<union> T. t \<noteq> u \<longrightarrow> owned (pdus q t) \<inter> owned (pdus q u) = {}" "\<forall>t \<in> T. ur_tid (pdus q t) \<noteq> 0"
    using assms(1) by (simp_all add: halves_ok_def)
  have "half_ok q' km' (pdus q' t)" if "t \<in> W" for t
    using half_frame [of q km "pdus q t" q' km'] h(1) assms(2-5) that by auto
  moreover have "waiting_ok q' km' (pdus q' t)" if "t \<in> set (task_wq q')" for t
    using waiting_frame [of q km "pdus q t" q' km'] h(2) assms(2,5,6) that by auto
  moreover have "owned (pdus q' t) \<inter> owned (pdus q' u) = {}" if "t \<in> W" "u \<in> W \<union> T" "t \<noteq> u" for t u
    using h(3) assms(5) that by auto
  ultimately show ?thesis using h(4) assms(5) unfolding halves_ok_def by auto
qed

section \<open>The work item\<close>

lemma entered_upd:
  "inflight_reqs q' = inflight_reqs q \<Longrightarrow> entered q' w e = entered q w e"
  "t \<notin> set (inflight_reqs q) \<Longrightarrow> entered q (w(t \<mapsto> p)) e = entered q w e"
  by (auto simp: entered_def)

lemma no_tid_left: "unat (x :: u64) + n < 2 ^ 64 - 1 \<Longrightarrow> x < - 1"
  by (simp add: word_less_nat_alt unsigned_minus_1_eq_mask mask_eq_exp_minus_1)

text \<open>The queue without the work item that starts.\<close>

lemma race_core_started:
  assumes "race_core H q km w e" and t: "t \<in> set (task_wq q)" and q0: "q0 = q\<lparr>task_wq := remove1 t (task_wq q)\<rparr>"
  shows "\<exists>es. reqs_inv H es (entered q0 w e) q0 km" "halves_ok q0 km (dom w) (entered q0 w e)" "waiting_ok q0 km (pdus q0 t)"
    "t \<notin> set (inflight_reqs q0) \<union> dom w \<union> dom e \<union> set (task_wq q0)" "places_ok q0 w e"
    "unat (q_req_tid q0) + length (task_wq q0) + card (dom w) + 1 < 2 ^ 64 - 1"
proof -
  have c: "\<exists>es. reqs_inv H es (entered q w e) q km" "halves_ok q km (dom w) (entered q w e)" "places_ok q w e"
    using assms(1) by (auto simp: race_core_def)
  have en: "entered q0 w e = entered q w e" by (simp add: entered_def q0)
  have "reqs_inv H es T q0 km = reqs_inv H es T q km" for es T by (rule reqs_inv_cong) (simp_all add: q0)
  then show "\<exists>es. reqs_inv H es (entered q0 w e) q0 km" using c(1) en by simp
  show "halves_ok q0 km (dom w) (entered q0 w e)" unfolding en
    by (rule halves_frame [OF c(2)]) (use set_remove1_subset [of t "task_wq q"] in \<open>auto simp: q0 pages_frame_refl\<close>)
  show "waiting_ok q0 km (pdus q0 t)" using c(2) t
    by (auto simp: q0 halves_ok_def waiting_ok_def rq_wf_def bio_ok_def)
  have d: "distinct (task_wq q)" using c(3) by (simp add: places_ok_def)
  then show "t \<notin> set (inflight_reqs q0) \<union> dom w \<union> dom e \<union> set (task_wq q0)" using c(3) t by (auto simp: q0 places_ok_def)
  have l: "length (task_wq q) = length (task_wq q0) + 1" using t by (simp add: q0 length_remove1) (metis Suc_pred length_pos_if_in_set)
  then show "unat (q_req_tid q0) + length (task_wq q0) + card (dom w) + 1 < 2 ^ 64 - 1" using c(3) by (simp add: q0 places_ok_def)
  then show "places_ok q0 w e" using c(3) d by (auto simp: q0 places_ok_def)
qed

lemma race_core_tell: "race_core H (blk_tell ev q) km w e = race_core H q km w e"
proof -
  have "reqs_inv H es T (blk_tell ev q) km = reqs_inv H es T q km" for es T by (rule queue_inv_upd(3))
  moreover have "entered (blk_tell ev q) w e = entered q w e" "places_ok (blk_tell ev q) w e = places_ok q w e"
    "halves_ok (blk_tell ev q) km W T = halves_ok q km W T" for W T
    by (simp_all add: entered_def places_ok_def halves_ok_def half_ok_def waiting_ok_def rq_wf_def bio_ok_def blk_tell_def)
  ultimately show ?thesis by (simp add: race_core_def)
qed

text \<open>A request the others do not know may change.\<close>

lemma halves_pdu:
  assumes "halves_ok q km W T" and "t \<notin> W \<union> T \<union> set (task_wq q)"
  shows "halves_ok (q\<lparr>pdus := (pdus q)(t := r)\<rparr>) km W T"
  by (rule halves_frame [OF assms(1)]) (use assms(2) in \<open>auto simp: pages_frame_refl\<close>)

lemma halves_add:
  assumes "halves_ok q km W T" and t: "t \<notin> W \<union> T \<union> set (task_wq q)" and "half_ok q km r"
    and "\<forall>u \<in> W \<union> T. owned r \<inter> owned (pdus q u) = {}"
  shows "halves_ok (q\<lparr>pdus := (pdus q)(t := r)\<rparr>) km (insert t W) T"
proof -
  let ?q = "q\<lparr>pdus := (pdus q)(t := r)\<rparr>"
  have h: "halves_ok ?q km W T" by (rule halves_pdu [OF assms(1) t])
  have pd: "pdus ?q u = pdus q u" if "u \<in> W \<union> T" for u using that t by auto
  have "half_ok ?q km r" using assms(3) by (simp add: half_ok_def rq_wf_def bio_ok_def)
  moreover have "owned (pdus ?q u) \<inter> owned (pdus ?q v) = {}" if "u \<in> insert t W" "v \<in> insert t W \<union> T" "u \<noteq> v" for u v
    using that assms(4) pd h unfolding halves_ok_def by (cases "u = t"; cases "v = t") auto
  ultimately show ?thesis using h unfolding halves_ok_def by auto
qed

lemma used_slots:
  assumes "reqs_inv H es T q km" and "halves_ok q km W T" and "u \<in> W \<union> T" and "i \<in> owned (pdus q u)"
  shows "i < length (data_bitmap q) \<and> data_bitmap q ! i"
  using assms by (auto simp: reqs_inv_def req_ok_def halves_ok_def half_ok_def)

lemma begin_prepared:
  assumes ri: "reqs_inv H es (entered q w e) q km" and h: "halves_ok q km (dom w) (entered q w e)" and wt: "waiting_ok q km (pdus q t)"
    and t: "t \<notin> set (inflight_reqs q) \<union> dom w \<union> dom e \<union> set (task_wq q)" and pl: "places_ok q w e"
    and tid: "unat (q_req_tid q) + length (task_wq q) + card (dom w) + 1 < 2 ^ 64 - 1"
    and p1: "pool_inv {} q1 km1" and pr: "prep_ok (pdus q t) q km r1 q1 km1"
  shows "race_core H (q1\<lparr>pdus := (pdus q1)(t := r1)\<rparr>) km1 (w(t \<mapsto> Prepared)) e"
proof -
  let ?T = "entered q w e" and ?q = "q1\<lparr>pdus := (pdus q1)(t := r1)\<rparr>"
  have fr: "pool_frame q q1" and prr: "prep_req (pdus q t) r1" using pr by (simp_all add: prep_ok_def)
  note f = queue_frameD [OF fr] and pf = prep_frame [OF pr]
  have tT: "t \<notin> dom w \<union> ?T \<union> set (task_wq q1)" using t f(9) by (auto simp: entered_def)
  have bm: "length (data_bitmap q1) = length (data_bitmap q)" "\<forall>i < length (data_bitmap q). data_bitmap q ! i \<longrightarrow> data_bitmap q1 ! i"
    "\<forall>i \<in> owned r1. i < length (data_bitmap q) \<and> \<not> data_bitmap q ! i \<and> data_bitmap q1 ! i"
    using pr by (auto simp: prep_ok_def)
  have ri1: "reqs_inv H es ?T q1 km1" by (rule reqs_inv_grow [OF ri fr p1 bm(1,2)]) (rule bio_ok_prepared [OF pr])
  have h1: "halves_ok q1 km1 (dom w) ?T" by (rule halves_frame [OF h pf bm(1)]) (use f bm(2) used_slots [OF ri h] in auto)
  have "rq_wf q km (pdus q t)" using wt by (simp add: waiting_ok_def)
  then have "rq_wf q1 km1 r1" using rq_wf_frame [OF _ pf] prr by (simp add: rq_wf_def prep_req_def data_req_def bio_ok_def rq_segs_def)
  moreover have "prep_req r1 r1" using prep_req_self(1) [OF prr, where r' = r1 and x = "ur_tid r1" and y = "ur_se r1"] by simp
  moreover have "ur_tid r1 = 0" using prr wt by (simp add: prep_req_def waiting_ok_def)
  ultimately have "half_ok q1 km1 r1" using bm by (auto simp: half_ok_def)
  moreover have "\<forall>u \<in> dom w \<union> ?T. owned r1 \<inter> owned (pdus q1 u) = {}" using used_slots [OF ri h] bm(3) f(4) by fastforce
  ultimately have "halves_ok ?q km1 (insert t (dom w)) ?T" using halves_add [OF h1 tT] by blast
  moreover have "entered ?q (w(t \<mapsto> Prepared)) e = ?T" using t f(3) by (auto simp: entered_def)
  moreover have "places_ok ?q (w(t \<mapsto> Prepared)) e" using t pl tid f(2,3,9) by (auto simp: places_ok_def card_insert_if)
  ultimately show ?thesis unfolding race_core_def using reqs_inv_pdu [OF ri1, of t r1] tT by auto
qed

lemma begin_refused:
  assumes ri: "reqs_inv H es (entered q w e) q km" and h: "halves_ok q km (dom w) (entered q w e)"
    and t: "t \<notin> set (inflight_reqs q) \<union> dom w \<union> dom e \<union> set (task_wq q)" and pl: "places_ok q w e"
    and p1: "pool_inv {} q1 km1" and un: "unchanged_use r0 q km r1 q1 km1"
  shows "race_core H (q1\<lparr>pdus := (pdus q1)(t := r1)\<rparr>) km1 w e"
proof -
  let ?T = "entered q w e" and ?q = "q1\<lparr>pdus := (pdus q1)(t := r1)\<rparr>"
  have fr: "pool_frame q q1" and bm: "data_bitmap q1 = data_bitmap q" using un by (simp_all add: unchanged_use_def)
  note f = queue_frameD [OF fr]
  have tT: "t \<notin> dom w \<union> ?T \<union> set (task_wq q1)" using t f(9) by (auto simp: entered_def)
  have ri1: "reqs_inv H es ?T q1 km1" by (rule reqs_inv_grow [OF ri fr p1]) (use bm bio_ok_unchanged [OF un] in auto)
  have "halves_ok q1 km1 (dom w) ?T" by (rule halves_frame [OF h unchanged_frame [OF un]]) (use f bm in auto)
  then have "halves_ok ?q km1 (dom w) ?T" using tT by (rule halves_pdu)
  moreover have "entered ?q w e = ?T" "places_ok ?q w e" using f(2,3,9) pl by (simp_all add: entered_def places_ok_def)
  ultimately show ?thesis unfolding race_core_def using reqs_inv_pdu [OF ri1, of t r1] tT by auto
qed

lemma begin_ok:
  assumes inv: "race_core H q km w e" and t: "t \<in> set (task_wq q)"
  shows "\<exists>go q' km' evs. work_begin t (q\<lparr>task_wq := remove1 t (task_wq q)\<rparr>) km = Some (go, q', km') \<and>
    race_core H q' km' (if go then w(t \<mapsto> Prepared) else w) e \<and> compr_same q q' \<and> inflight_reqs q' = inflight_reqs q \<and>
    task_wq q' = remove1 t (task_wq q) \<and> blk_log q' = blk_log q @ evs \<and> list_all is_answer evs \<and> map ev_tag evs = (if go then [] else [t])"
proof -
  define q0 where "q0 = q\<lparr>task_wq := remove1 t (task_wq q)\<rparr>"
  note st = race_core_started [OF inv t q0_def]
  obtain es where ri: "reqs_inv H es (entered q0 w e) q0 km" using st(1) by blast
  have same: "compr_same q q0" "inflight_reqs q0 = inflight_reqs q" "task_wq q0 = remove1 t (task_wq q)" "blk_log q0 = blk_log q"
    by (simp_all add: q0_def compr_same_def)
  have told: "race_core H q' km' w e \<Longrightarrow> compr_same q q' \<Longrightarrow> inflight_reqs q' = inflight_reqs q \<Longrightarrow> task_wq q' = remove1 t (task_wq q) \<Longrightarrow>
      blk_log q' = blk_log q \<Longrightarrow> work_begin t q0 km = Some (False, workfn_end_request t ret q', km') \<Longrightarrow> ?thesis" for q' km' ret
    by (intro exI [of _ False] exI [of _ "workfn_end_request t ret q'"] exI [of _ km']
        exI [of _ "[if ret = - ENOMEM \<or> ret = - EBUSY then Requeued t else Ended t ret]"])
      (auto simp: workfn_end_request_def race_core_tell q0_def, auto simp: blk_tell_def compr_same_def)
  show ?thesis
  proof (cases "workfn_status q0 = 0")
    case False
    then have "work_begin t q0 km = Some (False, workfn_end_request t (workfn_status q0) q0, km)" by (simp add: work_begin_def)
    moreover have "race_core H q0 km w e" using ri st(2,5) by (auto simp: race_core_def)
    ultimately show ?thesis using told same by blast
  next
    case True
    have p: "pool_inv {} q0 km" "inode_set q0" using ri by (simp_all add: reqs_inv_def)
    have r: "pi_ok (pdus q0 t)" "ur_pi (pdus q0 t) = None" "rq_wf q0 km (pdus q0 t)" using st(3) by (simp_all add: waiting_ok_def)
    show ?thesis
    proof (cases rule: prepare_cases [OF p r])
      case (1 r1 q1 km1)
      note f = queue_frameD [of q0 q1]
      let ?q = "q1\<lparr>pdus := (pdus q1)(t := r1)\<rparr>"
      have "race_core H ?q km1 (w(t \<mapsto> Prepared)) e" by (rule begin_prepared [OF ri st(2-6) 1(2,3)])
      moreover have "work_begin t q0 km = Some (True, ?q, km1)" using True 1(1) by (simp add: work_begin_def workfn_prepare_def)
      ultimately show ?thesis using same f 1(3)
        by (intro exI [of _ True] exI [of _ ?q] exI [of _ km1] exI [of _ "[]"]) (simp add: q0_def compr_same_def prep_ok_def)
    next
      case (2 r1 q1 km1)
      then obtain r0 where un: "unchanged_use r0 q0 km r1 q1 km1" by blast
      note f = queue_frameD [of q0 q1]
      let ?q = "q1\<lparr>pdus := (pdus q1)(t := r1)\<rparr>"
      have "race_core H ?q km1 w e" by (rule begin_refused [OF ri st(2,4,5) 2(2) un])
      moreover have "work_begin t q0 km = Some (False, workfn_end_request t (- ENOMEM) ?q, km1)"
        using True 2(1) by (simp add: work_begin_def workfn_prepare_def)
      ultimately show ?thesis using told [of ?q km1 "- ENOMEM"] same f un by (simp add: compr_same_def unchanged_use_def)
    qed
  qed
qed

lemma list_ok:
  assumes inv: "race_core H q km w e" and t: "w t = Some Prepared"
  shows "race_core H (workfn_inflight t q) km (w(t \<mapsto> Listed)) e"
proof -
  let ?q = "workfn_inflight t q" and ?w = "w(t \<mapsto> Listed)"
  have pl: "places_ok q w e" using inv by (simp add: race_core_def)
  have d: "dom ?w = dom w" using t by auto
  have en: "entered ?q ?w e = entered q w e" using t by (auto simp: entered_def workfn_inflight_def)
  have "t \<in> dom w" "w t \<noteq> Some Listed" using t by auto
  then have n: "t \<notin> set (inflight_reqs q)" "t \<notin> dom e" "t \<notin> set (task_wq q)" using pl unfolding places_ok_def by blast+
  have "reqs_inv H es T ?q km" if "reqs_inv H es T q km" for es T
    using queue_inv_upd(2) [OF that] by (simp add: workfn_inflight_def)
  moreover have "halves_ok ?q km W T = halves_ok q km W T" for W T
    by (simp add: halves_ok_def half_ok_def waiting_ok_def rq_wf_def bio_ok_def workfn_inflight_def)
  moreover have "places_ok ?q ?w e" using pl n t d unfolding places_ok_def d by (auto simp: workfn_inflight_def)
  ultimately show ?thesis using inv unfolding race_core_def d en by auto
qed

lemma halves_sub: "halves_ok q km W T \<Longrightarrow> W' \<subseteq> W \<Longrightarrow> T' \<subseteq> T \<Longrightarrow> halves_ok q km W' T'"
  unfolding halves_ok_def by blast

lemma submit_race_ok:
  assumes inv: "race_core H q km w e" and t: "w t = Some Listed"
  shows "\<exists>q' evs. workfn_submit H t q = Some q' \<and> race_core H q' km (w(t := None)) e \<and> compr_same q q' \<and> task_wq q' = task_wq q \<and>
    blk_log q' = blk_log q @ evs \<and> (evs = [] \<and> inflight_reqs q' = inflight_reqs q \<or> evs = [Requeued t] \<and> inflight_reqs q' = remove1 t (inflight_reqs q))"
proof -
  let ?T = "entered q w e" and ?w = "w(t := None)" and ?r = "pdus q t"
  obtain es where ri: "reqs_inv H es ?T q km" using inv by (auto simp: race_core_def)
  have h: "halves_ok q km (dom w) ?T" and pl: "places_ok q w e" using inv by (simp_all add: race_core_def)
  have tw: "t \<in> dom w" "t \<in> set (inflight_reqs q)" "t \<notin> dom e" "t \<notin> set (task_wq q)" using pl t by (auto simp: places_ok_def)
  then have tT: "t \<notin> ?T" by (simp add: entered_def)
  have hf: "half_ok q km ?r" using h tw(1) by (simp add: halves_ok_def)
  have card: "card (dom ?w) + 1 = card (dom w)" 
  proof -
    have "finite (dom w)" using pl by (simp add: places_ok_def)
    then have "Suc (card (dom w - {t})) = card (dom w)" using tw(1) by (rule card_Suc_Diff1)
    then show ?thesis by simp
  qed
  have tid: "q_req_tid q < - 1" "unat (q_req_tid q) + 1 < 2 ^ 64" using pl no_tid_left [of "q_req_tid q"] by (auto simp: places_ok_def add.assoc)
  show ?thesis
  proof (cases "submit_ring_space_enough H q (ubbd_get_cmd_size H ?r)")
    case False
    let ?q = "q\<lparr>inflight_reqs := remove1 t (inflight_reqs q)\<rparr>"
    have run: "workfn_submit H t q = Some (blk_tell (Requeued t) ?q)" using False by (simp add: workfn_submit_def workfn_end_request_def)
    have en: "entered ?q ?w e = ?T" using pl tw by (auto simp: entered_def places_ok_def)
    have "halves_ok ?q km (dom ?w) ?T"
      by (rule halves_frame [OF halves_sub [OF h, of "dom ?w" ?T]]) (auto simp: pages_frame_refl)
    moreover have "places_ok ?q ?w e" using pl tw card by (auto simp: places_ok_def)
    ultimately have "race_core H ?q km ?w e" unfolding race_core_def en using queue_inv_upd(2) [OF ri] by auto
    then show ?thesis using run
      by (intro exI [of _ "blk_tell (Requeued t) ?q"] exI [of _ "[Requeued t]"]) (simp add: race_core_tell, simp add: blk_tell_def compr_same_def)
  next
    case True
    have ow: "owned ?r \<subseteq> {i. i < length (data_bitmap q) \<and> data_bitmap q ! i}" "prep_req ?r ?r" "rq_wf q km ?r" using hf by (auto simp: half_ok_def)
    have dis: "\<forall>u \<in> ?T. owned ?r \<inter> owned (pdus q u) = {}" using halves_apart [OF h tw(1)] tT by (metis UnCI)
    obtain q' pads r off where s: "workfn_submit H t q = Some q'" "r = ?r\<lparr>ur_tid := q_req_tid q + 1, ur_se := Some off\<rparr>"
        "reqs_inv H (es @ pads @ [se_of H q r]) (insert t ?T) q' km" "pdus q' = (pdus q)(t := r)" "q_req_tid q' = q_req_tid q + 1"
        "blk_log q' = blk_log q" "inflight_reqs q' = inflight_reqs q" "data_bitmap q' = data_bitmap q" "data_pages_array q' = data_pages_array q"
        "task_wq q' = task_wq q" "compr_same q q'"
      using submit_ok [OF ri tT tid(1) ow(2,3,1) dis True] by blast
    have en: "entered q' ?w e = insert t ?T" using tw s(7) by (auto simp: entered_def)
    have "ur_tid r \<noteq> 0" "unat (q_req_tid q + 1) = unat (q_req_tid q) + 1"
      using tid(2) s(2) unat_add_lem [of "q_req_tid q" 1] by (auto simp: word_unat_eq_iff)
    note nz = this
    have own: "owned r = owned ?r" using prep_req_self(2) [OF ow(2) s(2)] .
    have h1: "halves_ok q' km (dom ?w) ?T"
      by (rule halves_frame [OF halves_sub [OF h, of "dom ?w" ?T]]) (use s tw tT in \<open>auto simp: pages_frame_refl\<close>)
    moreover have "owned (pdus q' u) \<inter> owned (pdus q' t) = {}" if "u \<in> dom ?w" for u
    proof -
      have "u \<in> dom w" "u \<noteq> t" using that by auto
      then have "owned (pdus q u) \<inter> owned ?r = {}" using halves_apart [OF h] tw(1) by blast
      then show ?thesis using \<open>u \<noteq> t\<close> s(4) own by simp
    qed
    ultimately have "halves_ok q' km (dom ?w) (insert t ?T)" using nz(1) s(4) unfolding halves_ok_def by auto
    moreover have "places_ok q' ?w e" using pl s(5,7,10) nz(2) card tw unfolding places_ok_def by (auto; linarith)
    ultimately have "race_core H q' km ?w e" unfolding race_core_def en using s(3) by blast
    then show ?thesis using s by (intro exI [of _ q'] exI [of _ "[]"]) simp
  qed
qed

section \<open>Completers and forced ends\<close>

lemma race_core_cong:
  assumes "cmdr_size q' = cmdr_size q" "cmd_head q' = cmd_head q" "cmd_tail q' = cmd_tail q" "cmdr_mem q' = cmdr_mem q"
    "data_bitmap q' = data_bitmap q" "data_pages q' = data_pages q" "data_pages_array q' = data_pages_array q"
    "data_pages_allocated q' = data_pages_allocated q" "inode_set q' = inode_set q" "pdus q' = pdus q" "q_req_tid q' = q_req_tid q"
    "task_wq q' = task_wq q" and e: "entered q' w e' = entered q w e" "places_ok q w e \<Longrightarrow> places_ok q' w e'"
  shows "race_core H q km w e \<Longrightarrow> race_core H q' km w e'"
  using reqs_inv_cong [OF assms(1-11)] assms(5,7,10,12) e
  by (simp add: race_core_def halves_ok_def half_ok_def waiting_ok_def rq_wf_def bio_ok_def)

lemma fetch_ok:
  assumes inv: "race_core H q km w e" and id: "x \<noteq> 0" and f: "fetch_inflight_req x q = (Some t, q')"
  shows "race_core H q' km w (e(t \<mapsto> cause))" "t \<in> set (inflight_reqs q)" "t \<notin> dom w" "compr_same q q'"
    "inflight_reqs q' = remove1 t (inflight_reqs q)" "task_wq q' = task_wq q" "blk_log q' = blk_log q"
proof -
  have fd: "find (\<lambda>tag. ur_tid (pdus q tag) = x) (inflight_reqs q) = Some t" using f
    by (auto simp: fetch_inflight_req_def Let_def split: option.splits)
  then have t: "t \<in> set (inflight_reqs q)" "ur_tid (pdus q t) = x" by (auto simp: find_Some_iff)
  then show "t \<in> set (inflight_reqs q)" by simp
  show w: "t \<notin> dom w" using inv id t(2) by (auto simp: race_core_def halves_ok_def half_ok_def)
  show q': "compr_same q q'" "inflight_reqs q' = remove1 t (inflight_reqs q)" "task_wq q' = task_wq q" "blk_log q' = blk_log q"
    using f fd by (auto simp: fetch_inflight_req_def compr_same_def Let_def)
  have pl: "places_ok q w e" using inv by (simp add: race_core_def)
  have d: "distinct (inflight_reqs q)" using pl by (simp add: places_ok_def)
  show "race_core H q' km w (e(t \<mapsto> cause))"
  proof (rule race_core_cong [OF _ _ _ _ _ _ _ _ _ _ _ _ _ _ inv])
    show "entered q' w (e(t \<mapsto> cause)) = entered q w e" using t(1) w q'(2) d by (auto simp: entered_def)
    show "places_ok q' w (e(t \<mapsto> cause))"
      using pl t(1) w q'(2,3) d f fd by (auto simp: places_ok_def fetch_inflight_req_def Let_def)
  qed (use f fd in \<open>auto simp: fetch_inflight_req_def Let_def split: if_splits\<close>)
qed

lemma splice_ok:
  assumes "race_core H q km Map.empty e"
  shows "race_core H (q\<lparr>inflight_reqs := []\<rparr>) km Map.empty (\<lambda>t. if t \<in> set (inflight_reqs q) then Some (By_force ret) else e t)"
proof -
  have d: "dom (\<lambda>t. if t \<in> set (inflight_reqs q) then Some (By_force ret) else e t) = set (inflight_reqs q) \<union> dom e" by (auto split: if_splits)
  show ?thesis by (rule race_core_cong [OF _ _ _ _ _ _ _ _ _ _ _ _ _ _ assms]) (simp_all add: entered_def places_ok_def d Int_Un_distrib)
qed

lemma live_frame: "same_live km km' \<Longrightarrow> pages_frame q km q km'"
  by (auto simp: same_live_def pages_frame_def)

lemma race_core_live:
  assumes "race_core H q km w e" and "same_live km km'"
  shows "race_core H q km' w e"
proof -
  have "halves_ok q km (dom w) (entered q w e)" using assms(1) by (simp add: race_core_def)
  then have "halves_ok q km' (dom w) (entered q w e)" by (rule halves_frame [OF _ live_frame [OF assms(2)]]) simp_all
  then show ?thesis using assms(1) by (simp add: race_core_def reqs_inv_live [OF assms(2)])
qed

lemma end_one_ok:
  assumes inv: "race_core H q km w e" and t: "e t = Some cause"
  shows "\<exists>q' km'. complete_inflight_req H t ret q km = Some (q', km') \<and> race_core H q' km' w (e(t := None)) \<and> compr_same q q' \<and>
    inflight_reqs q' = inflight_reqs q \<and> task_wq q' = task_wq q \<and> blk_log q' = blk_log q @ [Ended t ret]"
proof -
  let ?T = "entered q w e" and ?e = "e(t := None)"
  obtain es where ri: "reqs_inv H es ?T q km" using inv by (auto simp: race_core_def)
  have h: "halves_ok q km (dom w) ?T" and pl: "places_ok q w e" using inv by (simp_all add: race_core_def)
  have tT: "t \<in> ?T" "t \<notin> dom w" "t \<notin> set (inflight_reqs q)" "t \<notin> set (task_wq q)" using pl t by (auto simp: entered_def places_ok_def)
  from complete_step [OF ri tT(1), of ret] obtain q' km' es' where
    s: "complete_inflight_req H t ret q km = Some (q', km')" "reqs_inv H es' (?T - {t}) q' km'"
      "blk_log q' = blk_log q @ [Ended t ret]" "queue_rest_eq q q'" "\<forall>u. u \<noteq> t \<longrightarrow> pdus q' u = pdus q u"
      "\<forall>i < length (data_bitmap q). data_bitmap q' ! i \<longleftrightarrow> data_bitmap q ! i \<and> i \<notin> owned (pdus q t)"
      "length (data_bitmap q') = length (data_bitmap q)" "pages_frame q km q' km'" by blast
  have rest: "inflight_reqs q' = inflight_reqs q" "task_wq q' = task_wq q" "q_req_tid q' = q_req_tid q" "compr_same q q'"
    using s(4) by (simp_all add: queue_rest_eq_def compr_same_def)
  have en: "entered q' w ?e = ?T - {t}" using rest(1) tT(3) by (auto simp: entered_def)
  have pd: "\<forall>u \<in> dom w \<union> (?T - {t}) \<union> set (task_wq q'). pdus q' u = pdus q u"
  proof
    fix u assume "u \<in> dom w \<union> (?T - {t}) \<union> set (task_wq q')"
    then have "u \<noteq> t" using tT(2,4) rest(2) by auto
    then show "pdus q' u = pdus q u" using s(5) by simp
  qed
  have "\<forall>u \<in> dom w. \<forall>i \<in> owned (pdus q u). data_bitmap q ! i \<longrightarrow> data_bitmap q' ! i"
  proof (intro ballI impI)
    fix u i assume u: "u \<in> dom w" "i \<in> owned (pdus q u)" "data_bitmap q ! i"
    have "owned (pdus q u) \<inter> owned (pdus q t) = {}" by (rule halves_apart [OF h u(1)]) (use u(1) tT(1,2) in auto)
    then show "data_bitmap q' ! i" using s(6) u used_slots [OF ri h, of u i] by auto
  qed
  then have "halves_ok q' km' (dom w) (?T - {t})"
    using halves_frame [OF halves_sub [OF h, of "dom w" "?T - {t}"] s(8,7) _ pd] rest(2) by simp
  moreover have "places_ok q' w ?e" using pl unfolding places_ok_def rest(1-3) by auto
  ultimately have "race_core H q' km' w ?e" unfolding race_core_def en using s(2) by blast
  then show ?thesis using s(1,3) rest by (intro exI [of _ q'] exI [of _ km']) simp
qed

lemma end_ok:
  assumes inv: "race_core H q km w e" and t: "e t = Some cause"
  shows "\<exists>q' km' ret. end_fetched H t cause q km = Some (q', km') \<and> race_core H q' km' w (e(t := None)) \<and> compr_same q q' \<and>
    inflight_reqs q' = inflight_reqs q \<and> task_wq q' = task_wq q \<and> blk_log q' = blk_log q @ [Ended t ret]"
proof (cases cause)
  case (By_force ret)
  then show ?thesis using end_one_ok [OF inv t, of ret] by (auto simp: end_fetched_def)
next
  case (By_entry off)
  obtain es where ri: "reqs_inv H es (entered q w e) q km" using inv by (auto simp: race_core_def)
  have "t \<in> entered q w e" using t by (auto simp: entered_def)
  from complete_read [OF ri this] obtain km1 where c: "(if rq_op (ur_req (pdus q t)) = REQ_OP_READ
      then copy_data_from_ubbdreq q (pdus q t) km else Some km) = Some km1" "same_live km km1" by blast
  have "race_core H q km1 w e" by (rule race_core_live [OF inv c(2)])
  from end_one_ok [OF this t, of "ce_result (compr_mem q off)"] show ?thesis using By_entry c(1) by (auto simp: end_fetched_def)
qed

section \<open>All threads together\<close>

definition entries_ok :: "ubbd_h \<Rightarrow> ubbd_queue \<Rightarrow> nat list \<Rightarrow> bool" where
  "entries_ok H q c \<longleftrightarrow> (\<exists>n. compr_ok H n q \<and> (\<forall>ce \<in> set (ce_list H n q). ce_priv_data ce \<noteq> 0)) \<and> (\<forall>off \<in> set c. ce_priv_data (compr_mem q off) \<noteq> 0)"

definition race_inv :: "ubbd_h \<Rightarrow> race_state \<Rightarrow> bool" where
  "race_inv H = (\<lambda>(q, km, w, c, e, g). race_core H q km w e \<and> entries_ok H q c \<and> g = mset_set (held q w e) + answers q)"

definition race_init :: "ubbd_h \<Rightarrow> race_state \<Rightarrow> bool" where
  "race_init H = (\<lambda>(q, km, w, c, e, g). io_init H (q, km, g) \<and> w = Map.empty \<and> c = [] \<and> e = Map.empty)"

lemma entries_same: "compr_same q q' \<Longrightarrow> entries_ok H q c \<Longrightarrow> entries_ok H q' c"
  unfolding entries_ok_def compr_ok_def compr_same_def ce_list_def by auto

lemma held_finite: "race_core H q km w e \<Longrightarrow> finite (held q w e)"
  by (simp add: race_core_def places_ok_def held_def)

text \<open>A step that answers the requests it lets go of keeps the account.\<close>

lemma account_step:
  assumes "finite (held q w e)" and "blk_log q' = blk_log q @ evs" and "list_all is_answer evs"
    and "held q' w' e' = held q w e - set (map ev_tag evs)" and "set (map ev_tag evs) \<subseteq> held q w e" and "distinct (map ev_tag evs)"
  shows "mset_set (held q' w' e') + answers q' = mset_set (held q w e) + answers q"
proof -
  let ?X = "set (map ev_tag evs)"
  have "mset_set (held q w e) = mset_set (held q w e - ?X) + mset_set ?X"
    using mset_set_Union [of "held q w e - ?X" ?X] assms(1) Diff_disjoint [of ?X "held q w e"] Diff_partition [OF assms(5)]
    by (simp add: Un_commute Int_commute)
  moreover have "mset_set ?X = mset (map ev_tag evs)" by (rule mset_set_set [OF assms(6)])
  moreover have "answers q' = answers q + mset (map ev_tag evs)" by (rule answers_log [OF assms(2,3)])
  ultimately show ?thesis using assms(4) by simp
qed

lemma race_rq_ok:
  assumes inv: "race_inv H (q, km, w, c, e, g)" and given: "rq_given H tag rq q km" and tag: "tag \<notin> held q w e"
    and tid: "unat (q_req_tid q) + length (task_wq q) + card (dom w) + 1 < 2 ^ 64 - 1" and rq: "ubbd_queue_rq H tag rq q = (st, q')"
  shows "race_inv H (q', km, w, c, e, if st = BLK_STS_OK then add_mset tag g else g)"
proof -
  have core: "race_core H q km w e" and en: "entries_ok H q c" and g: "g = mset_set (held q w e) + answers q"
    using inv by (simp_all add: race_inv_def)
  obtain es where ri: "reqs_inv H es (entered q w e) q km" using core by (auto simp: race_core_def)
  have h: "halves_ok q km (dom w) (entered q w e)" and pl: "places_ok q w e" using core by (simp_all add: race_core_def)
  have n: "tag \<notin> entered q w e" "tag \<notin> dom w \<union> entered q w e \<union> set (task_wq q)" using tag by (auto simp: entered_def held_def)
  have pd: "race_core H (q\<lparr>pdus := (pdus q)(tag := r)\<rparr>) km w e" for r
    using reqs_inv_pdu [OF ri n(1), of r] halves_pdu [OF h n(2), of r] pl
    by (auto simp: race_core_def entered_def places_ok_def)
  from rq show ?thesis
  proof (cases rule: rq_shape)
    case refused
    then show ?thesis using inv by simp
  next
    case unknown
    have "race_core H q' km w e" 
      using pd [of "zero_ur H rq"] race_core_tell [of H "Started tag" "q\<lparr>pdus := (pdus q)(tag := zero_ur H rq)\<rparr>"] unknown(2) by (simp add: blk_tell_def)
    moreover have "entries_ok H q' c" by (rule entries_same [OF _ en]) (simp add: unknown(2) compr_same_def)
    ultimately show ?thesis using g unknown by (simp add: race_inv_def held_def answers_def)
  next
    case (taken oc)
    let ?r = "(zero_ur H rq)\<lparr>ur_req := rq, ur_op := oc\<rparr>"
    let ?q = "q\<lparr>pdus := (pdus q)(tag := ?r)\<rparr>"
    have c1: "race_core H ?q km w e" by (rule pd)
    have "fresh_req tag (q\<lparr>blk_log := blk_log q @ [Started tag], pdus := (pdus q)(tag := ?r)\<rparr>) km" by (rule rq_fresh [OF given taken(2-4)])
    then have wt: "waiting_ok q' km (pdus q' tag)" unfolding taken(5)
      by (simp add: fresh_req_def waiting_ok_def rq_wf_def bio_ok_def zero_ur_def)
    obtain es' where "reqs_inv H es' (entered ?q w e) ?q km" using c1 by (auto simp: race_core_def)
    moreover have "reqs_inv H es' T q' km = reqs_inv H es' T ?q km" for T by (rule reqs_inv_cong) (simp_all add: taken(5))
    moreover have "entered q' w e = entered ?q w e" by (simp add: entered_def taken(5))
    moreover have "halves_ok q' km (dom w) (entered ?q w e)" using c1 wt unfolding race_core_def halves_ok_def
      by (auto simp: taken(5) half_ok_def waiting_ok_def rq_wf_def bio_ok_def)
    moreover have "places_ok q' w e" using pl tag tid by (auto simp: places_ok_def held_def taken(5))
    ultimately have "race_core H q' km w e" by (auto simp: race_core_def)
    moreover have "entries_ok H q' c" by (rule entries_same [OF _ en]) (simp add: taken(5) compr_same_def)
    moreover have "held q' w e = insert tag (held q w e)" "answers q' = answers q" by (auto simp: held_def taken(5) answers_def)
    ultimately show ?thesis using g taken(1) tag held_finite [OF core] by (simp add: race_inv_def)
  qed
qed

lemma take_ok:
  assumes "entries_ok H q c" and "ubbd_h_ok H" and "take_entry H q = Some (off, q')"
  shows "entries_ok H q' (off # c)"
proof -
  obtain n where n: "compr_ok H n q" "\<forall>ce \<in> set (ce_list H n q). ce_priv_data ce \<noteq> 0" using assms(1) by (auto simp: entries_ok_def)
  show ?thesis
  proof (cases n)
    case 0
    then have "get_complete_entry q = None" using n(1) by (auto simp: compr_ok_def get_complete_entry_def word_unat_eq_iff)
    then show ?thesis using assms(3) by (simp add: take_entry_def)
  next
    case (Suc m)
    note st = compr_step [OF assms(2) n(1) [unfolded Suc]]
    have "off = unat (compr_tail q)" "q' = q\<lparr>compr_tail := UPDATE_COMPR_TAIL (compr_tail q) (sizeof_ce H) (compr_size q)\<rparr>"
      using assms(3) st(1) by (simp_all add: take_entry_def)
    then show ?thesis using st(2,3) n(2) assms(1) unfolding Suc entries_ok_def by auto
  qed
qed

lemma race_init_ok: "race_init H s \<Longrightarrow> race_inv H s"
proof -
  assume "race_init H s"
  then obtain c km where c: "ubbd_h_ok H" "fresh_core H (data_pages c) c" "unat (data_pages c) < 2 ^ 31" "dom (km_pages km) \<subseteq> {..<km_next km}"
      "s = (snd (ubbd_kring_dev_open c), km, Map.empty, [], Map.empty, {#})"
    by (cases s) (auto simp: race_init_def io_init_def ubbd_kring_dev_open_def)
  let ?q = "snd (ubbd_kring_dev_open c)"
  note f = fresh_core_inv [OF c(1-4)]
  have emp: "inflight_reqs ?q = []" "task_wq ?q = []" "q_req_tid ?q = 0" "blk_log ?q = []"
    using c(2) by (simp_all add: fresh_core_def ubbd_kring_dev_open_def)
  have "reqs_inv H [] {} ?q km" using f(1) emp(1) by (simp add: queue_inv_def)
  then have "race_core H ?q km Map.empty Map.empty" using emp by (auto simp: race_core_def entered_def halves_ok_def places_ok_def)
  moreover have "entries_ok H ?q []" using f(2) by (auto simp: entries_ok_def ce_list_def)
  ultimately show ?thesis using c(5) emp by (simp add: race_inv_def held_def answers_def)
qed

lemma race_inv_parts:
  assumes "race_inv H (q, km, w, c, e, g)"
  shows "race_core H q km w e" "entries_ok H q c" "g = mset_set (held q w e) + answers q" "finite (held q w e)" "ubbd_h_ok H" "places_ok q w e"
proof -
  show core: "race_core H q km w e" and "entries_ok H q c" "g = mset_set (held q w e) + answers q" using assms by (simp_all add: race_inv_def)
  show "finite (held q w e)" by (rule held_finite [OF core])
  show "ubbd_h_ok H" "places_ok q w e" using core by (auto simp: race_core_def reqs_inv_def ring_rep_def)
qed

lemma race_begin_ok:
  assumes inv: "race_inv H (q, km, w, c, e, g)" and t: "t \<in> set (task_wq q)"
  shows "\<exists>go q' km'. work_begin t (q\<lparr>task_wq := remove1 t (task_wq q)\<rparr>) km = Some (go, q', km') \<and>
    race_inv H (q', km', if go then w(t \<mapsto> Prepared) else w, c, e, g)"
proof -
  note i = race_inv_parts [OF inv]
  obtain go q' km' evs where b: "work_begin t (q\<lparr>task_wq := remove1 t (task_wq q)\<rparr>) km = Some (go, q', km')"
      "race_core H q' km' (if go then w(t \<mapsto> Prepared) else w) e" "compr_same q q'" "inflight_reqs q' = inflight_reqs q"
      "task_wq q' = remove1 t (task_wq q)" "blk_log q' = blk_log q @ evs" "list_all is_answer evs" "map ev_tag evs = (if go then [] else [t])"
    using begin_ok [OF i(1) t] by blast
  have "t \<notin> set (inflight_reqs q) \<union> dom w \<union> dom e" "distinct (task_wq q)" using i(6) t by (auto simp: places_ok_def)
  then have "held q' (if go then w(t \<mapsto> Prepared) else w) e = held q w e - set (map ev_tag evs)" "set (map ev_tag evs) \<subseteq> held q w e" "distinct (map ev_tag evs)"
    using b(4,5) t unfolding b(8) by (auto simp: held_def)
  from account_step [OF i(4) b(6,7) this] show ?thesis using b(1,2) entries_same [OF b(3) i(2)] i(3) by (auto simp: race_inv_def)
qed

lemma race_submit_ok:
  assumes inv: "race_inv H (q, km, w, c, e, g)" and t: "w t = Some Listed"
  shows "\<exists>q'. workfn_submit H t q = Some q' \<and> race_inv H (q', km, w(t := None), c, e, g)"
proof -
  note i = race_inv_parts [OF inv]
  obtain q' evs where b: "workfn_submit H t q = Some q'" "race_core H q' km (w(t := None)) e" "compr_same q q'" "task_wq q' = task_wq q"
      "blk_log q' = blk_log q @ evs"
      "evs = [] \<and> inflight_reqs q' = inflight_reqs q \<or> evs = [Requeued t] \<and> inflight_reqs q' = remove1 t (inflight_reqs q)"
    using submit_race_ok [OF i(1) t] by blast
  have tw: "t \<in> set (inflight_reqs q)" "t \<in> dom w" "t \<notin> set (task_wq q)" "t \<notin> dom e" "distinct (inflight_reqs q)"
    using i(6) t by (auto simp: places_ok_def)
  then have "held q' (w(t := None)) e = held q w e - set (map ev_tag evs)" "set (map ev_tag evs) \<subseteq> held q w e" "distinct (map ev_tag evs)"
      "list_all is_answer evs"
    using b(4,6) by (auto simp: held_def)
  from account_step [OF i(4) b(5) this(4,1,2,3)] show ?thesis using b(1,2) entries_same [OF b(3) i(2)] i(3) by (auto simp: race_inv_def)
qed

lemma race_end_ok:
  assumes inv: "race_inv H (q, km, w, c, e, g)" and t: "e t = Some cause"
  shows "\<exists>q' km'. end_fetched H t cause q km = Some (q', km') \<and> race_inv H (q', km', w, c, e(t := None), g)"
proof -
  note i = race_inv_parts [OF inv]
  obtain q' km' ret where b: "end_fetched H t cause q km = Some (q', km')" "race_core H q' km' w (e(t := None))" "compr_same q q'"
      "inflight_reqs q' = inflight_reqs q" "task_wq q' = task_wq q" "blk_log q' = blk_log q @ [Ended t ret]"
    using end_ok [OF i(1) t] by blast
  have "held q' w (e(t := None)) = held q w e - set (map ev_tag [Ended t ret])" "set (map ev_tag [Ended t ret]) \<subseteq> held q w e"
    using i(6) t b(4,5) by (auto simp: held_def places_ok_def)
  from account_step [OF i(4) b(6) _ this] show ?thesis using b(1,2) entries_same [OF b(3) i(2)] i(3) by (auto simp: race_inv_def)
qed

lemma race_fetch_ok:
  assumes inv: "race_inv H (q, km, w, c, e, g)" and off: "off \<in> set c" and f: "fetch_inflight_req (ce_priv_data (compr_mem q off)) q = (r, q')"
  shows "race_inv H (q', km, w, remove1 off c, case r of None \<Rightarrow> e | Some t \<Rightarrow> e(t \<mapsto> By_entry off), g)"
proof -
  note i = race_inv_parts [OF inv]
  have en: "entries_ok H q (remove1 off c)" using i(2) set_remove1_subset [of off c] by (auto simp: entries_ok_def)
  have id: "ce_priv_data (compr_mem q off) \<noteq> 0" using i(2) off by (simp add: entries_ok_def)
  show ?thesis
  proof (cases r)
    case None
    then have "q' = q" using f by (auto simp: fetch_inflight_req_def Let_def split: option.splits)
    then show ?thesis using i en None by (simp add: race_inv_def)
  next
    case (Some t)
    note b = fetch_ok [OF i(1) id f [unfolded Some]]
    have d: "distinct (inflight_reqs q)" using i(6) by (simp add: places_ok_def)
    have "held q' w (e(t \<mapsto> By_entry off)) = held q w e" using b(2,5,6) d by (auto simp: held_def)
    moreover have "answers q' = answers q" using b(7) by (simp add: answers_def)
    ultimately show ?thesis using Some b(1) entries_same [OF b(4) en] i(3) by (simp add: race_inv_def)
  qed
qed

text \<open>The other steps change nothing the account depends on.\<close>

lemma race_quiet:
  assumes inv: "race_inv H (q, km, w, c, e, g)" and "race_core H q' km' w' e'" and "entries_ok H q' c'"
    and "held q' w' e' = held q w e" and "blk_log q' = blk_log q"
  shows "race_inv H (q', km', w', c', e', g)"
  using race_inv_parts(3) [OF inv] assms(2-5) by (simp add: race_inv_def answers_def)

lemma race_core_upd:
  "race_core H q km w e \<Longrightarrow> race_core H (q\<lparr>q_status := st\<rparr>) km w e"
  "race_core H q km w e \<Longrightarrow> race_core H (q\<lparr>data_pages_reserved := r\<rparr>) km w e"
  "race_core H q km w e \<Longrightarrow> race_core H (q\<lparr>compr_tail := ct\<rparr>) km w e"
  "race_core H q km w e \<Longrightarrow> race_core H (q\<lparr>compr_head := ch, compr_mem := cm\<rparr>) km w e"
  by (rule race_core_cong; simp add: entered_def places_ok_def)+

lemma race_step_ok:
  assumes "race_step H s s'" and "race_inv H s" shows "race_inv H s'"
  using assms
proof (cases rule: race_step.cases)
  case (x_rq tag rq q km w e st q' c g)
  then show ?thesis using race_rq_ok assms(2) by blast
next
  case (x_begin t q km go q' km' w c e g)
  then show ?thesis using race_begin_ok [of H q km w c e g t] assms(2) by auto
next
  case (x_list w t q km c e g)
  then have inv: "race_inv H (q, km, w, c, e, g)" using assms(2) by simp
  have "held (workfn_inflight t q) (w(t \<mapsto> Listed)) e = held q w e" using x_list(3) by (auto simp: held_def workfn_inflight_def)
  moreover have "entries_ok H (workfn_inflight t q) c" by (rule entries_same [OF _ race_inv_parts(2) [OF inv]]) (simp add: workfn_inflight_def compr_same_def)
  ultimately show ?thesis unfolding x_list(2)
    by (intro race_quiet [OF inv list_ok [OF race_inv_parts(1) [OF inv] x_list(3)]]) (simp_all add: workfn_inflight_def)
next
  case (x_submit w t q q' km c e g)
  then show ?thesis using race_submit_ok [of H q km w c e g t] assms(2) by auto
next
  case (x_backend q' cm hd' q n km km' c w e g)
  then have inv: "race_inv H (q, km, w, c, e, g)" using assms(2) by simp
  have "race_core H q' km' w e"
    using race_core_live [OF race_core_upd(4) [OF race_inv_parts(1) [OF inv]] x_backend(5)] x_backend(3) by simp
  moreover have "entries_ok H q' c" using x_backend(3,4,6,7) by (auto simp: entries_ok_def)
  ultimately show ?thesis unfolding x_backend(2) by (rule race_quiet [OF inv]) (simp_all add: x_backend(3) held_def)
next
  case (x_take q off q' km w c e g)
  then have inv: "race_inv H (q, km, w, c, e, g)" using assms(2) by simp
  have q': "\<exists>ct. q' = q\<lparr>compr_tail := ct\<rparr>" using x_take(3) by (auto simp: take_entry_def)
  then have "race_core H q' km w e" "held q' w e = held q w e" "blk_log q' = blk_log q"
    using race_core_upd(3) [OF race_inv_parts(1) [OF inv]] by (auto simp: held_def)
  then show ?thesis unfolding x_take(2) using race_quiet [OF inv _ take_ok [OF race_inv_parts(2,5) [OF inv] x_take(3)]] by blast
next
  case (x_fetch off c q r q' km w e g)
  then show ?thesis using race_fetch_ok assms(2) by blast
next
  case (x_splice w q km c e g ret)
  then have inv: "race_inv H (q, km, Map.empty, c, e, g)" using assms(2) by simp
  show ?thesis unfolding x_splice(2,3)
    by (rule race_quiet [OF inv splice_ok [OF race_inv_parts(1) [OF inv]] entries_same [OF _ race_inv_parts(2) [OF inv]]])
      (auto simp: held_def compr_same_def split: if_splits)
next
  case (x_end e t cause q km q' km' w c g)
  then show ?thesis using race_end_ok [of H q km w c e g t cause] assms(2) by auto
next
  case (x_status q km w c e g st)
  then have inv: "race_inv H (q, km, w, c, e, g)" using assms(2) by simp
  show ?thesis unfolding x_status(2)
    by (rule race_quiet [OF inv race_core_upd(1) [OF race_inv_parts(1) [OF inv]] entries_same [OF _ race_inv_parts(2) [OF inv]]])
      (simp_all add: held_def compr_same_def)
next
  case (x_reserve q km w c e g r)
  then have inv: "race_inv H (q, km, w, c, e, g)" using assms(2) by simp
  show ?thesis unfolding x_reserve(2)
    by (rule race_quiet [OF inv race_core_upd(2) [OF race_inv_parts(1) [OF inv]] entries_same [OF _ race_inv_parts(2) [OF inv]]])
      (simp_all add: held_def compr_same_def)
qed

interpretation queue_races: step_invariant "race_init H" "race_step H" "race_inv H" for H
  by unfold_locales (auto intro: race_init_ok race_step_ok)


lemma queue_w_race: "reach (race_init H0) (race_step H0) (queue_w, km0 [], Map.empty, [], Map.empty, {#7#})"
proof -
  let ?q = "snd (ubbd_kring_dev_open core1)"
  have i: "race_init H0 (?q, km0 [], Map.empty, [], Map.empty, {#})" using core1_init by (simp add: race_init_def)
  have "race_step H0 (?q, km0 [], Map.empty, [], Map.empty, {#}) (queue_w, km0 [], Map.empty, [], Map.empty, {#7#})"
    using x_rq [OF queue_w_given _ _ queue_w_taken, of Map.empty Map.empty "[]" "{#}"]
    by (simp add: held_def ubbd_kring_dev_open_def core1_def zero_queue_def)
  moreover have "reach (race_init H0) (race_step H0) (?q, km0 [], Map.empty, [], Map.empty, {#})" using i by (rule reach_init)
  ultimately show ?thesis by (rule reach_step [rotated])
qed

lemma queue_w_begins: "map_option fst (work_begin 7 (queue_w\<lparr>task_wq := []\<rparr>) (km0 [])) = Some True"
  by code_simp


section \<open>The atomic operations are runs of sections\<close>

lemma work_run:
  assumes t: "t \<in> set (task_wq q)" "w t = None"
    and r: "ubbd_queue_workfn H t (q\<lparr>task_wq := remove1 t (task_wq q)\<rparr>) km = Some (q', km')"
  shows "(race_step H)\<^sup>*\<^sup>* (q, km, w, c, e, g) (q', km', w, c, e, g)"
proof -
  let ?q = "q\<lparr>task_wq := remove1 t (task_wq q)\<rparr>"
  obtain go q1 km1 where b: "work_begin t ?q km = Some (go, q1, km1)"
      "if go then workfn_submit H t (workfn_inflight t q1) = Some q' \<and> km' = km1 else q' = q1 \<and> km' = km1"
    using r by (auto simp: ubbd_queue_workfn_def work_begin_def split: if_splits bind_splits)
  have s1: "race_step H (q, km, w, c, e, g) (q1, km1, if go then w(t \<mapsto> Prepared) else w, c, e, g)" by (rule x_begin [OF t(1) b(1)])
  show ?thesis
  proof (cases go)
    case False
    then show ?thesis using s1 b(2) by auto
  next
    case True
    have "race_step H (q1, km1, w(t \<mapsto> Prepared), c, e, g) (workfn_inflight t q1, km1, w(t \<mapsto> Listed), c, e, g)"
      using x_list [of "w(t \<mapsto> Prepared)" t H q1 km1 c e g] by simp
    moreover have "race_step H (workfn_inflight t q1, km1, w(t \<mapsto> Listed), c, e, g) (q', km1, w, c, e, g)"
      using x_submit [of "w(t \<mapsto> Listed)" t H "workfn_inflight t q1" q' km1 c e g] True b(2) t(2) by (simp add: fun_upd_idem)
    ultimately show ?thesis using s1 True b(2) by (auto intro: converse_rtranclp_into_rtranclp)
  qed
qed

lemma complete_one_run:
  assumes o: "get_complete_entry q = Some off" and e: "\<forall>t \<in> set (inflight_reqs q). e t = None"
    and r: "complete_one H (compr_mem q off) (q\<lparr>compr_tail := UPDATE_COMPR_TAIL (compr_tail q) (sizeof_ce H) (compr_size q)\<rparr>) km = Some (q', km')"
  shows "(race_step H)\<^sup>*\<^sup>* (q, km, w, c, e, g) (q', km', w, c, e, g)"
proof -
  let ?q = "q\<lparr>compr_tail := UPDATE_COMPR_TAIL (compr_tail q) (sizeof_ce H) (compr_size q)\<rparr>"
  obtain x q1 where f: "fetch_inflight_req (ce_priv_data (compr_mem q off)) ?q = (x, q1)" by fastforce
  have s1: "race_step H (q, km, w, c, e, g) (?q, km, w, off # c, e, g)" using o by (intro x_take) (simp add: take_entry_def)
  have s2: "race_step H (?q, km, w, off # c, e, g) (q1, km, w, c, case x of None \<Rightarrow> e | Some t \<Rightarrow> e(t \<mapsto> By_entry off), g)"
    using x_fetch [of off "off # c" ?q x q1 H km w e g] f by simp
  show ?thesis
  proof (cases x)
    case None
    then have "q' = q1" "km' = km" using r f by (simp_all add: complete_one_def)
    then show ?thesis using s1 s2 None by (auto intro: converse_rtranclp_into_rtranclp)
  next
    case (Some t)
    then have fd: "find (\<lambda>tag. ur_tid (pdus q tag) = ce_priv_data (compr_mem q off)) (inflight_reqs q) = Some t"
      using f by (auto simp: fetch_inflight_req_def Let_def split: option.splits)
    then have m: "compr_mem q1 = compr_mem q" using f by (auto simp: fetch_inflight_req_def Let_def)
    have "e t = None" using fd e by (auto simp: find_Some_iff)
    then have "race_step H (q1, km, w, c, e(t \<mapsto> By_entry off), g) (q', km', w, c, e, g)"
      using x_end [of "e(t \<mapsto> By_entry off)" t "By_entry off" H q1 km q' km' w c g] r f Some m
      by (simp add: end_fetched_def complete_one_def fun_upd_idem)
    then show ?thesis using s1 s2 Some by (auto intro: converse_rtranclp_into_rtranclp)
  qed
qed

lemma complete_run:
  assumes "complete_loop H q km = Some (q', km')"
  shows "(race_step H)\<^sup>*\<^sup>* (q, km, w, c, Map.empty, g) (q', km', w, c, Map.empty, g)"
proof -
  have "(race_step H)\<^sup>*\<^sup>* (q, km, w, c, Map.empty, g) (fst (q', km'), snd (q', km'), w, c, Map.empty, g)"
  proof (rule complete_loop.raw_induct [where P = "\<lambda>H q km r. (race_step H)\<^sup>*\<^sup>* (q, km, w, c, Map.empty, g) (fst r, snd r, w, c, Map.empty, g)", OF _ assms])
    fix f H q km r
    assume IH: "\<And>H q km r. f H q km = Some r \<Longrightarrow> (race_step H)\<^sup>*\<^sup>* (q, km, w, c, Map.empty, g) (fst r, snd r, w, c, Map.empty, g)"
      and eq: "(case get_complete_entry q of None \<Rightarrow> Some (q, km)
        | Some off \<Rightarrow> Option.bind (complete_one H (compr_mem q off)
               (q\<lparr>compr_tail := UPDATE_COMPR_TAIL (compr_tail q) (sizeof_ce H) (compr_size q)\<rparr>) km)
            (\<lambda>(q1, km1). f H q1 km1)) = Some r"
    show "(race_step H)\<^sup>*\<^sup>* (q, km, w, c, Map.empty, g) (fst r, snd r, w, c, Map.empty, g)"
    proof (cases "get_complete_entry q")
      case None
      then show ?thesis using eq by auto
    next
      case (Some off)
      then obtain q1 km1 where one: "complete_one H (compr_mem q off)
               (q\<lparr>compr_tail := UPDATE_COMPR_TAIL (compr_tail q) (sizeof_ce H) (compr_size q)\<rparr>) km = Some (q1, km1)" "f H q1 km1 = Some r"
        using eq by (auto split: bind_splits)
      then show ?thesis using complete_one_run [OF Some _ one(1), of Map.empty w c g] IH [OF one(2)] by (auto intro: rtranclp_trans)
    qed
  qed
  then show ?thesis by simp
qed

lemma end_loop_run:
  assumes "end_loop H ret ts q km = Some (q', km')" and "distinct ts" and "\<forall>t \<in> set ts. e t = Some (By_force ret)"
  shows "(race_step H)\<^sup>*\<^sup>* (q, km, w, c, e, g) (q', km', w, c, \<lambda>t. if t \<in> set ts then None else e t, g)"
  using assms
proof (induction ts arbitrary: q km e)
  case (Cons t ts)
  obtain q1 km1 where s: "complete_inflight_req H t ret q km = Some (q1, km1)" "end_loop H ret ts q1 km1 = Some (q', km')"
    using Cons.prems(1) by (auto split: bind_splits)
  have "race_step H (q, km, w, c, e, g) (q1, km1, w, c, e(t := None), g)"
    using x_end [of e t "By_force ret" H q km q1 km1 w c g] s(1) Cons.prems(3) by (simp add: end_fetched_def)
  moreover have "(race_step H)\<^sup>*\<^sup>* (q1, km1, w, c, e(t := None), g) (q', km', w, c, \<lambda>u. if u \<in> set ts then None else (e(t := None)) u, g)"
  proof (rule Cons.IH [OF s(2)])
    show "distinct ts" "\<forall>u \<in> set ts. (e(t := None)) u = Some (By_force ret)" using Cons.prems(2,3) by auto
  qed
  moreover have "(\<lambda>u. if u \<in> set ts then None else (e(t := None)) u) = (\<lambda>u. if u \<in> set (t # ts) then None else e u)" by auto
  ultimately show ?case by (auto intro: converse_rtranclp_into_rtranclp)
qed simp



end
