(* ===== verification/Request_Stats.thy ===== *)
theory Request_Stats
  imports Queue_Io
begin

text \<open>
  The request path built with \<open>UBBD_REQUEST_STATS\<close> (\<open>src/ubbd_req.c\<close>, the macros of \<open>src/ubbd_internal.h\<close>): a request
  takes the time when it starts, is prepared, submitted, completed and released, and a request that
  ends adds its times to the statistics of its queue, which \<open>Debugfs\<close> shows. The option changes nothing
  else, and the figures shown are ordered as the events are.
\<close>

section \<open>Time stamps\<close>

text \<open>The times \<open>struct ubbd_request\<close> keeps; its four intervals have the fields of \<open>stats\<close>, whose count is not used
  here. \<open>kt_next\<close> counts the readings of the clock: the n-th call of \<open>ktime_get\<close> returns \<open>T n\<close>.\<close>

record ubbd_req_kt =
  start_kt :: u64
  req_kt :: stats

record stats_state =
  kt_next :: nat
  req_times :: "nat \<Rightarrow> ubbd_req_kt"
  q_stats :: stats

definition ktime_get :: "(nat \<Rightarrow> u64) \<Rightarrow> stats_state \<Rightarrow> u64 \<times> stats_state" where
  "ktime_get T s = (T (kt_next s), s\<lparr>kt_next := Suc (kt_next s)\<rparr>)"

definition ubbd_req_stats_ktime_get :: "(nat \<Rightarrow> u64) \<Rightarrow> nat \<Rightarrow> stats_state \<Rightarrow> stats_state" where
  "ubbd_req_stats_ktime_get T tag s =
     (let (t, s1) = ktime_get T s in s1\<lparr>req_times := (req_times s1)(tag := (req_times s1 tag)\<lparr>start_kt := t\<rparr>)\<rparr>)"

text \<open>\<open>upd\<close> is the field the macro is applied to.\<close>

definition ubbd_req_stats_ktime_delta ::
  "((u64 \<Rightarrow> u64) \<Rightarrow> stats \<Rightarrow> stats) \<Rightarrow> (nat \<Rightarrow> u64) \<Rightarrow> nat \<Rightarrow> stats_state \<Rightarrow> stats_state" where
  "ubbd_req_stats_ktime_delta upd T tag s =
     (let (t, s1) = ktime_get T s; r = req_times s1 tag
      in s1\<lparr>req_times := (req_times s1)(tag := r\<lparr>req_kt := upd (\<lambda>_. t - start_kt r) (req_kt r)\<rparr>)\<rparr>)"

section \<open>The request path with time stamps\<close>

definition zero_kt :: ubbd_req_kt where "zero_kt = \<lparr>start_kt = 0, req_kt = stats0\<rparr>"

definition queue_rq_stats ::
  "(nat \<Rightarrow> u64) \<Rightarrow> ubbd_h \<Rightarrow> nat \<Rightarrow> request \<Rightarrow> ubbd_queue \<Rightarrow> stats_state \<Rightarrow> blk_status \<times> ubbd_queue \<times> stats_state" where
  "queue_rq_stats T H tag rq q s =
     (if q_status q = UBBD_QUEUE_KSTATUS_REMOVING then (BLK_STS_IOERR, q, s)
      else if q_status q = UBBD_QUEUE_KSTATUS_STOPPING \<or> q_status q = UBBD_QUEUE_KSTATUS_STOPPED
      then (BLK_STS_RESOURCE, q, s)
      else
        let q1 = q\<lparr>pdus := (pdus q)(tag := zero_ur H rq)\<rparr>;
            s1 = s\<lparr>req_times := (req_times s)(tag := zero_kt)\<rparr>;
            s2 = ubbd_req_stats_ktime_get T tag s1;
            q2 = blk_tell (Started tag) q1;
            go = (\<lambda>oc. let q3 = ubbd_req_init tag oc rq q2 in
                       (BLK_STS_OK, q3\<lparr>task_wq := task_wq q3 @ [tag]\<rparr>, s2))
        in case rq_op rq of
             REQ_OP_FLUSH \<Rightarrow> go UBBD_OP_FLUSH
           | REQ_OP_DISCARD \<Rightarrow> go UBBD_OP_DISCARD
           | REQ_OP_WRITE_ZEROES \<Rightarrow> go UBBD_OP_WRITE_ZEROS
           | REQ_OP_WRITE \<Rightarrow> go UBBD_OP_WRITE
           | REQ_OP_READ \<Rightarrow> go UBBD_OP_READ
           | _ \<Rightarrow> (BLK_STS_IOERR, q2, s2))"

definition workfn_submit_stats ::
  "(nat \<Rightarrow> u64) \<Rightarrow> ubbd_h \<Rightarrow> nat \<Rightarrow> ubbd_queue \<Rightarrow> stats_state \<Rightarrow> (ubbd_queue \<times> stats_state) option" where
  "workfn_submit_stats T H tag q s =
     (let command_size = ubbd_get_cmd_size H (pdus q tag) in
      if \<not> submit_ring_space_enough H q command_size
      then Some (workfn_end_request tag (- ENOMEM) (q\<lparr>inflight_reqs := remove1 tag (inflight_reqs q)\<rparr>), s)
      else do {
        q1 \<leftarrow> insert_padding H command_size q;
        let q2 = q1\<lparr>q_req_tid := q_req_tid q1 + 1\<rparr>;
        let r1 = (pdus q2 tag)\<lparr>ur_tid := q_req_tid q2\<rparr>;
        (r2, q3) \<leftarrow> queue_req_se_init H r1 q2;
        q4 \<leftarrow> queue_req_data_init H r2 q3;
        let q5 = q4\<lparr>pdus := (pdus q4)(tag := r2)\<rparr>;
        let s1 = ubbd_req_stats_ktime_delta start_to_submit_update T tag s;
        let q6 = q5\<lparr>cmd_head := UPDATE_CMDR_HEAD (cmd_head q5) (ubbd_get_cmd_size H r2) (cmdr_size q5)\<rparr>;
        Some (ubbd_kring_event_notify q6, s1)
      })"

definition queue_workfn_stats ::
  "(nat \<Rightarrow> u64) \<Rightarrow> ubbd_h \<Rightarrow> nat \<Rightarrow> ubbd_queue \<Rightarrow> kmem \<Rightarrow> stats_state \<Rightarrow> (ubbd_queue \<times> kmem \<times> stats_state) option" where
  "queue_workfn_stats T H tag q km s =
     (if workfn_status q \<noteq> 0 then Some (workfn_end_request tag (workfn_status q) q, km, s)
      else do {
        let s1 = ubbd_req_stats_ktime_delta start_to_prepare_update T tag s;
        (ret, q1, km1) \<leftarrow> workfn_prepare tag q km;
        if ret \<noteq> 0 then Some (workfn_end_request tag ret q1, km1, s1)
        else do {
          (q2, s2) \<leftarrow> workfn_submit_stats T H tag (workfn_inflight tag q1) s1;
          Some (q2, km1, s2)
        }
      })"

definition complete_inflight_req_stats ::
  "(nat \<Rightarrow> u64) \<Rightarrow> ubbd_h \<Rightarrow> nat \<Rightarrow> int \<Rightarrow> ubbd_queue \<Rightarrow> kmem \<Rightarrow> stats_state \<Rightarrow> (ubbd_queue \<times> kmem \<times> stats_state) option" where
  "complete_inflight_req_stats T H tag ret q km s = do {
     se \<leftarrow> ur_se (pdus q tag);
     let q1 = mark_se_done H se q;
     (r, q2, km1) \<leftarrow> ubbd_req_release (pdus q1 tag) q1 km;
     let s1 = ubbd_req_stats_ktime_delta start_to_release_update T tag s;
     let k = req_times s1 tag;
     let s2 = s1\<lparr>q_stats := ubbd_req_stats (start_kt k) (req_kt k) (q_stats s1)\<rparr>;
     let q3 = blk_tell (Ended tag ret) (q2\<lparr>pdus := (pdus q2)(tag := r)\<rparr>);
     q4 \<leftarrow> advance_cmd_ring H q3;
     Some (q4, km1, s2)
   }"

definition complete_one_stats ::
  "(nat \<Rightarrow> u64) \<Rightarrow> ubbd_h \<Rightarrow> ubbd_ce \<Rightarrow> ubbd_queue \<Rightarrow> kmem \<Rightarrow> stats_state \<Rightarrow> (ubbd_queue \<times> kmem \<times> stats_state) option" where
  "complete_one_stats T H ce q km s =
     (case fetch_inflight_req (ce_priv_data ce) q of
        (None, q1) \<Rightarrow> Some (q1, km, s)
      | (Some tag, q1) \<Rightarrow> do {
          let s1 = ubbd_req_stats_ktime_delta start_to_complete_update T tag s;
          km1 \<leftarrow> (if rq_op (ur_req (pdus q1 tag)) = REQ_OP_READ
                  then copy_data_from_ubbdreq q1 (pdus q1 tag) km else Some km);
          complete_inflight_req_stats T H tag (ce_result ce) q1 km1 s1
        })"

partial_function (option) complete_loop_stats ::
  "(nat \<Rightarrow> u64) \<Rightarrow> ubbd_h \<Rightarrow> ubbd_queue \<Rightarrow> kmem \<Rightarrow> stats_state \<Rightarrow> (ubbd_queue \<times> kmem \<times> stats_state) option" where
  "complete_loop_stats T H q km s =
     (case get_complete_entry q of
        None \<Rightarrow> Some (q, km, s)
      | Some off \<Rightarrow>
          Option.bind
            (complete_one_stats T H (compr_mem q off)
               (q\<lparr>compr_tail := UPDATE_COMPR_TAIL (compr_tail q) (sizeof_ce H) (compr_size q)\<rparr>) km s)
            (\<lambda>(q1, km1, s1). complete_loop_stats T H q1 km1 s1))"

definition queue_complete_stats ::
  "(nat \<Rightarrow> u64) \<Rightarrow> ubbd_h \<Rightarrow> ubbd_queue \<Rightarrow> kmem \<Rightarrow> stats_state \<Rightarrow> (ubbd_queue \<times> kmem \<times> stats_state) option" where
  "queue_complete_stats T H q km s =
     (if q_status q = UBBD_QUEUE_KSTATUS_REMOVING then Some (q, km, s) else complete_loop_stats T H q km s)"

fun end_loop_stats ::
  "(nat \<Rightarrow> u64) \<Rightarrow> ubbd_h \<Rightarrow> int \<Rightarrow> nat list \<Rightarrow> ubbd_queue \<Rightarrow> kmem \<Rightarrow> stats_state \<Rightarrow> (ubbd_queue \<times> kmem \<times> stats_state) option" where
  "end_loop_stats T H ret [] q km s = Some (q, km, s)"
| "end_loop_stats T H ret (tag # tags) q km s = do {
     (q1, km1, s1) \<leftarrow> complete_inflight_req_stats T H tag ret q km s;
     end_loop_stats T H ret tags q1 km1 s1
   }"

definition queue_end_inflight_reqs_stats ::
  "(nat \<Rightarrow> u64) \<Rightarrow> ubbd_h \<Rightarrow> int \<Rightarrow> ubbd_queue \<Rightarrow> kmem \<Rightarrow> stats_state \<Rightarrow> (ubbd_queue \<times> kmem \<times> stats_state) option" where
  "queue_end_inflight_reqs_stats T H ret q km s = end_loop_stats T H ret (inflight_reqs q) (q\<lparr>inflight_reqs := []\<rparr>) km s"

section \<open>The option changes nothing else\<close>

abbreviation no_stats :: "(ubbd_queue \<times> kmem \<times> stats_state) option \<Rightarrow> (ubbd_queue \<times> kmem) option" where
  "no_stats r \<equiv> map_option (\<lambda>(q, km, s). (q, km)) r"

lemma rq_no_stats: "(\<lambda>(st, q', s'). (st, q')) (queue_rq_stats T H tag rq q s) = ubbd_queue_rq H tag rq q"
  by (simp add: queue_rq_stats_def ubbd_queue_rq_def Let_def split: req_op.splits)

lemma submit_no_stats: "map_option fst (workfn_submit_stats T H tag q s) = workfn_submit H tag q"
  by (simp add: workfn_submit_stats_def workfn_submit_def Let_def map_option_bind comp_def case_prod_beta')

lemma workfn_no_stats: "no_stats (queue_workfn_stats T H tag q km s) = ubbd_queue_workfn H tag q km"
  unfolding queue_workfn_stats_def ubbd_queue_workfn_def submit_no_stats [of T H tag _ "ubbd_req_stats_ktime_delta start_to_prepare_update T tag s", symmetric]
  by (auto simp: Let_def map_option_bind comp_def split_beta bind_map_option split: bind_splits)

lemma complete_req_no_stats: "no_stats (complete_inflight_req_stats T H tag ret q km s) = complete_inflight_req H tag ret q km"
  by (simp add: complete_inflight_req_stats_def complete_inflight_req_def Let_def map_option_bind comp_def case_prod_beta')

lemma complete_one_no_stats: "no_stats (complete_one_stats T H ce q km s) = complete_one H ce q km"
  by (simp add: complete_one_stats_def complete_one_def Let_def map_option_bind comp_def complete_req_no_stats split: prod.splits option.splits)

lemma complete_one_some:
  "complete_one H ce q km = Some (q1, km1) \<Longrightarrow> \<exists>s1. complete_one_stats T H ce q km s = Some (q1, km1, s1)"
  "complete_one_stats T H ce q km s = Some (q1, km1, s1) \<Longrightarrow> complete_one H ce q km = Some (q1, km1)"
  unfolding complete_one_no_stats [symmetric, of H ce q km T s] by auto

lemma complete_loop_with_stats:
  assumes "complete_loop H q km = Some r"
  shows "\<exists>s'. complete_loop_stats T H q km s = Some (fst r, snd r, s')"
proof -
  have "\<forall>s. \<exists>s'. complete_loop_stats T H q km s = Some (fst r, snd r, s')"
  proof (rule complete_loop.raw_induct [where P = "\<lambda>H q km r. \<forall>s. \<exists>s'. complete_loop_stats T H q km s = Some (fst r, snd r, s')", OF _ assms], rule allI)
    fix f H q km r s
    assume IH: "\<And>H q km r. f H q km = Some r \<Longrightarrow> \<forall>s. \<exists>s'. complete_loop_stats T H q km s = Some (fst r, snd r, s')"
      and eq: "(case get_complete_entry q of None \<Rightarrow> Some (q, km)
        | Some off \<Rightarrow> Option.bind (complete_one H (compr_mem q off)
               (q\<lparr>compr_tail := UPDATE_COMPR_TAIL (compr_tail q) (sizeof_ce H) (compr_size q)\<rparr>) km)
            (\<lambda>(q1, km1). f H q1 km1)) = Some r"
    show "\<exists>s'. complete_loop_stats T H q km s = Some (fst r, snd r, s')"
    proof (cases "get_complete_entry q")
      case None
      then show ?thesis using eq by (subst complete_loop_stats.simps) auto
    next
      case (Some off)
      then obtain q1 km1 where one: "complete_one H (compr_mem q off)
          (q\<lparr>compr_tail := UPDATE_COMPR_TAIL (compr_tail q) (sizeof_ce H) (compr_size q)\<rparr>) km = Some (q1, km1)" "f H q1 km1 = Some r"
        using eq by (auto split: bind_splits)
      from complete_one_some(1) [OF one(1), of T s] obtain s1 where
        "complete_one_stats T H (compr_mem q off)
          (q\<lparr>compr_tail := UPDATE_COMPR_TAIL (compr_tail q) (sizeof_ce H) (compr_size q)\<rparr>) km s = Some (q1, km1, s1)" by blast
      then show ?thesis using Some IH [OF one(2)] by (subst complete_loop_stats.simps) simp
    qed
  qed
  then show ?thesis by blast
qed

lemma complete_loop_without_stats:
  assumes "complete_loop_stats T H q km s = Some r"
  shows "complete_loop H q km = Some (fst r, fst (snd r))"
proof (rule complete_loop_stats.raw_induct [where P = "\<lambda>T H q km s r. complete_loop H q km = Some (fst r, fst (snd r))", OF _ assms])
  fix f T H q km s r
  assume IH: "\<And>T H q km s r. f T H q km s = Some r \<Longrightarrow> complete_loop H q km = Some (fst r, fst (snd r))"
    and eq: "(case get_complete_entry q of None \<Rightarrow> Some (q, km, s)
      | Some off \<Rightarrow> Option.bind (complete_one_stats T H (compr_mem q off)
             (q\<lparr>compr_tail := UPDATE_COMPR_TAIL (compr_tail q) (sizeof_ce H) (compr_size q)\<rparr>) km s)
          (\<lambda>(q1, km1, s1). f T H q1 km1 s1)) = Some r"
  show "complete_loop H q km = Some (fst r, fst (snd r))"
  proof (cases "get_complete_entry q")
    case None
    then show ?thesis using eq by (subst complete_loop.simps) auto
  next
    case (Some off)
    then obtain q1 km1 s1 where one: "complete_one_stats T H (compr_mem q off)
        (q\<lparr>compr_tail := UPDATE_COMPR_TAIL (compr_tail q) (sizeof_ce H) (compr_size q)\<rparr>) km s = Some (q1, km1, s1)" "f T H q1 km1 s1 = Some r"
      using eq by (auto split: bind_splits)
    then show ?thesis using Some IH [OF one(2)] complete_one_some(2) [OF one(1)] by (subst complete_loop.simps) simp
  qed
qed

lemma complete_loop_no_stats: "no_stats (complete_loop_stats T H q km s) = complete_loop H q km"
proof (cases "complete_loop H q km")
  case None
  then have "complete_loop_stats T H q km s = None" using complete_loop_without_stats [of T H q km s] by (cases "complete_loop_stats T H q km s") auto
  then show ?thesis using None by simp
next
  case (Some r)
  then show ?thesis using complete_loop_with_stats [OF Some, of T s] by auto
qed

lemma complete_no_stats: "no_stats (queue_complete_stats T H q km s) = ubbd_queue_complete H q km"
  by (simp add: queue_complete_stats_def ubbd_queue_complete_def complete_loop_no_stats)

lemma end_loop_no_stats: "no_stats (end_loop_stats T H ret tags q km s) = end_loop H ret tags q km"
proof (induction tags arbitrary: q km s)
  case (Cons t ts)
  then show ?case unfolding end_loop.simps complete_req_no_stats [of T H t ret q km s, symmetric]
    by (cases "complete_inflight_req_stats T H t ret q km s") auto
qed simp

lemma force_no_stats: "no_stats (queue_end_inflight_reqs_stats T H ret q km s) = ubbd_queue_end_inflight_reqs H ret q km"
  by (simp add: queue_end_inflight_reqs_stats_def ubbd_queue_end_inflight_reqs_def end_loop_no_stats)


section \<open>The times of a request\<close>

text \<open>\<open>ktime_get\<close> reads a monotonic clock that started before the module did.\<close>

definition clock_ok :: "(nat \<Rightarrow> u64) \<Rightarrow> bool" where
  "clock_ok T \<longleftrightarrow> 0 < T 0 \<and> (\<forall>i. T i \<le> T (Suc i))"

lemma clock_mono: "clock_ok T \<Longrightarrow> i \<le> j \<Longrightarrow> T i \<le> T j"
  unfolding clock_ok_def using lift_Suc_mono_le [of T i j] by blast

lemma clock_pos: "clock_ok T \<Longrightarrow> T i \<noteq> 0"
  using clock_mono [of T 0 i] by (auto simp: clock_ok_def)

lemma interval_mono: "a \<le> b \<Longrightarrow> b \<le> c \<Longrightarrow> b - a \<le> c - (a :: u64)"
  by (simp add: word_le_nat_alt unat_sub)

lemma interval_bound: "a \<le> b \<Longrightarrow> b - a \<le> (b :: u64)"
  by (simp add: word_le_nat_alt unat_sub)

text \<open>A request that was accepted; one that was submitted; one that is about to be released, by a completion or by force; and
  the times of one that was released.\<close>

definition started :: "(nat \<Rightarrow> u64) \<Rightarrow> stats_state \<Rightarrow> nat \<Rightarrow> bool" where
  "started T s t \<longleftrightarrow> start_kt (req_times s t) \<noteq> 0 \<and> start_kt (req_times s t) \<le> T (kt_next s) \<and> start_to_complete (req_kt (req_times s t)) = 0"

definition time_submitted :: "(nat \<Rightarrow> u64) \<Rightarrow> stats_state \<Rightarrow> nat \<Rightarrow> bool" where
  "time_submitted T s t \<longleftrightarrow> started T s t \<and> start_to_prepare (req_kt (req_times s t)) \<le> start_to_submit (req_kt (req_times s t)) \<and>
     start_to_submit (req_kt (req_times s t)) \<le> T (kt_next s) - start_kt (req_times s t)"

definition finishing :: "(nat \<Rightarrow> u64) \<Rightarrow> stats_state \<Rightarrow> nat \<Rightarrow> bool" where
  "finishing T s t \<longleftrightarrow> (let k = req_times s t; d = req_kt k in
     start_kt k \<noteq> 0 \<and> start_kt k \<le> T (kt_next s) \<and> start_to_prepare d \<le> start_to_submit d \<and> start_to_submit d \<le> T (kt_next s) - start_kt k \<and>
     start_to_complete d \<le> T (kt_next s) - start_kt k \<and> (start_to_submit d \<le> start_to_complete d \<or> start_to_complete d = 0))"

definition in_order :: "u64 \<Rightarrow> stats \<Rightarrow> bool" where
  "in_order now d \<longleftrightarrow> start_to_prepare d \<le> start_to_submit d \<and> start_to_submit d \<le> start_to_release d \<and>
     start_to_complete d \<le> start_to_release d \<and> (start_to_submit d \<le> start_to_complete d \<or> start_to_complete d = 0) \<and> start_to_release d \<le> now"

definition times_ok :: "(nat \<Rightarrow> u64) \<Rightarrow> ubbd_queue \<Rightarrow> stats_state \<Rightarrow> bool" where
  "times_ok T q s \<longleftrightarrow> distinct (inflight_reqs q @ task_wq q) \<and> (\<forall>t \<in> set (inflight_reqs q). time_submitted T s t) \<and>
     (\<forall>t \<in> set (task_wq q). started T s t)"

lemmas stamp_defs = ubbd_req_stats_ktime_delta_def ubbd_req_stats_ktime_get_def ktime_get_def Let_def

lemma stamp_frame:
  "kt_next (ubbd_req_stats_ktime_delta upd T t s) = Suc (kt_next s)" "q_stats (ubbd_req_stats_ktime_delta upd T t s) = q_stats s"
  "u \<noteq> t \<Longrightarrow> req_times (ubbd_req_stats_ktime_delta upd T t s) u = req_times s u"
  by (simp_all add: stamp_defs)

lemma times_later:
  assumes "clock_ok T" and "kt_next s \<le> kt_next s'" and "req_times s' t = req_times s t"
  shows "started T s t \<Longrightarrow> started T s' t" and "time_submitted T s t \<Longrightarrow> time_submitted T s' t"
proof -
  have m: "T (kt_next s) \<le> T (kt_next s')" by (rule clock_mono [OF assms(1,2)])
  show st: "started T s t \<Longrightarrow> started T s' t" using m assms(3) by (auto simp: started_def)
  assume a: "time_submitted T s t"
  then have "start_kt (req_times s t) \<le> T (kt_next s)" by (simp add: time_submitted_def started_def)
  from interval_mono [OF this m] show "time_submitted T s' t" using a st assms(3) by (auto simp: time_submitted_def)
qed

lemma start_stamp:
  assumes "clock_ok T" shows "started T (ubbd_req_stats_ktime_get T t (s\<lparr>req_times := (req_times s)(t := zero_kt)\<rparr>)) t"
  using clock_pos [OF assms, of "kt_next s"] clock_mono [OF assms, of "kt_next s" "Suc (kt_next s)"]
  by (simp add: started_def stamp_defs zero_kt_def stats0_def)

lemma submit_stamps:
  assumes c: "clock_ok T" and st: "started T s t"
  shows "started T (ubbd_req_stats_ktime_delta start_to_prepare_update T t s) t"
    and "time_submitted T (ubbd_req_stats_ktime_delta start_to_submit_update T t (ubbd_req_stats_ktime_delta start_to_prepare_update T t s)) t"
proof -
  let ?n = "kt_next s" and ?a = "start_kt (req_times s t)"
  have m: "T ?n \<le> T (Suc ?n)" "T (Suc ?n) \<le> T (Suc (Suc ?n))" by (simp_all add: clock_mono [OF c])
  have a: "?a \<le> T ?n" using st by (simp add: started_def)
  show "started T (ubbd_req_stats_ktime_delta start_to_prepare_update T t s) t" using st m a by (auto simp: started_def stamp_defs)
  have "T ?n - ?a \<le> T (Suc ?n) - ?a" "T (Suc ?n) - ?a \<le> T (Suc (Suc ?n)) - ?a"
    using interval_mono [OF a m(1)] interval_mono [of ?a "T (Suc ?n)"] m a by auto
  then show "time_submitted T (ubbd_req_stats_ktime_delta start_to_submit_update T t (ubbd_req_stats_ktime_delta start_to_prepare_update T t s)) t"
    using st m a by (auto simp: time_submitted_def started_def stamp_defs)
qed

lemma finishing_forced: "time_submitted T s t \<Longrightarrow> finishing T s t"
  by (auto simp: time_submitted_def started_def finishing_def Let_def)

lemma finishing_completed:
  assumes c: "clock_ok T" and s: "time_submitted T s t"
  shows "finishing T (ubbd_req_stats_ktime_delta start_to_complete_update T t s) t"
proof -
  let ?n = "kt_next s" and ?a = "start_kt (req_times s t)"
  have m: "T ?n \<le> T (Suc ?n)" by (simp add: clock_mono [OF c])
  have a: "?a \<le> T ?n" using s by (simp add: time_submitted_def started_def)
  from interval_mono [OF a m] show ?thesis using s m by (auto simp: time_submitted_def started_def finishing_def stamp_defs Let_def)
qed

section \<open>What the operations do to the times\<close>

text \<open>Operations that end requests: each request that ends is counted once, with times in order.\<close>

definition counted :: "(nat \<Rightarrow> u64) \<Rightarrow> ubbd_queue \<Rightarrow> stats_state \<Rightarrow> ubbd_queue \<Rightarrow> stats_state \<Rightarrow> bool" where
  "counted T q s q' s' \<longleftrightarrow> kt_next s \<le> kt_next s' \<and>
     (\<exists>ds evs. q_stats s' = foldl (\<lambda>x d. ubbd_req_stats 1 d x) (q_stats s) ds \<and> (\<forall>d \<in> set ds. in_order (T (kt_next s')) d) \<and>
        blk_log q' = blk_log q @ evs \<and> list_all is_answer evs \<and> length ds = length evs)"

lemma in_order_later: "in_order x d \<Longrightarrow> x \<le> y \<Longrightarrow> in_order y d"
  by (auto simp: in_order_def)

lemma counted_none: "kt_next s \<le> kt_next s' \<Longrightarrow> q_stats s' = q_stats s \<Longrightarrow> blk_log q' = blk_log q \<Longrightarrow> counted T q s q' s'"
  unfolding counted_def by (auto intro: exI [of _ "[]"])

lemma counted_trans:
  assumes c: "clock_ok T" and "counted T q s q1 s1" and "counted T q1 s1 q' s'"
  shows "counted T q s q' s'"
proof -
  obtain ds evs where a: "q_stats s1 = foldl (\<lambda>x d. ubbd_req_stats 1 d x) (q_stats s) ds" "\<forall>d \<in> set ds. in_order (T (kt_next s1)) d"
      "blk_log q1 = blk_log q @ evs" "list_all is_answer evs" "length ds = length evs" "kt_next s \<le> kt_next s1"
    using assms(2) by (auto simp: counted_def)
  obtain ds' evs' where b: "q_stats s' = foldl (\<lambda>x d. ubbd_req_stats 1 d x) (q_stats s1) ds'" "\<forall>d \<in> set ds'. in_order (T (kt_next s')) d"
      "blk_log q' = blk_log q1 @ evs'" "list_all is_answer evs'" "length ds' = length evs'" "kt_next s1 \<le> kt_next s'"
    using assms(3) by (auto simp: counted_def)
  have "\<forall>d \<in> set ds. in_order (T (kt_next s')) d" using a(2) in_order_later clock_mono [OF c b(6)] by blast
  then show ?thesis using a b unfolding counted_def by (intro conjI exI [of _ "ds @ ds'"] exI [of _ "evs @ evs'"]) auto
qed

lemma release_seq_form: "release_seq bs r q km = Some (q', km') \<Longrightarrow> pool_frame q q'"
proof (induction bs arbitrary: q km)
  case (Cons b bs)
  obtain q1 km1 where s: "ubbd_release_page q r b km = Some (q1, km1)" "release_seq bs r q1 km1 = Some (q', km')"
    using Cons.prems by (auto split: bind_splits)
  have "pool_frame q q1" using s(1)
    by (auto simp: ubbd_release_page_def clear_bit_q_def ubbd_kring_unmap_range_def release_page0_def Let_def
        split: bind_splits if_splits option.splits)
  then show ?case using Cons.IH [OF s(2)] by (rule pool_frame_trans)
qed simp

lemma complete_req_form:
  assumes "complete_inflight_req_stats T H t ret q km s = Some (q', km', s')"
  shows "inflight_reqs q' = inflight_reqs q" "task_wq q' = task_wq q" "blk_log q' = blk_log q @ [Ended t ret]"
    "s' = (let s1 = ubbd_req_stats_ktime_delta start_to_release_update T t s; k = req_times s1 t
           in s1\<lparr>q_stats := ubbd_req_stats (start_kt k) (req_kt k) (q_stats s1)\<rparr>)"
proof -
  obtain se r q2 q4 where e: "ubbd_req_release (pdus (mark_se_done H se q) t) (mark_se_done H se q) km = Some (r, q2, km')"
      "advance_cmd_ring H (blk_tell (Ended t ret) (q2\<lparr>pdus := (pdus q2)(t := r)\<rparr>)) = Some q'"
      "s' = (let s1 = ubbd_req_stats_ktime_delta start_to_release_update T t s; k = req_times s1 t
             in s1\<lparr>q_stats := ubbd_req_stats (start_kt k) (req_kt k) (q_stats s1)\<rparr>)"
    using assms by (auto simp: complete_inflight_req_stats_def Let_def split: bind_splits)
  have "pool_frame (mark_se_done H se q) q2" using e(1) release_seq_form by (fastforce simp: ubbd_req_release_def split: bind_splits)
  note f = queue_frameD [OF this]
  obtain x where q': "q' = (blk_tell (Ended t ret) (q2\<lparr>pdus := (pdus q2)(t := r)\<rparr>))\<lparr>cmd_tail := x\<rparr>" using advance_form [OF e(2)] by blast
  show "inflight_reqs q' = inflight_reqs q" "task_wq q' = task_wq q" "blk_log q' = blk_log q @ [Ended t ret]"
    using f(3,9,11) by (simp_all add: q' blk_tell_def mark_se_done_def cmdr_store_def)
  show "s' = (let s1 = ubbd_req_stats_ktime_delta start_to_release_update T t s; k = req_times s1 t
           in s1\<lparr>q_stats := ubbd_req_stats (start_kt k) (req_kt k) (q_stats s1)\<rparr>)" by (rule e(3))
qed

lemma complete_req_counted:
  assumes c: "clock_ok T" and r: "complete_inflight_req_stats T H t ret q km s = Some (q', km', s')" and fin: "finishing T s t"
  shows "counted T q s q' s'" and "u \<noteq> t \<Longrightarrow> req_times s' u = req_times s u"
proof -
  note f = complete_req_form [OF r]
  let ?n = "kt_next s" and ?k = "req_times s t"
  let ?d = "(req_kt ?k)\<lparr>start_to_release := T ?n - start_kt ?k\<rparr>"
  have m: "T ?n \<le> T (Suc ?n)" by (simp add: clock_mono [OF c])
  have "start_kt ?k \<noteq> 0" "start_kt ?k \<le> T ?n" using fin by (simp_all add: finishing_def Let_def)
  then have s': "q_stats s' = ubbd_req_stats 1 ?d (q_stats s)" "kt_next s' = Suc ?n"
    by (simp_all add: f(4) stamp_defs ubbd_req_stats_def)
  have "T ?n - start_kt ?k \<le> T (Suc ?n)" using interval_bound [OF \<open>start_kt ?k \<le> T ?n\<close>] m by (rule order_trans)
  then have "in_order (T (Suc ?n)) ?d" using fin by (auto simp: in_order_def finishing_def Let_def)
  then show "counted T q s q' s'" unfolding counted_def
    using f(3) s' by (intro conjI exI [of _ "[?d]"] exI [of _ "[Ended t ret]"]) auto
  show "u \<noteq> t \<Longrightarrow> req_times s' u = req_times s u" by (simp add: f(4) stamp_defs)
qed

text \<open>The requests that remain keep their times.\<close>

lemma times_keep:
  assumes "clock_ok T" and "times_ok T q s" and "kt_next s \<le> kt_next s'" and "distinct (inflight_reqs q' @ task_wq q')"
    and "set (inflight_reqs q') \<subseteq> set (inflight_reqs q)" and "set (task_wq q') \<subseteq> set (task_wq q)"
    and "\<forall>u \<in> set (inflight_reqs q') \<union> set (task_wq q'). req_times s' u = req_times s u"
  shows "times_ok T q' s'"
  using assms times_later [OF assms(1,3)] unfolding times_ok_def by blast

lemma complete_one_counted:
  assumes c: "clock_ok T" and ok: "times_ok T q s" and r: "complete_one_stats T H ce q km s = Some (q', km', s')"
  shows "counted T q s q' s' \<and> times_ok T q' s'"
proof (cases "fetch_inflight_req (ce_priv_data ce) q")
  case (Pair x q1)
  show ?thesis
  proof (cases x)
    case None
    then have "q1 = q" using Pair by (auto simp: fetch_inflight_req_def Let_def split: option.splits)
    then show ?thesis using r Pair None ok by (auto simp: complete_one_stats_def intro: counted_none)
  next
    case (Some t)
    let ?s = "ubbd_req_stats_ktime_delta start_to_complete_update T t s"
    have q1: "t \<in> set (inflight_reqs q)" "inflight_reqs q1 = remove1 t (inflight_reqs q)" "task_wq q1 = task_wq q" "blk_log q1 = blk_log q"
      using Pair Some by (auto simp: fetch_inflight_req_def Let_def find_Some_iff split: option.splits)
    obtain km1 where e: "complete_inflight_req_stats T H t (ce_result ce) q1 km1 ?s = Some (q', km', s')"
      using r Pair Some by (auto simp: complete_one_stats_def Let_def split: bind_splits)
    note f = complete_req_form [OF e]
    have "finishing T ?s t" using finishing_completed [OF c] ok q1(1) by (auto simp: times_ok_def)
    note cnt = complete_req_counted [OF c e this]
    have d: "distinct (inflight_reqs q @ task_wq q)" using ok by (simp add: times_ok_def)
    have "counted T q s q1 ?s" by (rule counted_none) (simp_all add: stamp_frame q1)
    then have 1: "counted T q s q' s'" using cnt(1) by (rule counted_trans [OF c])
    have t: "t \<notin> set (inflight_reqs q') \<union> set (task_wq q')" using d q1 f(1,2) by auto
    have "times_ok T q' s'"
    proof (rule times_keep [OF c ok])
      show "kt_next s \<le> kt_next s'" using 1 by (simp add: counted_def)
      show "distinct (inflight_reqs q' @ task_wq q')" using d f(1,2) q1 by (auto dest: in_set_remove1 [THEN iffD1, rotated] notin_set_remove1)
      show "set (inflight_reqs q') \<subseteq> set (inflight_reqs q)" using f(1) q1(2) set_remove1_subset by metis
      show "set (task_wq q') \<subseteq> set (task_wq q)" using f(2) q1(3) by simp
      show "\<forall>u \<in> set (inflight_reqs q') \<union> set (task_wq q'). req_times s' u = req_times s u" using t cnt(2) stamp_frame(3) by metis
    qed
    then show ?thesis using 1 by simp
  qed
qed

lemma complete_loop_counted:
  assumes c: "clock_ok T" and ok: "times_ok T q s" and r: "complete_loop_stats T H q km s = Some r"
  shows "counted T q s (fst r) (snd (snd r)) \<and> times_ok T (fst r) (snd (snd r))"
proof -
  have "clock_ok T \<longrightarrow> times_ok T q s \<longrightarrow> counted T q s (fst r) (snd (snd r)) \<and> times_ok T (fst r) (snd (snd r))"
  proof (rule complete_loop_stats.raw_induct [where
        P = "\<lambda>T H q km s r. clock_ok T \<longrightarrow> times_ok T q s \<longrightarrow> counted T q s (fst r) (snd (snd r)) \<and> times_ok T (fst r) (snd (snd r))", OF _ r], intro impI)
    fix f T H q km s r
    assume IH: "\<And>T H q km s r. f T H q km s = Some r \<Longrightarrow>
          clock_ok T \<longrightarrow> times_ok T q s \<longrightarrow> counted T q s (fst r) (snd (snd r)) \<and> times_ok T (fst r) (snd (snd r))"
      and eq: "(case get_complete_entry q of None \<Rightarrow> Some (q, km, s)
        | Some off \<Rightarrow> Option.bind (complete_one_stats T H (compr_mem q off)
               (q\<lparr>compr_tail := UPDATE_COMPR_TAIL (compr_tail q) (sizeof_ce H) (compr_size q)\<rparr>) km s)
            (\<lambda>(q1, km1, s1). f T H q1 km1 s1)) = Some r"
      and c: "clock_ok T" and ok: "times_ok T q s"
    show "counted T q s (fst r) (snd (snd r)) \<and> times_ok T (fst r) (snd (snd r))"
    proof (cases "get_complete_entry q")
      case None
      then show ?thesis using eq ok by (auto intro: counted_none)
    next
      case (Some off)
      let ?q = "q\<lparr>compr_tail := UPDATE_COMPR_TAIL (compr_tail q) (sizeof_ce H) (compr_size q)\<rparr>"
      obtain q1 km1 s1 where one: "complete_one_stats T H (compr_mem q off) ?q km s = Some (q1, km1, s1)" "f T H q1 km1 s1 = Some r"
        using eq Some by (auto split: bind_splits)
      have "times_ok T ?q s" using ok by (simp add: times_ok_def)
      from complete_one_counted [OF c this one(1)] have "counted T q s q1 s1" "times_ok T q1 s1" by (simp_all add: counted_def)
      then show ?thesis using IH [OF one(2)] c counted_trans [OF c] by blast
    qed
  qed
  then show ?thesis using c ok by blast
qed

lemma end_loop_counted:
  assumes "clock_ok T" and "end_loop_stats T H ret ts q km s = Some (q', km', s')" and "distinct ts" and "\<forall>t \<in> set ts. time_submitted T s t"
  shows "counted T q s q' s' \<and> inflight_reqs q' = inflight_reqs q \<and> task_wq q' = task_wq q \<and> (\<forall>u. u \<notin> set ts \<longrightarrow> req_times s' u = req_times s u)"
  using assms(2-4)
proof (induction ts arbitrary: q km s)
  case Nil
  then show ?case by (auto intro: counted_none)
next
  case (Cons t ts)
  obtain q1 km1 s1 where e: "complete_inflight_req_stats T H t ret q km s = Some (q1, km1, s1)" "end_loop_stats T H ret ts q1 km1 s1 = Some (q', km', s')"
    using Cons.prems(1) by (auto split: bind_splits)
  have "finishing T s t" using finishing_forced Cons.prems(3) by simp
  note one = complete_req_counted [OF assms(1) e(1) this]
  have k: "kt_next s \<le> kt_next s1" using one(1) by (simp add: counted_def)
  have "\<forall>u \<in> set ts. time_submitted T s1 u"
  proof
    fix u assume u: "u \<in> set ts"
    then have "u \<noteq> t" using Cons.prems(2) by auto
    then show "time_submitted T s1 u" using times_later(2) [OF assms(1) k one(2)] Cons.prems(3) u by simp
  qed
  then have "counted T q1 s1 q' s' \<and> inflight_reqs q' = inflight_reqs q1 \<and> task_wq q' = task_wq q1 \<and> (\<forall>u. u \<notin> set ts \<longrightarrow> req_times s' u = req_times s1 u)"
    using Cons.IH [OF e(2)] Cons.prems(2) by simp
  then show ?case using one(2) complete_req_form(1,2) [OF e(1)] counted_trans [OF assms(1) one(1)] by auto
qed

lemma submit_form:
  assumes "workfn_submit_stats T H t q s = Some (q', s')"
  shows "s' = s \<and> inflight_reqs q' = remove1 t (inflight_reqs q) \<or> s' = ubbd_req_stats_ktime_delta start_to_submit_update T t s"
  using assms by (auto simp: workfn_submit_stats_def Let_def workfn_end_request_def blk_tell_def split: if_splits bind_splits)

lemma prepare_keeps_list:
  assumes "queue_inv H es q km" and "fresh_req t q km" and "workfn_prepare t q km = Some (ret, q1, km1)"
  shows "inflight_reqs q1 = inflight_reqs q"
  by (rule workfn_prepare_cases [OF assms(1,2)])
    (use assms(3) in \<open>auto simp: prep_ok_def unchanged_use_def dest!: queue_frameD(3)\<close>)

lemma end_request_list [simp]: "inflight_reqs (workfn_end_request t ret q) = inflight_reqs q"
  by (simp add: workfn_end_request_def blk_tell_def)

text \<open>The work item: a request on the inflight list afterwards was submitted.\<close>

lemma workfn_stamps:
  assumes "queue_inv H es q km" and fr: "fresh_req t q km" and r: "queue_workfn_stats T H t q km s = Some (q', km', s')"
  defines "sp \<equiv> ubbd_req_stats_ktime_delta start_to_prepare_update T t s"
  shows "t \<notin> set (inflight_reqs q') \<and> (s' = s \<or> s' = sp) \<or> s' = ubbd_req_stats_ktime_delta start_to_submit_update T t sp"
proof (cases "workfn_status q = 0")
  case False
  then show ?thesis using r fr by (auto simp: queue_workfn_stats_def fresh_req_def)
next
  case True
  obtain ret q1 km1 where p: "workfn_prepare t q km = Some (ret, q1, km1)" using r True by (auto simp: queue_workfn_stats_def Let_def split: bind_splits)
  have t: "t \<notin> set (inflight_reqs q1)" using prepare_keeps_list [OF assms(1,2) p] fr by (simp add: fresh_req_def)
  show ?thesis
  proof (cases "ret = 0")
    case False
    then show ?thesis using r True p t by (auto simp: queue_workfn_stats_def sp_def)
  next
    case ret: True
    then have "workfn_submit_stats T H t (workfn_inflight t q1) sp = Some (q', s')"
      using r True p by (auto simp: queue_workfn_stats_def sp_def split: bind_splits)
    from submit_form [OF this] show ?thesis using t by (auto simp: workfn_inflight_def remove1_append)
  qed
qed

lemma workfn_times:
  assumes c: "clock_ok T" and inv: "io_inv H (q, km, g)" and ok: "times_ok T q s" and t: "t \<in> set (task_wq q)"
    and r: "queue_workfn_stats T H t (q\<lparr>task_wq := remove1 t (task_wq q)\<rparr>) km s = Some (q', km', s')"
  shows "times_ok T q' s' \<and> q_stats s' = q_stats s \<and> kt_next s \<le> kt_next s' \<and> answers q \<subseteq># answers q'"
proof -
  let ?q = "q\<lparr>task_wq := remove1 t (task_wq q)\<rparr>"
  let ?sp = "ubbd_req_stats_ktime_delta start_to_prepare_update T t s"
  obtain es where "queue_inv H es q km" "pending_ok (task_wq q) q km" using inv by (auto simp: io_inv_def dev_queue_ok_def)
  note iq = work_ready(1) [OF this t] and pd = work_ready(2) [OF this t]
  then have fr: "fresh_req t ?q km" by (simp add: pending_ok_def)
  have "ubbd_queue_workfn H t ?q km = Some (q', km')" using r workfn_no_stats [of T H t ?q km s] by simp
  moreover obtain q2 km2 sub where "ubbd_queue_workfn H t ?q km = Some (q2, km2)" "task_wq q2 = task_wq ?q"
      "sub \<longrightarrow> inflight_reqs q2 = inflight_reqs ?q @ [t] \<and> blk_log q2 = blk_log ?q"
      "\<not> sub \<longrightarrow> inflight_reqs q2 = inflight_reqs ?q \<and> blk_log q2 = blk_log ?q @ [back_ev (q_status ?q) t]"
    using workfn_one [OF iq fr] by blast
  ultimately have w: "task_wq q' = remove1 t (task_wq q)" "inflight_reqs q' = inflight_reqs q @ (if sub then [t] else [])"
      "blk_log q' = blk_log q @ (if sub then [] else [back_ev (q_status q) t])"
    by simp_all
  note st = workfn_stamps [OF iq fr r]
  have kt: "kt_next s \<le> kt_next s'" "q_stats s' = q_stats s" "\<forall>u. u \<noteq> t \<longrightarrow> req_times s' u = req_times s u"
    using st by (auto simp: stamp_frame)
  have d: "distinct (inflight_reqs q @ task_wq q)" using ok by (simp add: times_ok_def)
  have tn: "t \<notin> set (inflight_reqs q)" "t \<notin> set (task_wq q')" using d t w(1) by auto
  have "time_submitted T s' u" if u: "u \<in> set (inflight_reqs q')" for u
  proof (cases "u = t")
    case True
    then have "s' = ubbd_req_stats_ktime_delta start_to_submit_update T t ?sp" using st u by auto
    then show ?thesis using submit_stamps(2) [OF c] ok t True by (simp add: times_ok_def)
  next
    case False
    then show ?thesis using times_later(2) [OF c kt(1)] kt(3) ok u w(2) by (auto simp: times_ok_def split: if_splits)
  qed
  moreover have "started T s' u" if u: "u \<in> set (task_wq q')" for u
  proof -
    have "u \<noteq> t" "u \<in> set (task_wq q)" using u tn(2) w(1) notin_set_remove1 by fastforce+
    then show ?thesis using times_later(1) [OF c kt(1)] kt(3) ok by (simp add: times_ok_def)
  qed
  moreover have "distinct (inflight_reqs q' @ task_wq q')" using d w(1,2) t tn by (auto dest: in_set_remove1 [THEN iffD1, rotated] notin_set_remove1)
  ultimately show ?thesis using kt w(3) by (auto simp: times_ok_def answers_def)
qed

lemma rq_form:
  fixes T H tag rq q s
  defines "R \<equiv> queue_rq_stats T H tag rq q s" and "s2 \<equiv> ubbd_req_stats_ktime_get T tag (s\<lparr>req_times := (req_times s)(tag := zero_kt)\<rparr>)"
  shows "inflight_reqs (fst (snd R)) = inflight_reqs q"
    and "blk_log (fst (snd R)) = blk_log q \<or> blk_log (fst (snd R)) = blk_log q @ [Started tag]"
    and "snd (snd R) = s \<or> snd (snd R) = s2"
    and "task_wq (fst (snd R)) = task_wq q \<or> task_wq (fst (snd R)) = task_wq q @ [tag] \<and> snd (snd R) = s2"
  unfolding R_def s2_def by (simp_all add: queue_rq_stats_def Let_def ubbd_req_init_def blk_tell_def split: req_op.split)

lemma rq_times:
  assumes c: "clock_ok T" and ok: "times_ok T q s" and t: "tag \<notin> set (inflight_reqs q)" "tag \<notin> set (task_wq q)"
    and r: "queue_rq_stats T H tag rq q s = (st, q', s')"
  shows "times_ok T q' s' \<and> q_stats s' = q_stats s \<and> kt_next s \<le> kt_next s' \<and> answers q \<subseteq># answers q'"
proof -
  let ?s = "ubbd_req_stats_ktime_get T tag (s\<lparr>req_times := (req_times s)(tag := zero_kt)\<rparr>)"
  note f = rq_form [of T H tag rq q s, unfolded r, simplified]
  have kt: "kt_next s \<le> kt_next s'" "q_stats s' = q_stats s" "\<forall>u. u \<noteq> tag \<longrightarrow> req_times s' u = req_times s u"
    using f(3) by (auto simp: stamp_defs)
  have "time_submitted T s' u" if u: "u \<in> set (inflight_reqs q')" for u
  proof -
    have "u \<noteq> tag" using u t f(1) by auto
    then show ?thesis using times_later(2) [OF c kt(1)] kt(3) ok u f(1) by (simp add: times_ok_def)
  qed
  moreover have "started T s' u" if u: "u \<in> set (task_wq q')" for u
  proof (cases "u = tag")
    case True
    then have "s' = ?s" using u f(4) t(2) by auto
    then show ?thesis using start_stamp [OF c] True by simp
  next
    case False
    then have "u \<in> set (task_wq q)" using u f(4) by auto
    then show ?thesis using times_later(1) [OF c kt(1)] kt(3) ok False by (simp add: times_ok_def)
  qed
  moreover have "distinct (inflight_reqs q' @ task_wq q')" using ok f(1,4) t by (auto simp: times_ok_def)
  moreover have "answers q \<subseteq># answers q'" using f(2) by (auto simp: answers_def)
  ultimately show ?thesis using kt by (simp add: times_ok_def)
qed

section \<open>A queue in operation, with statistics\<close>

text \<open>The machine of \<open>Queue_Io\<close> with the operations of this build, and with writes to the statistics file.\<close>

type_synonym stat_state = "ubbd_queue \<times> kmem \<times> nat multiset \<times> stats_state"

inductive stat_step :: "(nat \<Rightarrow> u64) \<Rightarrow> ubbd_h \<Rightarrow> stat_state \<Rightarrow> stat_state \<Rightarrow> bool" for T H where
  st_rq: "rq_given H tag rq q km \<Longrightarrow> queue_rq_stats T H tag rq q s = (st, q', s') \<Longrightarrow>
    stat_step T H (q, km, g, s) (q', km, if st = BLK_STS_OK then add_mset tag g else g, s')"
| st_work: "t \<in> set (task_wq q) \<Longrightarrow> queue_workfn_stats T H t (q\<lparr>task_wq := remove1 t (task_wq q)\<rparr>) km s = Some (q', km', s') \<Longrightarrow>
    stat_step T H (q, km, g, s) (q', km', g, s')"
| st_backend: "q' = q\<lparr>compr_head := hd', compr_mem := cm\<rparr> \<Longrightarrow> compr_ok H n q' \<Longrightarrow> same_live km km' \<Longrightarrow>
    stat_step T H (q, km, g, s) (q', km', g, s)"
| st_complete: "queue_complete_stats T H q km s = Some (q', km', s') \<Longrightarrow> stat_step T H (q, km, g, s) (q', km', g, s')"
| st_force: "queue_end_inflight_reqs_stats T H ret q km s = Some (q', km', s') \<Longrightarrow> stat_step T H (q, km, g, s) (q', km', g, s')"
| st_status: "stat_step T H (q, km, g, s) (q\<lparr>q_status := st\<rparr>, km, g, s)"
| st_reserve: "stat_step T H (q, km, g, s) (q\<lparr>data_pages_reserved := r\<rparr>, km, g, s)"
| st_write: "ubbd_q_req_stats_write ubuf cnt (q_stats s) = (ret, x) \<Longrightarrow> stat_step T H (q, km, g, s) (q, km, g, s\<lparr>q_stats := x\<rparr>)"

definition stat_init :: "(nat \<Rightarrow> u64) \<Rightarrow> ubbd_h \<Rightarrow> stat_state \<Rightarrow> bool" where
  "stat_init T H = (\<lambda>(q, km, g, s). clock_ok T \<and> io_init H (q, km, g) \<and> q_stats s = stats0)"

definition sums_ok :: "(nat \<Rightarrow> u64) \<Rightarrow> ubbd_queue \<Rightarrow> stats_state \<Rightarrow> bool" where
  "sums_ok T q s \<longleftrightarrow> (\<exists>ds. q_stats s = all_stats ds \<and> (\<forall>d \<in> set ds. in_order (T (kt_next s)) d) \<and> length ds \<le> size (answers q))"

definition stat_inv :: "(nat \<Rightarrow> u64) \<Rightarrow> ubbd_h \<Rightarrow> stat_state \<Rightarrow> bool" where
  "stat_inv T H = (\<lambda>(q, km, g, s). clock_ok T \<and> io_inv H (q, km, g) \<and> times_ok T q s \<and> sums_ok T q s)"

text \<open>Without the statistics a step is a step of \<open>Queue_Io\<close>, or none.\<close>

lemma stat_step_io:
  assumes "stat_step T H (q, km, g, s) (q', km', g', s')"
  shows "io_step H (q, km, g) (q', km', g') \<or> (q', km', g') = (q, km, g)"
  using assms
proof (cases rule: stat_step.cases)
  case (st_rq tag rq st)
  then have "ubbd_queue_rq H tag rq q = (st, q')" using rq_no_stats [of T H tag rq q s] by simp
  then show ?thesis using io_rq [OF st_rq(3), of st q' g] st_rq by simp
next
  case (st_work t)
  then have "ubbd_queue_workfn H t (q\<lparr>task_wq := remove1 t (task_wq q)\<rparr>) km = Some (q', km')"
    using workfn_no_stats [of T H t "q\<lparr>task_wq := remove1 t (task_wq q)\<rparr>" km s] by simp
  then show ?thesis using io_work [OF st_work(2)] st_work(1) by simp
next
  case st_backend
  then show ?thesis using io_backend by blast
next
  case st_complete
  then have "ubbd_queue_complete H q km = Some (q', km')" using complete_no_stats [of T H q km s] by simp
  then show ?thesis using io_complete st_complete(1) by simp
next
  case (st_force ret)
  then have "ubbd_queue_end_inflight_reqs H ret q km = Some (q', km')" using force_no_stats [of T H ret q km s] by simp
  then show ?thesis using io_force st_force(1) by simp
qed (auto intro: io_status io_reserve)

lemma sums_keep:
  assumes c: "clock_ok T" and "sums_ok T q s" and "q_stats s' = q_stats s" and k: "kt_next s \<le> kt_next s'" and "answers q \<subseteq># answers q'"
  shows "sums_ok T q' s'"
proof -
  obtain ds where ds: "q_stats s = all_stats ds" "\<forall>d \<in> set ds. in_order (T (kt_next s)) d" "length ds \<le> size (answers q)"
    using assms(2) by (auto simp: sums_ok_def)
  have "\<forall>d \<in> set ds. in_order (T (kt_next s')) d" using ds(2) in_order_later clock_mono [OF c k] by blast
  then show ?thesis using ds size_mset_mono [OF assms(5)] assms(3) unfolding sums_ok_def by (intro exI [of _ ds]) auto
qed

lemma sums_counted:
  assumes c: "clock_ok T" and "sums_ok T q s" and "counted T q s q' s'" shows "sums_ok T q' s'"
proof -
  obtain ds where ds: "q_stats s = all_stats ds" "\<forall>d \<in> set ds. in_order (T (kt_next s)) d" "length ds \<le> size (answers q)"
    using assms(2) by (auto simp: sums_ok_def)
  obtain es evs where es: "q_stats s' = foldl (\<lambda>x d. ubbd_req_stats 1 d x) (q_stats s) es" "\<forall>d \<in> set es. in_order (T (kt_next s')) d"
      "blk_log q' = blk_log q @ evs" "list_all is_answer evs" "length es = length evs" "kt_next s \<le> kt_next s'"
    using assms(3) by (auto simp: counted_def)
  have "\<forall>d \<in> set ds. in_order (T (kt_next s')) d" using ds(2) in_order_later clock_mono [OF c es(6)] by blast
  moreover have "q_stats s' = all_stats (ds @ es)" using es(1) ds(1) by (simp add: all_stats_def)
  moreover have "size (answers q') = size (answers q) + length evs" using answers_log [OF es(3,4)] by simp
  ultimately show ?thesis using ds(3) es(2,5) unfolding sums_ok_def by (intro exI [of _ "ds @ es"]) auto
qed

lemma stat_init_ok: "stat_init T H x \<Longrightarrow> stat_inv T H x"
proof -
  assume a: "stat_init T H x"
  then obtain q km g s where x: "x = (q, km, g, s)" "clock_ok T" "io_init H (q, km, g)" "q_stats s = stats0" by (auto simp: stat_init_def)
  have "io_inv H (q, km, g)" by (rule init_ok [OF x(3)])
  moreover have "inflight_reqs q = []" "task_wq q = []" using x(3) by (auto simp: io_init_def fresh_core_def ubbd_kring_dev_open_def)
  moreover have "sums_ok T q s" using x(4) unfolding sums_ok_def by (intro exI [of _ "[]"]) (simp add: all_stats_def)
  ultimately show ?thesis using x(1,2) by (simp add: stat_inv_def times_ok_def)
qed

lemma stat_step_times:
  assumes "stat_step T H (q, km, g, s) (q', km', g', s')" and "clock_ok T" and "io_inv H (q, km, g)" and "times_ok T q s" and "sums_ok T q s"
  shows "times_ok T q' s' \<and> sums_ok T q' s'"
  using assms(1)
proof (cases rule: stat_step.cases)
  case (st_rq tag rq st)
  then have "tag \<notin> set (inflight_reqs q)" "tag \<notin> set (task_wq q)" by (simp_all add: rq_given_def)
  from rq_times [OF assms(2,4) this st_rq(4)] show ?thesis using sums_keep [OF assms(2,5)] by blast
next
  case (st_work t)
  from workfn_times [OF assms(2-4) st_work(2,3)] show ?thesis using sums_keep [OF assms(2,5)] by blast
next
  case st_backend
  then show ?thesis using assms(4,5) by (simp add: times_ok_def sums_ok_def answers_def)
next
  case st_complete
  show ?thesis
  proof (cases "q_status q = UBBD_QUEUE_KSTATUS_REMOVING")
    case True
    then show ?thesis using st_complete assms(4,5) by (simp add: queue_complete_stats_def)
  next
    case False
    then have "complete_loop_stats T H q km s = Some (q', km', s')" using st_complete by (simp add: queue_complete_stats_def)
    from complete_loop_counted [OF assms(2,4) this] show ?thesis using sums_counted [OF assms(2,5)] by simp
  qed
next
  case (st_force ret)
  let ?q = "q\<lparr>inflight_reqs := []\<rparr>"
  have e: "end_loop_stats T H ret (inflight_reqs q) ?q km s = Some (q', km', s')" using st_force by (simp add: queue_end_inflight_reqs_stats_def)
  have d: "distinct (inflight_reqs q)" "\<forall>t \<in> set (inflight_reqs q). time_submitted T s t" using assms(4) by (simp_all add: times_ok_def)
  note r = end_loop_counted [OF assms(2) e d]
  then have "counted T q s q' s'" by (simp add: counted_def)
  then have "sums_ok T q' s'" "kt_next s \<le> kt_next s'" using sums_counted [OF assms(2,5)] by (simp_all add: counted_def)
  moreover have "times_ok T q' s'"
  proof (rule times_keep [OF assms(2,4) \<open>kt_next s \<le> kt_next s'\<close>])
    show "distinct (inflight_reqs q' @ task_wq q')" using r assms(4) by (simp add: times_ok_def)
    show "\<forall>u \<in> set (inflight_reqs q') \<union> set (task_wq q'). req_times s' u = req_times s u" using r assms(4) by (auto simp: times_ok_def)
  qed (use r in simp_all)
  ultimately show ?thesis by simp
next
  case (st_write ubuf cnt ret x)
  have "x = stats0 \<or> x = q_stats s" using st_write by (auto simp: ubbd_q_req_stats_write_def stats0_def split: option.splits)
  moreover have "sums_ok T q (s\<lparr>q_stats := stats0\<rparr>)" unfolding sums_ok_def by (intro exI [of _ "[]"]) (simp add: all_stats_def)
  ultimately have "sums_ok T q (s\<lparr>q_stats := x\<rparr>)" using assms(5) by auto
  then show ?thesis using st_write assms(4) by (simp add: times_ok_def time_submitted_def started_def)
qed (use assms(4,5) in \<open>simp_all add: times_ok_def sums_ok_def answers_def\<close>)

interpretation queue_stats: step_invariant "stat_init T H" "stat_step T H" "stat_inv T H" for T H
proof
  show "stat_init T H x \<Longrightarrow> stat_inv T H x" for x by (rule stat_init_ok)
  show "stat_inv T H x \<Longrightarrow> stat_step T H x y \<Longrightarrow> stat_inv T H y" for x y
    using stat_step_io stat_step_times io_step_ok by (cases x; cases y) (fastforce simp: stat_inv_def)
qed

section \<open>The figures shown\<close>

lemma total_mono: "(\<forall>d \<in> set ds. f d \<le> g d) \<Longrightarrow> total f ds \<le> total g ds"
  by (simp add: total_def word_le_nat_alt sum_list_mono)

lemma total_bound: "(\<forall>d \<in> set ds. f d \<le> x) \<Longrightarrow> total f ds \<le> length ds * unat x"
proof (induction ds)
  case (Cons d ds)
  then have "unat (f d) \<le> unat x" "total f ds \<le> length ds * unat x" by (simp_all add: word_le_nat_alt)
  then show ?case by (simp add: total_def)
qed (simp add: total_def)

lemma average_mono: "a \<le> b \<Longrightarrow> b < 2 ^ 64 \<Longrightarrow> (of_nat (a div n) :: u64) \<le> of_nat (b div n)"
proof -
  assume a: "a \<le> b" "b < 2 ^ 64"
  then have "a div n \<le> b div n" "b div n < 2 ^ 64" using div_le_mono [of a b n] div_le_dividend [of b n] by linarith+
  then show ?thesis by (simp add: word_le_nat_alt unat_of_nat take_bit_nat_eq_self)
qed


text \<open>A write of three segments is accepted, submitted and ended by force.\<close>

definition T0 :: "nat \<Rightarrow> u64" where "T0 i = word_of_nat (5 * min i 100 + 100)"

lemma T0_unat: "unat (T0 i) = 5 * min i 100 + 100"
  unfolding T0_def by (subst unat_of_nat) (simp add: take_bit_nat_eq_self)

lemma T0_ok: "clock_ok T0"
  by (auto simp: clock_ok_def word_le_nat_alt word_less_nat_alt T0_unat min_def)

definition stat0 :: stats_state where "stat0 = \<lparr>kt_next = 0, req_times = \<lambda>_. zero_kt, q_stats = stats0\<rparr>"

definition accepted1 :: "ubbd_queue \<times> stats_state" where
  "accepted1 = snd (queue_rq_stats T0 H0 7 (ur_req ur0) (snd (ubbd_kring_dev_open core1)) stat0)"

definition submitted1 :: "(ubbd_queue \<times> kmem \<times> stats_state) option" where
  "submitted1 = queue_workfn_stats T0 H0 7 ((fst accepted1)\<lparr>task_wq := remove1 7 (task_wq (fst accepted1))\<rparr>) (km0 []) (snd accepted1)"

lemma accepted1_state: "fst (queue_rq_stats T0 H0 7 (ur_req ur0) (snd (ubbd_kring_dev_open core1)) stat0) = BLK_STS_OK" "task_wq (fst accepted1) = [7]"
  by code_simp+

lemma submitted1_state:
  "map_option (\<lambda>(q, km, s). (inflight_reqs q, task_wq q, start_kt (req_times s 7), req_kt (req_times s 7), q_stats s, kt_next s)) submitted1 =
     Some ([7], [], 100, stats0\<lparr>start_to_prepare := 5, start_to_submit := 10\<rparr>, stats0, 3)"
  by code_simp

lemma submitted1_reach:
  assumes "submitted1 = Some (q, km, s)" shows "reach (stat_init T0 H0) (stat_step T0 H0) (q, km, {#7#}, s)"
proof -
  let ?q = "snd (ubbd_kring_dev_open core1)"
  have "stat_init T0 H0 (?q, km0 [], {#}, stat0)" using core1_init T0_ok by (simp add: stat_init_def stat0_def)
  then have "reach (stat_init T0 H0) (stat_step T0 H0) (?q, km0 [], {#}, stat0)" by (rule reach_init)
  moreover have "queue_rq_stats T0 H0 7 (ur_req ur0) ?q stat0 = (BLK_STS_OK, fst accepted1, snd accepted1)"
    using accepted1_state(1) by (simp add: accepted1_def prod_eq_iff)
  then have "stat_step T0 H0 (?q, km0 [], {#}, stat0) (fst accepted1, km0 [], {#7#}, snd accepted1)"
    using st_rq [OF queue_w_given, of T0 stat0 BLK_STS_OK "fst accepted1" "snd accepted1" "{#}"] by simp
  ultimately have "reach (stat_init T0 H0) (stat_step T0 H0) (fst accepted1, km0 [], {#7#}, snd accepted1)" by (rule reach_step)
  moreover have "stat_step T0 H0 (fst accepted1, km0 [], {#7#}, snd accepted1) (q, km, {#7#}, s)"
    using st_work [of 7 "fst accepted1" T0 H0 "km0 []" "snd accepted1" q km s] assms accepted1_state(2) unfolding submitted1_def by simp
  ultimately show ?thesis by (rule reach_step)
qed


text \<open>A request that is ended by force is counted with a completion time of 0, since only the completion of the backend takes
  that time: it lowers the average shown.\<close>

theorem forced_end_counts_zero:
  assumes "time_submitted T s t" and "complete_inflight_req_stats T H t ret q km s = Some (q', km', s')"
  shows "stats_reqs (q_stats s') = stats_reqs (q_stats s) + 1 \<and> start_to_complete (q_stats s') = start_to_complete (q_stats s)"
  using assms(1) by (simp add: complete_req_form(4) [OF assms(2)] stamp_defs ubbd_req_stats_def time_submitted_def started_def)

end
