(* ===== verification/Kring_Files.thy ===== *)
theory Kring_Files
  imports Kring
begin

text \<open>
  The remaining operations of the kring devices (\<open>src/ubbd_kring.c\<close>): the \<open>version\<close> attribute, the
  asynchronous notification of listeners, and registrations managed by the parent device.
\<close>

section \<open>Operations\<close>

definition version_show :: "string \<Rightarrow> kring_device \<Rightarrow> int + string" where
  "version_show version d = (if \<not> kd_info d then Inl (- EINVAL) else Inr (version @ [CHR 0x0A]))"

text \<open>The files that asked for signals, per device, and the signals sent so far.\<close>

record kring_async =
  ka_sys :: kring_sys
  async_queue :: "nat \<Rightarrow> nat list"
  sigio :: "nat list"

text \<open>\<open>fasync_helper\<close> of the kernel: 1 if the queue changed, 0 if not, or the error of its allocation.\<close>

definition fasync_helper :: "bool \<Rightarrow> nat \<Rightarrow> bool \<Rightarrow> nat list \<Rightarrow> int \<times> nat list" where
  "fasync_helper mem filep on q =
     (if \<not> on then (if filep \<in> set q then (1, remove1 filep q) else (0, q))
      else if \<not> mem then (- ENOMEM, q)
      else if filep \<in> set q then (0, q) else (1, filep # q))"

definition ubbd_kring_fasync :: "bool \<Rightarrow> kring_listener \<Rightarrow> nat \<Rightarrow> bool \<Rightarrow> kring_async \<Rightarrow> (int \<times> kring_async) option" where
  "ubbd_kring_fasync mem listener filep on a = do {
     d \<leftarrow> devs (ka_sys a) (l_dev listener);
     let (ret, q) = fasync_helper mem filep on (async_queue a (l_dev listener));
     Some (ret, a\<lparr>async_queue := (async_queue a)(l_dev listener := q)\<rparr>)
   }"

text \<open>An event wakes the sleepers; \<open>kill_fasync\<close> is called by the unregistration only.\<close>

definition async_event_notify :: "nat \<Rightarrow> kring_async \<Rightarrow> kring_async option" where
  "async_event_notify key a = do { s1 \<leftarrow> event_notify key (ka_sys a); Some (a\<lparr>ka_sys := s1\<rparr>) }"

definition async_unregister_device :: "nat option \<Rightarrow> kring_async \<Rightarrow> kring_async option" where
  "async_unregister_device dev a = do {
     s1 \<leftarrow> ubbd_kring_unregister_device dev (ka_sys a);
     Some (case dev of None \<Rightarrow> a | Some key \<Rightarrow> a\<lparr>ka_sys := s1, sigio := sigio a @ async_queue a key\<rparr>)
   }"

text \<open>
  \<open>__devm_ubbd_kring_register_device\<close>: a successful registration adds its undoing to the resources of the parent.
  The driver core releases them last in, first out.
\<close>

record reg_args =
  ra_devres :: bool                    \<comment> \<open>\<open>devres_alloc\<close> finds memory\<close>
  ra_args :: bool
  ra_kz :: bool
  ra_idr :: bool
  ra_name :: int
  ra_add :: int

definition devm_ubbd_kring_register_device ::
  "reg_args \<Rightarrow> kring_sys \<Rightarrow> nat option list \<Rightarrow> (int \<times> kring_sys \<times> nat option list) option" where
  "devm_ubbd_kring_register_device r s devres =
     (if \<not> ra_devres r then Some (- ENOMEM, s, devres)
      else do {
        (ret, s1, dev) \<leftarrow> ubbd_kring_register_device (ra_args r) (ra_kz r) (ra_idr r) (ra_name r) (ra_add r) s;
        if ret \<noteq> 0 then Some (ret, s1, devres) else Some (0, s1, dev # devres)
      })"

definition devm_ubbd_kring_unregister_device :: "nat option \<Rightarrow> kring_sys \<Rightarrow> kring_sys option" where
  "devm_ubbd_kring_unregister_device dev s = ubbd_kring_unregister_device dev s"

fun devres_release_all :: "nat option list \<Rightarrow> kring_sys \<Rightarrow> kring_sys option" where
  "devres_release_all [] s = Some s"
| "devres_release_all (dev # ds) s = do { s1 \<leftarrow> devm_ubbd_kring_unregister_device dev s; devres_release_all ds s1 }"

fun devm_register_all :: "reg_args list \<Rightarrow> kring_sys \<Rightarrow> nat option list \<Rightarrow> (int list \<times> kring_sys \<times> nat option list) option" where
  "devm_register_all [] s devres = Some ([], s, devres)"
| "devm_register_all (r # rs) s devres = do {
     (ret, s1, devres1) \<leftarrow> devm_ubbd_kring_register_device r s devres;
     (rets, s2, devres2) \<leftarrow> devm_register_all rs s1 devres1;
     Some (ret # rets, s2, devres2)
   }"

section \<open>Signals\<close>

lemma distinct_count_list: "distinct xs \<Longrightarrow> count_list xs x = of_bool (x \<in> set xs)"
  by (induction xs) auto

text \<open>A file that enabled signals on a device with \<open>fasync\<close> is signalled once when the device is
  unregistered, and not at all if it disabled them again or if only events occur.\<close>

theorem sigio_at_unregister_only:
  assumes d: "devs (ka_sys a) (l_dev l) = Some d" and q: "distinct (async_queue a (l_dev l))"
    and f: "ubbd_kring_fasync True l filep on a = Some (ret, a1)"
    and n: "async_event_notify (l_dev l) a1 = Some a2" and u: "async_unregister_device (Some (l_dev l)) a2 = Some a3"
  shows "sigio a2 = sigio a \<and> count_list (sigio a3) filep = count_list (sigio a) filep + of_bool on"
proof -
  let ?q = "async_queue a1 (l_dev l)"
  have "sigio a1 = sigio a" "distinct ?q" "filep \<in> set ?q \<longleftrightarrow> on"
    using d q f by (auto simp: ubbd_kring_fasync_def fasync_helper_def split: if_splits)
  moreover have "sigio a2 = sigio a1" "async_queue a2 = async_queue a1" using n by (auto simp: async_event_notify_def split: bind_splits)
  moreover have "sigio a3 = sigio a2 @ async_queue a2 (l_dev l)" using u by (auto simp: async_unregister_device_def split: bind_splits)
  moreover have "count_list ?q filep = of_bool (filep \<in> set ?q)" if "distinct ?q" using that by (simp add: distinct_count_list)
  ultimately show ?thesis by simp
qed

definition async0 :: kring_async where "async0 = \<lparr>ka_sys = sys0, async_queue = (\<lambda>_. []), sigio = []\<rparr>"

theorem sigio_at_unregister_only_witness:
  "\<exists>a1 a2 a3. ubbd_kring_fasync True \<lparr>l_dev = 0, l_event_count = 5\<rparr> 9 True async0 = Some (1, a1) \<and>
     async_event_notify 0 a1 = Some a2 \<and> async_unregister_device (Some 0) a2 = Some a3 \<and> sigio a2 = [] \<and> count_list (sigio a3) 9 = 1"
proof -
  let ?l = "\<lparr>l_dev = 0, l_event_count = 5\<rparr>"
  obtain a1 where 1: "ubbd_kring_fasync True ?l 9 True async0 = Some (1, a1)" "ka_sys a1 = sys0"
    by (simp add: ubbd_kring_fasync_def fasync_helper_def async0_def sys0_def)
  obtain a2 where 2: "async_event_notify 0 a1 = Some a2" "devs (ka_sys a2) 0 = Some \<lparr>kd_minor = 0, kd_event = 6, kd_info = True, kd_ref = 1\<rparr>"
    using 1(2) by (simp add: async_event_notify_def event_notify_def sys0_def)
  obtain a3 where 3: "async_unregister_device (Some 0) a2 = Some a3"
    using 2(2) by (simp add: async_unregister_device_def ubbd_kring_unregister_device_def unregister_drop_def put_device_def)
  have "devs (ka_sys async0) (l_dev ?l) = Some \<lparr>kd_minor = 0, kd_event = 5, kd_info = True, kd_ref = 1\<rparr>"
    "distinct (async_queue async0 (l_dev ?l))" by (simp_all add: async0_def sys0_def)
  from sigio_at_unregister_only [OF this 1(1), of a2 a3] 1 2 3 show ?thesis by (auto simp: async0_def)
qed

section \<open>Managed registrations\<close>

lemma register_total: "\<exists>ret s1 dev. ubbd_kring_register_device args_ok kz idr_mem name_ret add_ret s = Some (ret, s1, dev)"
proof (cases "class_registered s \<and> args_ok \<and> kz \<and> idr_mem \<and> idr_alloc_id (idr s) \<noteq> None")
  case False
  then show ?thesis using register_early [OF False] by blast
next
  case True
  then obtain i where "idr_alloc_id (idr s) = Some i" by blast
  then show ?thesis using True register_late [of s args_ok kz idr_mem i _ _ name_ret add_ret] by fastforce
qed

lemma register_keeps_ok:
  assumes "registry_ok s" and "ubbd_kring_register_device args_ok kz idr_mem name_ret add_ret s = Some (ret, s1, dev)"
  shows "registry_ok s1"
proof (cases "ret = 0")
  case True
  then show ?thesis using register_outcome [OF assms] by blast
next
  case False
  have "next_key s \<le> next_key s1" using assms(2)
    by (auto simp: ubbd_kring_register_device_def ubbd_kring_get_minor_def ubbd_kring_free_minor_def put_device_def Let_def
        split: if_splits option.splits bind_splits)
  then show ?thesis using register_outcome [OF assms] False assms(1) unfolding registry_ok_def by simp
qed

text \<open>Unregistration looks at the minors and the devices only.\<close>

lemma unregister_cong:
  assumes "ubbd_kring_unregister_device dev s = Some t" and "idr s' = idr s" "devs s' = devs s"
  shows "\<exists>t'. ubbd_kring_unregister_device dev s' = Some t' \<and> idr t' = idr t \<and> devs t' = devs t"
  using assms
  by (cases dev) (auto simp: ubbd_kring_unregister_device_def unregister_drop_def put_device_def ubbd_kring_free_minor_def
      split: bind_splits if_splits)

lemma devm_register_release:
  assumes "registry_ok s"
  shows "\<exists>rets s1 new. devm_register_all rs s devres = Some (rets, s1, new @ devres) \<and> length new = length (filter (\<lambda>r. r = 0) rets) \<and>
    length rets = length rs \<and> (\<forall>t. idr t = idr s1 \<and> devs t = devs s1 \<longrightarrow> (\<exists>t'. devres_release_all (new @ olds) t = devres_release_all olds t' \<and> idr t' = idr s \<and> devs t' = devs s))"
  using assms
proof (induction rs arbitrary: s devres olds)
  case Nil
  then show ?case by (intro exI [of _ "[]"] exI [of _ s]) auto
next
  case (Cons r rs)
  show ?case
  proof (cases "ra_devres r")
    case False
    then have d: "devm_ubbd_kring_register_device r s devres = Some (- ENOMEM, s, devres)" by (simp add: devm_ubbd_kring_register_device_def)
    obtain rets s1 new where "devm_register_all rs s devres = Some (rets, s1, new @ devres)" "length new = length (filter (\<lambda>r. r = 0) rets)"
        "length rets = length rs" "\<forall>t. idr t = idr s1 \<and> devs t = devs s1 \<longrightarrow>
          (\<exists>t'. devres_release_all (new @ olds) t = devres_release_all olds t' \<and> idr t' = idr s \<and> devs t' = devs s)"
      using Cons.IH [OF Cons.prems] by blast
    then show ?thesis using d by (intro exI [of _ "- ENOMEM # rets"] exI [of _ s1] exI [of _ new]) simp
  next
    case True
    obtain ret s0 dev where reg: "ubbd_kring_register_device (ra_args r) (ra_kz r) (ra_idr r) (ra_name r) (ra_add r) s = Some (ret, s0, dev)"
      using register_total by blast
    note out = register_outcome [OF Cons.prems reg]
    let ?ds = "if ret = 0 then [dev] else []"
    have d: "devm_ubbd_kring_register_device r s devres = Some (ret, s0, ?ds @ devres)" using True reg by (simp add: devm_ubbd_kring_register_device_def)
    have undo: "\<exists>t'. devres_release_all (?ds @ olds) t = devres_release_all olds t' \<and> idr t' = idr s \<and> devs t' = devs s"
      if t: "idr t = idr s0" "devs t = devs s0" for t
    proof (cases "ret = 0")
      case True
      then obtain s2 where "ubbd_kring_unregister_device dev s0 = Some s2" "idr s2 = idr s" "devs s2 = devs s" using out by blast
      then show ?thesis using True unregister_cong [OF _ t] by (fastforce simp: devm_ubbd_kring_unregister_device_def)
    next
      case False
      then show ?thesis using out t by auto
    qed
    obtain rets s1 new where IH: "devm_register_all rs s0 (?ds @ devres) = Some (rets, s1, new @ ?ds @ devres)"
        "length new = length (filter (\<lambda>r. r = 0) rets)" "length rets = length rs"
        "\<forall>t. idr t = idr s1 \<and> devs t = devs s1 \<longrightarrow>
          (\<exists>t'. devres_release_all (new @ ?ds @ olds) t = devres_release_all (?ds @ olds) t' \<and> idr t' = idr s0 \<and> devs t' = devs s0)"
      using Cons.IH [OF register_keeps_ok [OF Cons.prems reg], of "?ds @ devres" "?ds @ olds"] by blast
    have "devm_register_all (r # rs) s devres = Some (ret # rets, s1, (new @ ?ds) @ devres)" using d IH(1) by simp
    moreover have "length (new @ ?ds) = length (filter (\<lambda>r. r = 0) (ret # rets))" using IH(2) by simp
    moreover have "\<exists>t'. devres_release_all ((new @ ?ds) @ olds) t = devres_release_all olds t' \<and> idr t' = idr s \<and> devs t' = devs s"
      if "idr t = idr s1 \<and> devs t = devs s1" for t
      using IH(4) that undo by (metis append.assoc)
    ultimately show ?thesis using IH(3) by (intro exI [of _ "ret # rets"] exI [of _ s1] exI [of _ "new @ ?ds"]) simp
  qed
qed

text \<open>C26: Registrations managed by the parent return, whatever fails; the parent then holds one resource per
  registration that succeeded, and releasing them all, last in first out, restores minors and devices.\<close>

theorem managed_registrations_undone:
  assumes "registry_ok s"
  shows "\<exists>rets s1 devres t. devm_register_all rs s [] = Some (rets, s1, devres) \<and> length rets = length rs \<and>
    length devres = length (filter (\<lambda>r. r = 0) rets) \<and> devres_release_all devres s1 = Some t \<and> idr t = idr s \<and> devs t = devs s"
  using devm_register_release [OF assms, of rs "[]" "[]"] by fastforce

theorem managed_registrations_undone_witness:
  "\<exists>rets s1 devres t. devm_register_all [\<lparr>ra_devres = True, ra_args = True, ra_kz = True, ra_idr = True, ra_name = 0, ra_add = 0\<rparr>,
       \<lparr>ra_devres = True, ra_args = True, ra_kz = True, ra_idr = True, ra_name = 0, ra_add = - 17\<rparr>] sys0 [] = Some (rets, s1, devres) \<and>
    length rets = 2 \<and> length devres = length (filter (\<lambda>r. r = 0) rets) \<and> devres_release_all devres s1 = Some t \<and> idr t = idr sys0 \<and> devs t = devs sys0"
proof -
  have "length [\<lparr>ra_devres = True, ra_args = True, ra_kz = True, ra_idr = True, ra_name = 0, ra_add = 0\<rparr>,
       \<lparr>ra_devres = True, ra_args = True, ra_kz = True, ra_idr = True, ra_name = 0, ra_add = - 17\<rparr>] = 2" by simp
  then show ?thesis using managed_registrations_undone [OF sys0_ok] by metis
qed

end
