(* ===== verification/Spec2Isabelle.thy ===== *)
theory Spec2Isabelle
  imports Module Dcache Queue_Races Request_Stats Kring_Files
begin

text \<open>
  The UBBD kernel module: a block device whose requests a process in user space serves.

  \<^bold>\<open>The program.\<close> The module (\<open>src/ubbd_main.c\<close>, \<open>src/ubbd_internal.h\<close>) registers a block major, a netlink
  family, the kring character devices and a debugfs tree. A netlink command (\<open>src/ubbd_nl.c\<close>) adds a
  device (\<open>src/ubbd_dev.c\<close>) with a number of queues and a disk; every queue has a kring device
  (\<open>src/ubbd_kring.c\<close>) which a backend opens, maps and polls. The block layer hands requests to
  \<open>ubbd_queue_rq\<close> (\<open>src/ubbd_req.c\<close>); a work item takes data pages for the request, copies the data of a
  write into them, and puts an entry on the command ring of the queue. The backend serves the entry
  through its mapping, puts an entry on the completion ring and writes to the kring device, upon which the
  driver copies the data of a read back, releases the pages, ends the request and retires finished
  entries of the command ring. Devices live by reference counts; commands stop, start, configure and remove them
  while requests are outstanding, and debugfs (\<open>src/ubbd_debugfs.c\<close>) shows the state of the queues.

  \<^bold>\<open>Theories and the code they model.\<close>
  \<^item> \<open>Ubbd_Prelude\<close>: the integer types, error codes and rounding macros, and the lemmas all components share.
    \<open>Machines\<close>: reachable states of a step relation, and the contract \<open>step_invariant\<close>.
  \<^item> \<open>Ubbd_H\<close>: the parameter \<open>H\<close>, what the code takes from \<open>ubbd.h\<close>, with the hypotheses \<open>ubbd_h_ok\<close>: sizes and accessors
    of entry headers are consistent, and the rings are at most \<open>2 ^ 31\<close> bytes. \<open>H0\<close> is a concrete instance.
  \<^item> \<open>Cmd_Ring\<close> (\<open>ubbd_req.c\<close>): \<open>submit_ring_space_enough\<close>, \<open>insert_padding\<close>, \<open>get_submit_entry\<close>, \<open>advance_cmd_ring\<close>. The
    ring refines a list of entries; submission appends to it, retirement drops the finished prefix.
    The contract for its users is the locale \<open>submit_ring\<close>.
  \<^item> \<open>Data_Pages\<close>, \<open>Page_Maps\<close> (\<open>ubbd_req.c\<close>, \<open>ubbd_kring_unmap_range\<close>): bitmap, array of pages, acquisition and release of slots,
    the reserve, and the translations of the backend.
  \<^item> \<open>Request\<close>, \<open>Request_Inv\<close>, \<open>Request_Steps\<close>, \<open>Request_Submit\<close>, \<open>Request_Props\<close> (\<open>ubbd_req.c\<close>): \<open>ubbd_queue_rq\<close>, \<open>ubbd_queue_workfn\<close>,
    \<open>ubbd_queue_complete\<close>, \<open>ubbd_queue_end_inflight_reqs\<close>; their invariant \<open>queue_inv\<close>, one lemma per step, and the
    properties: completion refines its specification on the list of outstanding requests, the work
    item submits or hands back, data arrives where it belongs.
  \<^item> \<open>Kring\<close>, \<open>Kring_Files\<close> (\<open>ubbd_kring.c\<close>): minors, registration (managed registration too), open, release, poll, read,
    write, mmap, page faults, attributes, asynchronous notification.
  \<^item> \<open>Debugfs\<close> (\<open>ubbd_debugfs.c\<close>, the statistics of \<open>ubbd_req.c\<close>): the tree, the files, the figures shown.
  \<^item> \<open>Device\<close>, \<open>Device_Life\<close>, \<open>Device_Add\<close>, \<open>Device_Props\<close>, \<open>Device_Queues\<close>, \<open>Device_Refs\<close> (\<open>ubbd_dev.c\<close>, the inline functions of
    \<open>ubbd_internal.h\<close>): making and destroying queues, disks and devices with everything they hold; stopping,
    starting, configuring and removing; the queues of a device side by side in one memory; and
    the references of a device along every sequence of operations.
  \<^item> \<open>Netlink\<close>, \<open>Netlink_Cmds\<close> (\<open>ubbd_nl.c\<close>): size estimates, replies, the eight handlers, the command table. Replies fit
    their estimates and are complete.
  \<^item> \<open>Driver\<close>: commands, block layer, debugfs, mappings, works and timeouts in any order; every reference of every device is
    accounted for.
  \<^item> \<open>Queue_Io\<close>: a queue in operation, with requests, works, backend, completions and forced ends in any order; no step
    faults or hangs, and every request is answered once.
  \<^item> \<open>Queue_Races\<close>: the same queue under several threads at once, with every section under one lock as a step; no
    section faults, every request is answered once, and each operation of \<open>Queue_Io\<close> is a run of sections.
  \<^item> \<open>Request_Stats\<close>: the request path of a build with \<open>UBBD_REQUEST_STATS\<close>. The time stamps change nothing else, and the
    averages shown are ordered as the events are.
  \<^item> \<open>Module\<close> (\<open>ubbd_main.c\<close>, \<open>ubbd_internal.h\<close>): loading is all or nothing, unloading undoes it. \<open>Dcache\<close>: the pages a cache flush
    covers.
  \<^item> This theory: from adding a device to answering the requests of its queues.

  \<^bold>\<open>How code is modelled.\<close> Structures are records; \<open>struct ubbd_queue\<close> is the command ring extended by the data pool and by
  the fields of the request path, and wrapped by \<open>dev_queue\<close> for the fields the device keeps. Unsigned
  integers are words of their width and wrap. An operation that can oops, use a freed object or never return yields an
  option, and \<open>None\<close> stands for all of these; loops over shared memory are \<open>partial_function\<close>s, so that their return
  is a theorem. Results of kernel calls that can fail come from the lists \<open>rets\<close> and \<open>km_oracle\<close> or from
  parameters, and the theorems hold for all of them; the readings of the clock are the parameter \<open>T\<close>, monotonic and positive. No fuel is used.

  \<^bold>\<open>Granularity.\<close> In \<open>Queue_Io\<close> a work item, a call of \<open>ubbd_queue_complete\<close> and a forced end are one step each; in \<open>Queue_Races\<close> they
  are cut at their locks: a work item prepares, lists, and publishes its request, a completer takes an entry, fetches
  the request and ends it, and any number of them are under way at once. Three things remain one step there: a work item that
  finds no room takes its request off the list again in the step that found no room; ending a request
  comprises marking its entry, releasing its slots and retiring entries of the ring; and preparing takes all data pages. The
  window between listing and publishing, in which a completion with the stale id 0 can fault (\<open>Request_Props\<close>), is a state of
  \<open>Queue_Races\<close>, which shows that nothing else goes wrong in it.

  \<^bold>\<open>Assumptions.\<close> The backend may write completion entries and data as it likes but leaves the head of the
  completion ring at whole entries (without that the completion loop need not end, \<open>Request_Props\<close>); it does not write to the
  command ring. In \<open>Queue_Races\<close> it names no transaction id 0, which it was never given, and a forced end starts when no work item is under
  way, as the flush of the work queue before it sees to. The block layer reuses a tag only after its request was answered, hands over at most \<open>USHRT_MAX\<close> segments
  (the limit the driver sets), and there are fewer than \<open>2 ^ 64 - 1\<close> requests. Pools have less than \<open>2 ^ 31\<close> pages; translations are
  coherent below \<open>2 ^ 19\<close> pages only, where the byte offset fits an \<open>int\<close>.

  \<^bold>\<open>Not modelled.\<close> Memory barriers and cache effects (every read sees the last write); what the block layer, netlink and the
  virtual file system do beyond the calls the driver makes; message bytes and the text of debugfs files and of log messages; the
  fault injection points, which \<open>ubbd_internal.h\<close> compiles out with an unconditional \<open>#undef\<close>; concurrent updates of the request
  statistics, which the code does without a lock; the compile
  probes under \<open>src/compat-tests\<close>, whose outcome is the choice between code variants; packaging and scripts.
\<close>

section \<open>From adding a device to answering requests\<close>

lemma prepared_fresh:
  assumes "prepared C s0 opts d" and "i < length (queues d)"
  shows "fresh_core (uc_h C) (ao_data_pages opts) (dq_core (queues d ! i))"
proof -
  obtain d0 d1 where d: "new_device C opts d0" "set_up C (ubbd_major s0) (def_limits s0) d1 (d\<lparr>dv_status := UBBD_DEV_KSTATUS_INIT\<rparr>)"
      "queues d1 = queues d0" using assms(1) by (auto simp: prepared_def)
  have l: "list_all2 same_but_hctx (queues d0) (queues d)" using set_up_queues [OF d(2)] d(3) by simp
  then have "same_but_hctx (queues d0 ! i) (queues d ! i)" "i < length (queues d0)"
    using assms(2) by (auto simp: list_all2_conv_all_nth)
  then show ?thesis using d(1) by (simp add: new_device_def new_queue_def same_but_hctx_def)
qed

lemma prepared_io_init:
  assumes "prepared C s0 opts d" and "i < length (queues d)" and "ubbd_h_ok (uc_h C)" and "unat (ao_data_pages opts) < 2 ^ 31"
    and "dom (km_pages km) \<subseteq> {..<km_next km}"
  shows "io_init (uc_h C) (snd (ubbd_kring_dev_open (dq_core (queues d ! i))), km, {#})"
proof -
  let ?c = "dq_core (queues d ! i)"
  have f: "fresh_core (uc_h C) (ao_data_pages opts) ?c" by (rule prepared_fresh [OF assms(1,2)])
  then have "data_pages ?c = ao_data_pages opts" by (simp add: fresh_core_def)
  then have "fresh_core (uc_h C) (data_pages ?c) ?c" "unat (data_pages ?c) < 2 ^ 31" using f assms(4) by simp_all
  then show ?thesis using assms(3,5) by (auto simp: io_init_def ubbd_kring_dev_open_def)
qed


definition flush_rq :: request where "flush_rq = \<lparr>rq_op = REQ_OP_FLUSH, rq_bio = [], rq_pos = 0, rq_bytes = 0, rq_timeout = 0\<rparr>"


end
